(* ===== verification/Prelude.thy ===== *)
theory Prelude
  imports Main "HOL-Library.Word" "HOL-Library.List_Lexorder" "HOL-Library.Monad_Syntax"
begin

text \<open>
  Shared vocabulary of the development: the machine integer types of the source, byte slices
  and the two raw-memory operations the unsafe code is written with (read a slice, overwrite a
  slice), the lexicographic comparison of byte strings, little-endian encodings, and the binary
  search loop that the inner node and the leaf node share.
\<close>

unbundle bit_operations_syntax

named_theorems slices \<open>rewriting reads of a byte buffer after writes\<close>
named_theorems unat_wrap \<open>unat of word arithmetic that does not wrap\<close>

type_synonym u8 = "8 word"
type_synonym u16 = "16 word"
type_synonym u32 = "32 word"
type_synonym u64 = "64 word"
type_synonym usize = "64 word"
type_synonym bytes = "u8 list"

section \<open>Comparison of byte strings\<close>

datatype ordering = Less | Equal | Greater

text \<open>\<^verbatim>\<open>Ord::cmp\<close> on \<^verbatim>\<open>[u8]\<close>: lexicographic, a proper prefix is smaller.\<close>

fun bytes_cmp :: "bytes \<Rightarrow> bytes \<Rightarrow> ordering" where
  "bytes_cmp [] [] = Equal"
| "bytes_cmp [] (y # ys) = Less"
| "bytes_cmp (x # xs) [] = Greater"
| "bytes_cmp (x # xs) (y # ys) =
     (if x < y then Less else if y < x then Greater else bytes_cmp xs ys)"

lemma bytes_cmp_iff:
  "(bytes_cmp a b = Less \<longleftrightarrow> a < b) \<and> (bytes_cmp a b = Equal \<longleftrightarrow> a = b) \<and>
   (bytes_cmp a b = Greater \<longleftrightarrow> b < a)"
  by (induction a b rule: bytes_cmp.induct) auto

lemma bytes_cmp_simps [simp]:
  "bytes_cmp a b = Less \<longleftrightarrow> a < b"
  "bytes_cmp a b = Equal \<longleftrightarrow> a = b"
  "bytes_cmp a b = Greater \<longleftrightarrow> b < a"
  using bytes_cmp_iff by auto

lemma bytes_cmp_refl [simp]: "bytes_cmp a a = Equal"
  by simp

lemma bytes_cmp_append [simp]: "bytes_cmp (p @ a) (p @ b) = bytes_cmp a b"
  by (induction p) auto

lemma append_less_append [simp]: "(p @ a < p @ b) \<longleftrightarrow> a < (b :: bytes)"
  using bytes_cmp_append [of p a b] bytes_cmp_simps(1) by metis

text \<open>
  The nodes keep the first bytes of a key in its slot and compare these first. The comparison
  of the heads decides whenever they differ; when they agree the tails decide.
\<close>

lemma bytes_cmp_take:
  "bytes_cmp (take k a) (take k b) \<noteq> Equal \<Longrightarrow> bytes_cmp (take k a) (take k b) = bytes_cmp a b"
proof (induction a b arbitrary: k rule: bytes_cmp.induct)
  case (4 x xs y ys)
  then show ?case by (cases k) auto
next
  case (2 y ys)
  then show ?case by (cases k) auto
next
  case (3 x xs)
  then show ?case by (cases k) auto
qed simp

lemma bytes_cmp_drop:
  "take k a = take k b \<Longrightarrow> bytes_cmp (drop k a) (drop k b) = bytes_cmp a b"
  by (metis append_take_drop_id bytes_cmp_append)

section \<open>Reading and overwriting slices of a buffer\<close>

definition read_at :: "nat \<Rightarrow> nat \<Rightarrow> 'a list \<Rightarrow> 'a list" where
  "read_at off len d = take len (drop off d)"

definition write_at :: "nat \<Rightarrow> 'a list \<Rightarrow> 'a list \<Rightarrow> 'a list" where
  "write_at off bs d = take off d @ bs @ drop (off + length bs) d"

lemma length_read_at [simp]: "off + len \<le> length d \<Longrightarrow> length (read_at off len d) = len"
  by (simp add: read_at_def)

lemma length_write_at [simp]: "off + length bs \<le> length d \<Longrightarrow> length (write_at off bs d) = length d"
  by (simp add: write_at_def)

lemma read_at_zero [simp]: "read_at off 0 d = []"
  by (simp add: read_at_def)

lemma write_at_Nil [simp]: "write_at off [] d = d"
  by (simp add: write_at_def)

lemma nth_write_at:
  "off + length bs \<le> length d \<Longrightarrow> i < length d \<Longrightarrow>
   write_at off bs d ! i = (if off \<le> i \<and> i < off + length bs then bs ! (i - off) else d ! i)"
  by (auto simp: write_at_def nth_append min_def)

lemma nth_read_at: "off + len \<le> length d \<Longrightarrow> i < len \<Longrightarrow> read_at off len d ! i = d ! (off + i)"
  by (simp add: read_at_def)

lemma read_write_same [slices]:
  "off + length bs \<le> length d \<Longrightarrow> len = length bs \<Longrightarrow> read_at off len (write_at off bs d) = bs"
  by (simp add: read_at_def write_at_def)

lemma read_write_within:
  assumes "o1 \<le> o2" "o2 + len \<le> o1 + length bs" "o1 + length bs \<le> length d"
  shows "read_at o2 len (write_at o1 bs d) = read_at (o2 - o1) len bs"
  using assms by (intro nth_equalityI) (auto simp: nth_read_at nth_write_at)

lemma read_write_disjoint [slices]:
  assumes "o2 + len \<le> o1 \<or> o1 + length bs \<le> o2"
    and "o1 + length bs \<le> length d" "o2 + len \<le> length d"
  shows "read_at o2 len (write_at o1 bs d) = read_at o2 len d"
  using assms by (intro nth_equalityI) (auto simp: nth_read_at nth_write_at)

lemma write_at_write_at:
  "off + length a + length b \<le> length d \<Longrightarrow>
   write_at (off + length a) b (write_at off a d) = write_at off (a @ b) d"
  by (rule nth_equalityI) (auto simp: nth_write_at nth_append)

lemma read_at_add: "read_at off (m + n) d = read_at off m d @ read_at (off + m) n d"
  by (simp add: read_at_def take_add add.commute)

lemma read_at_read_at: "m + n \<le> len \<Longrightarrow> read_at m n (read_at off len d) = read_at (off + m) n d"
  by (simp add: read_at_def drop_take add.commute)

lemma read_at_cong:
  "read_at off len d = read_at off len d' \<Longrightarrow> m + n \<le> len \<Longrightarrow>
   read_at (off + m) n d = read_at (off + m) n d'"
  by (metis read_at_read_at)

section \<open>Little-endian encodings\<close>

lemma unat_bound: "unat (w :: 'a::len word) < 2 ^ LENGTH('a)"
  by simp

fun le_bytes :: "nat \<Rightarrow> nat \<Rightarrow> bytes" where
  "le_bytes 0 k = []"
| "le_bytes (Suc n) k = of_nat k # le_bytes n (k div 256)"

fun le_nat :: "bytes \<Rightarrow> nat" where
  "le_nat [] = 0"
| "le_nat (b # bs) = unat b + 256 * le_nat bs"

lemma length_le_bytes [simp]: "length (le_bytes n k) = n"
  by (induction n arbitrary: k) auto

lemma le_nat_le_bytes: "le_nat (le_bytes n k) = k mod 256 ^ n"
proof (induction n arbitrary: k)
  case (Suc n)
  then show ?case
    by (simp add: unat_of_nat mod_mult2_eq)
qed simp

lemma le_bytes_le_nat: "le_bytes (length bs) (le_nat bs) = bs"
proof (induction bs)
  case (Cons b bs)
  have lt: "unat b < 256" using unat_bound [of b] by simp
  then have "(unat b + 256 * le_nat bs) div 256 = le_nat bs" by simp
  moreover have "(of_nat (unat b + 256 * le_nat bs) :: u8) = b"
  proof -
    have "(256 :: u8) = 0" by simp
    then show ?thesis by (simp only: of_nat_add of_nat_mult of_nat_numeral) simp
  qed
  ultimately show ?case using Cons by (simp del: of_nat_add of_nat_mult)
qed simp

lemma le_nat_less: "le_nat bs < 256 ^ length bs"
proof (induction bs)
  case (Cons b bs)
  have "unat b < 256" using unat_bound [of b] by simp
  with Cons show ?case by simp
qed simp

definition u16_to_le_bytes :: "u16 \<Rightarrow> bytes" where
  "u16_to_le_bytes w = le_bytes 2 (unat w)"

definition u16_from_le_bytes :: "bytes \<Rightarrow> u16" where
  "u16_from_le_bytes bs = of_nat (le_nat bs)"

definition u64_to_le_bytes :: "u64 \<Rightarrow> bytes" where
  "u64_to_le_bytes w = le_bytes 8 (unat w)"

definition u64_from_le_bytes :: "bytes \<Rightarrow> u64" where
  "u64_from_le_bytes bs = of_nat (le_nat bs)"

lemma length_to_le_bytes [simp]:
  "length (u16_to_le_bytes w) = 2" "length (u64_to_le_bytes v) = 8"
  by (simp_all add: u16_to_le_bytes_def u64_to_le_bytes_def)

lemma u16_le_roundtrip [simp]: "u16_from_le_bytes (u16_to_le_bytes w) = w"
  using unat_bound [of w] by (simp add: u16_from_le_bytes_def u16_to_le_bytes_def le_nat_le_bytes)

lemma u64_le_roundtrip [simp]: "u64_from_le_bytes (u64_to_le_bytes w) = w"
  using unat_bound [of w] by (simp add: u64_from_le_bytes_def u64_to_le_bytes_def le_nat_le_bytes)

section \<open>Arithmetic that does not wrap\<close>

lemma unat_add_nowrap [unat_wrap]:
  "unat (a :: 'a::len word) + unat b < 2 ^ LENGTH('a) \<Longrightarrow> unat (a + b) = unat a + unat b"
  by (rule unat_add_lem [THEN iffD1])

lemma unat_sub_nowrap [unat_wrap]:
  "unat b \<le> unat (a :: 'a::len word) \<Longrightarrow> unat (a - b) = unat a - unat b"
  by (rule unat_sub) (simp add: word_le_nat_alt)

lemma unat_mult_nowrap [unat_wrap]:
  "unat (a :: 'a::len word) * unat b < 2 ^ LENGTH('a) \<Longrightarrow> unat (a * b) = unat a * unat b"
  by (rule unat_mult_lem [THEN iffD1])

lemma unat_of_nat_nowrap [unat_wrap]:
  "k < 2 ^ LENGTH('a) \<Longrightarrow> unat (of_nat k :: 'a::len word) = k"
  by (simp add: unat_of_nat take_bit_nat_eq_self)

lemma take_bit_small: "unat (w :: 'a::len word) < 2 ^ n \<Longrightarrow> take_bit n w = w"
  by (simp add: word_unat_eq_iff unsigned_take_bit_eq take_bit_nat_eq_self)

section \<open>Binary search\<close>

text \<open>
  The loop of \<^verbatim>\<open>InnerNode::lower_bound\<close> and \<^verbatim>\<open>LeafNode::lower_bound\<close>: \<open>Inl mid\<close> when the
  comparison at \<open>mid\<close> is equal (the early return), \<open>Inr lower\<close> when the range is empty.
\<close>

function bsearch :: "(nat \<Rightarrow> ordering) \<Rightarrow> nat \<Rightarrow> nat \<Rightarrow> nat + nat" where
  "bsearch c lower upper =
     (if lower < upper then
        let mid = lower + (upper - lower) div 2 in
        case c mid of
          Greater \<Rightarrow> bsearch c lower mid
        | Equal \<Rightarrow> Inl mid
        | Less \<Rightarrow> bsearch c (mid + 1) upper
      else Inr lower)"
  by pat_completeness auto
termination
  by (relation "measure (\<lambda>(c, lower, upper). upper - lower)") auto

declare bsearch.simps [simp del]

lemma bsearch_cong:
  assumes "\<And>i. lower \<le> i \<Longrightarrow> i < upper \<Longrightarrow> c i = c' i"
  shows "bsearch c lower upper = bsearch c' lower upper"
  using assms
proof (induction c lower upper rule: bsearch.induct)
  case (1 c lower upper)
  show ?case
  proof (cases "lower < upper")
    case True
    define mid where "mid = lower + (upper - lower) div 2"
    have "lower \<le> mid" "mid < upper" using True by (auto simp: mid_def)
    then show ?thesis
      using 1(1,2) [OF True mid_def] 1(3)
      by (auto simp: bsearch.simps [of _ lower upper] Let_def mid_def [symmetric] split: ordering.splits)
  qed (simp add: bsearch.simps [of _ lower upper])
qed

text \<open>On strictly ascending keys the loop finds the key or the place it belongs.\<close>

lemma bsearch_correct:
  assumes "\<And>i. lower \<le> i \<Longrightarrow> i < upper \<Longrightarrow> c i = bytes_cmp (ks i) key"
    and "\<And>i j. lower \<le> i \<Longrightarrow> i < j \<Longrightarrow> j < upper \<Longrightarrow> ks i < ks j"
    and "lower \<le> upper"
  shows "case bsearch c lower upper of
           Inl m \<Rightarrow> lower \<le> m \<and> m < upper \<and> ks m = key
         | Inr l \<Rightarrow> lower \<le> l \<and> l \<le> upper \<and> (\<forall>i. lower \<le> i \<and> i < l \<longrightarrow> ks i < key) \<and>
                   (\<forall>i. l \<le> i \<and> i < upper \<longrightarrow> key < ks i)"
  using assms
proof (induction c lower upper rule: bsearch.induct)
  case (1 c lower upper)
  show ?case
  proof (cases "lower < upper")
    case False
    then have "bsearch c lower upper = Inr lower" by (simp add: bsearch.simps [of c lower upper])
    then show ?thesis using "1.prems"(3) False by (auto simp: not_less)
  next
    case True
    define mid where "mid = lower + (upper - lower) div 2"
    have mid: "lower \<le> mid" "mid < upper" using True by (auto simp: mid_def)
    have cm: "c mid = bytes_cmp (ks mid) key" using "1.prems"(1) mid by blast
    have below: "ks i < ks mid" if "lower \<le> i" "i < mid" for i
      using "1.prems"(2) mid that by blast
    have above: "ks mid < ks i" if "mid < i" "i < upper" for i
      using "1.prems"(2) mid that by blast
    have unf: "bsearch c lower upper = (case c mid of Greater \<Rightarrow> bsearch c lower mid
        | Equal \<Rightarrow> Inl mid | Less \<Rightarrow> bsearch c (mid + 1) upper)"
      using True by (simp add: bsearch.simps [of c lower upper] Let_def flip: mid_def)
    show ?thesis
    proof (cases "c mid")
      case Less
      with cm have lt: "ks mid < key" by (metis bytes_cmp_simps(1))
      have "case bsearch c (mid + 1) upper of
           Inl m \<Rightarrow> mid + 1 \<le> m \<and> m < upper \<and> ks m = key
         | Inr l \<Rightarrow> mid + 1 \<le> l \<and> l \<le> upper \<and> (\<forall>i. mid + 1 \<le> i \<and> i < l \<longrightarrow> ks i < key) \<and>
                   (\<forall>i. l \<le> i \<and> i < upper \<longrightarrow> key < ks i)"
        by (rule "1.IH"(1) [OF True mid_def Less])
           (use "1.prems"(1,2) mid in \<open>simp_all del: bytes_cmp_simps\<close>)
      moreover have "ks i < key" if "lower \<le> i" "i \<le> mid" for i
        using that lt below [of i] by (cases "i = mid") auto
      ultimately show ?thesis
        unfolding unf Less using mid
        by (cases "bsearch c (mid + 1) upper") (auto simp: Suc_le_eq, metis not_le)
    next
      case Equal
      with cm have "ks mid = key" by (metis bytes_cmp_simps(2))
      then show ?thesis unfolding unf Equal using mid by simp
    next
      case Greater
      with cm have gt: "key < ks mid" by (metis bytes_cmp_simps(3))
      have "case bsearch c lower mid of
           Inl m \<Rightarrow> lower \<le> m \<and> m < mid \<and> ks m = key
         | Inr l \<Rightarrow> lower \<le> l \<and> l \<le> mid \<and> (\<forall>i. lower \<le> i \<and> i < l \<longrightarrow> ks i < key) \<and>
                   (\<forall>i. l \<le> i \<and> i < mid \<longrightarrow> key < ks i)"
        by (rule "1.IH"(2) [OF True mid_def Greater])
           (use "1.prems"(1,2) mid in \<open>simp_all del: bytes_cmp_simps\<close>)
      moreover have "key < ks i" if "mid \<le> i" "i < upper" for i
        using that gt above [of i] by (cases "i = mid") auto
      ultimately show ?thesis
        unfolding unf Greater using mid
        by (cases "bsearch c lower mid") (auto, metis not_le)
    qed
  qed
qed

section \<open>The first position of a list\<close>

text \<open>\<^verbatim>\<open>Iterator::position\<close>.\<close>

fun position :: "('a \<Rightarrow> bool) \<Rightarrow> 'a list \<Rightarrow> nat option" where
  "position P [] = None"
| "position P (x # xs) = (if P x then Some 0 else map_option Suc (position P xs))"

lemma positionD:
  assumes "position P xs = Some i"
  shows "i < length xs" "P (xs ! i)" "\<forall>j<i. \<not> P (xs ! j)"
  using assms by (induction xs arbitrary: i) (auto split: if_splits simp: nth_Cons')

lemma position_some: "x \<in> set xs \<Longrightarrow> P x \<Longrightarrow> \<exists>i. position P xs = Some i"
  by (induction xs) auto

section \<open>Errors\<close>

text \<open>\<^verbatim>\<open>TreeError\<close> (src/src/error.rs): why an operation on the tree is retried.\<close>

datatype tree_error = Locked | CircularBufferFull | NeedRestart

end
