(* ===== verification/Node_Meta.thy ===== *)
theory Node_Meta
  imports Prelude
begin

text \<open>
  The packed page header \<^verbatim>\<open>NodeMeta\<close> (src/src/nodes/node_meta.rs) and the size constants of
  src/src/nodes/mod.rs.
  \<^verbatim>\<open>encoded\<close> holds four flags in its top bits and the number of slots in the low twelve.
\<close>

section \<open>Constants of nodes/mod.rs\<close>

definition INNER_NODE_SIZE :: nat where "INNER_NODE_SIZE = 4096"
definition DISK_PAGE_SIZE :: nat where "DISK_PAGE_SIZE = 4096"
definition MAX_LEAF_PAGE_SIZE :: nat where "MAX_LEAF_PAGE_SIZE = 32768"
definition MAX_KEY_LEN :: nat where "MAX_KEY_LEN = 2020"
definition MAX_VALUE_LEN :: nat where "MAX_VALUE_LEN = 16332"
definition CACHE_LINE_SIZE :: nat where "CACHE_LINE_SIZE = 64"
definition FENCE_KEY_CNT :: nat where "FENCE_KEY_CNT = 2"
definition KV_META_SIZE :: nat where "KV_META_SIZE = 8"

lemmas size_consts = INNER_NODE_SIZE_def DISK_PAGE_SIZE_def MAX_LEAF_PAGE_SIZE_def
  MAX_KEY_LEN_def MAX_VALUE_LEN_def CACHE_LINE_SIZE_def FENCE_KEY_CNT_def KV_META_SIZE_def

section \<open>NodeMeta\<close>

record node_meta =
  encoded :: u16
  node_size :: u16
  remaining_size :: u16

definition HAS_FENCE_MASK :: u16 where "HAS_FENCE_MASK = 0x8000"
definition SHOULD_SPLIT_MASK :: u16 where "SHOULD_SPLIT_MASK = 0x4000"
definition CHILDREN_IS_LEAF_MASK :: u16 where "CHILDREN_IS_LEAF_MASK = 0x2000"
definition CACHE_LEAF_MASK :: u16 where "CACHE_LEAF_MASK = 0x1000"
definition VALUE_COUNT_MASK :: u16 where "VALUE_COUNT_MASK = 0x0FFF"

lemmas mask_defs = HAS_FENCE_MASK_def SHOULD_SPLIT_MASK_def CHILDREN_IS_LEAF_MASK_def
  CACHE_LEAF_MASK_def VALUE_COUNT_MASK_def

text \<open>\<open>None\<close> is the failed assertion: a fence flag with \<^verbatim>\<open>children_is_leaf\<close>.\<close>

definition node_meta_new :: "u16 \<Rightarrow> bool \<Rightarrow> bool \<Rightarrow> u16 \<Rightarrow> bool \<Rightarrow> node_meta option" where
  "node_meta_new remaining children_is_leaf has_fence nsize cache_only =
     (let e0 = (0 :: u16);
          e1 = (if children_is_leaf then e0 OR CHILDREN_IS_LEAF_MASK else e0) in
      if has_fence \<and> children_is_leaf then None
      else
        let e2 = (if has_fence then e1 OR HAS_FENCE_MASK else e1);
            e3 = (if cache_only then e2 OR CACHE_LEAF_MASK else e2)
        in Some \<lparr>encoded = e3, node_size = nsize, remaining_size = remaining\<rparr>)"

definition meta_count_with_fence :: "node_meta \<Rightarrow> u16" where
  "meta_count_with_fence m = encoded m AND VALUE_COUNT_MASK"

definition value_count_inner :: "node_meta \<Rightarrow> u16" where
  "value_count_inner m = meta_count_with_fence m - 1"

definition has_fence :: "node_meta \<Rightarrow> bool" where
  "has_fence m = (encoded m AND HAS_FENCE_MASK \<noteq> 0)"

definition meta_count_without_fence :: "node_meta \<Rightarrow> u16" where
  "meta_count_without_fence m =
     (if has_fence m then meta_count_with_fence m - of_nat FENCE_KEY_CNT
      else encoded m AND VALUE_COUNT_MASK)"

definition set_value_count :: "node_meta \<Rightarrow> u16 \<Rightarrow> node_meta" where
  "set_value_count m count = m\<lparr>encoded := (encoded m AND NOT VALUE_COUNT_MASK) OR count\<rparr>"

definition children_is_leaf :: "node_meta \<Rightarrow> bool" where
  "children_is_leaf m = (encoded m AND CHILDREN_IS_LEAF_MASK \<noteq> 0)"

definition is_cache_only_leaf :: "node_meta \<Rightarrow> bool" where
  "is_cache_only_leaf m = (encoded m AND CACHE_LEAF_MASK \<noteq> 0)"

definition set_children_is_leaf :: "node_meta \<Rightarrow> bool \<Rightarrow> node_meta" where
  "set_children_is_leaf m is_leaf =
     (if is_leaf then m\<lparr>encoded := encoded m OR CHILDREN_IS_LEAF_MASK\<rparr>
      else m\<lparr>encoded := encoded m AND NOT CHILDREN_IS_LEAF_MASK\<rparr>)"

definition increment_value_count :: "node_meta \<Rightarrow> node_meta" where
  "increment_value_count m = m\<lparr>encoded := encoded m + 1\<rparr>"

definition decrement_value_count :: "node_meta \<Rightarrow> node_meta" where
  "decrement_value_count m = m\<lparr>encoded := encoded m - 1\<rparr>"

definition get_split_flag :: "node_meta \<Rightarrow> bool" where
  "get_split_flag m = (encoded m AND SHOULD_SPLIT_MASK \<noteq> 0)"

definition set_split_flag :: "node_meta \<Rightarrow> node_meta" where
  "set_split_flag m = m\<lparr>encoded := encoded m OR SHOULD_SPLIT_MASK\<rparr>"

section \<open>The fields of the header\<close>

text \<open>The slot count as a number, and the four flags, read off the bits of \<^verbatim>\<open>encoded\<close>.\<close>

abbreviation slot_count :: "node_meta \<Rightarrow> nat" where
  "slot_count m \<equiv> unat (meta_count_with_fence m)"

definition same_flags :: "node_meta \<Rightarrow> node_meta \<Rightarrow> bool" where
  "same_flags m m' \<longleftrightarrow> has_fence m' = has_fence m \<and> get_split_flag m' = get_split_flag m \<and>
     children_is_leaf m' = children_is_leaf m \<and> is_cache_only_leaf m' = is_cache_only_leaf m"

lemma and_pow2_neq_0: "((w :: u16) AND 2 ^ k \<noteq> 0) = (k < 16 \<and> bit w k)"
  using bit_imp_le_length [of w k] by (auto simp: and_exp_eq_0_iff_not_bit)

lemma flag_bits:
  "has_fence m = bit (encoded m) 15" "get_split_flag m = bit (encoded m) 14"
  "children_is_leaf m = bit (encoded m) 13" "is_cache_only_leaf m = bit (encoded m) 12"
  using and_pow2_neq_0 [of "encoded m" 15] and_pow2_neq_0 [of "encoded m" 14]
    and_pow2_neq_0 [of "encoded m" 13] and_pow2_neq_0 [of "encoded m" 12]
  by (simp_all add: has_fence_def get_split_flag_def children_is_leaf_def is_cache_only_leaf_def
      mask_defs)

lemma value_count_mask: "VALUE_COUNT_MASK = mask 12"
  by (simp add: VALUE_COUNT_MASK_def mask_eq_exp_minus_1)

lemma slot_count_mod: "slot_count m = unat (encoded m) mod 4096"
  by (simp add: meta_count_with_fence_def value_count_mask take_bit_eq_mask [symmetric]
      take_bit_eq_mod unat_mod)

lemma slot_count_less: "slot_count m < 4096"
  by (simp add: slot_count_mod)

lemma bit_high: "12 \<le> k \<Longrightarrow> k < 16 \<Longrightarrow>
   bit (w :: u16) k = odd (unat w div 4096 div 2 ^ (k - 12))"
proof -
  assume "12 \<le> k" "k < 16"
  have "(2 :: nat) ^ 12 * 2 ^ (k - 12) = 2 ^ k"
    using \<open>12 \<le> k\<close> by (subst power_add [symmetric]) simp
  then have "unat w div 4096 div 2 ^ (k - 12) = unat w div 2 ^ k"
    by (simp flip: div_mult2_eq)
  moreover have "bit w k = bit (unat w) k"
    using \<open>k < 16\<close> by (simp add: bit_unsigned_iff)
  ultimately show ?thesis
    by (simp add: bit_iff_odd [of "unat w"])
qed

lemma same_flagsI:
  assumes "unat (encoded m') div 4096 = unat (encoded m) div 4096"
  shows "same_flags m m'"
  using assms by (simp add: same_flags_def flag_bits bit_high)

lemma small_no_high_bit: "unat (c :: u16) < 4096 \<Longrightarrow> 12 \<le> k \<Longrightarrow> \<not> bit c k"
  using bit_high [of k c] bit_imp_le_length [of c k] by (cases "k < 16") auto

lemma bit_count_mask: "bit VALUE_COUNT_MASK k = (k < 12)"
  by (auto simp: value_count_mask bit_mask_iff)

lemma set_value_count_laws:
  assumes "unat c < 4096"
  shows "meta_count_with_fence (set_value_count m c) = c"
    and "same_flags m (set_value_count m c)"
    and "node_size (set_value_count m c) = node_size m"
    and "remaining_size (set_value_count m c) = remaining_size m"
proof -
  show "meta_count_with_fence (set_value_count m c) = c"
    using small_no_high_bit [OF assms]
    by (intro bit_word_eqI)
       (auto simp: meta_count_with_fence_def set_value_count_def bit_simps bit_count_mask, meson not_less)
  show "same_flags m (set_value_count m c)"
    using small_no_high_bit [OF assms]
    by (simp add: same_flags_def flag_bits set_value_count_def bit_simps bit_count_mask)
qed (simp_all add: set_value_count_def)

lemma increment_value_count_laws:
  assumes "slot_count m < 4095"
  shows "slot_count (increment_value_count m) = Suc (slot_count m)"
    and "same_flags m (increment_value_count m)"
    and "node_size (increment_value_count m) = node_size m"
    and "remaining_size (increment_value_count m) = remaining_size m"
proof -
  have "unat (encoded m) \<noteq> 65535" using assms by (auto simp: slot_count_mod)
  then have e: "unat (encoded m + 1) = Suc (unat (encoded m))"
    using unat_bound [of "encoded m"] by (simp add: unat_wrap)
  show "slot_count (increment_value_count m) = Suc (slot_count m)"
    using assms by (simp add: slot_count_mod increment_value_count_def e mod_Suc)
  show "same_flags m (increment_value_count m)"
    using assms by (intro same_flagsI) (simp add: slot_count_mod increment_value_count_def e div_Suc mod_Suc)
qed (simp_all add: increment_value_count_def)

lemma decrement_value_count_laws:
  assumes "0 < slot_count m"
  shows "slot_count (decrement_value_count m) = slot_count m - 1"
    and "same_flags m (decrement_value_count m)"
proof -
  have "0 < unat (encoded m)" using assms by (auto simp: slot_count_mod intro: gr0I)
  then obtain e where e: "unat (encoded m) = Suc e" by (cases "unat (encoded m)") auto
  have d: "unat (encoded m - 1) = e"
    using e by (simp add: unat_wrap)
  show "slot_count (decrement_value_count m) = slot_count m - 1"
    using assms e by (auto simp: slot_count_mod decrement_value_count_def d mod_Suc split: if_splits)
  show "same_flags m (decrement_value_count m)"
    using assms e
    by (intro same_flagsI) (auto simp: slot_count_mod decrement_value_count_def d div_Suc mod_Suc split: if_splits)
qed

lemma node_meta_new_eq:
  "node_meta_new remaining cl fence nsize co = None \<longleftrightarrow> fence \<and> cl"
  by (simp add: node_meta_new_def Let_def)

lemma node_meta_new_laws:
  assumes "node_meta_new remaining cl fence nsize co = Some m"
  shows "slot_count m = 0" "has_fence m = fence" "children_is_leaf m = cl"
    "is_cache_only_leaf m = co" "\<not> get_split_flag m" "node_size m = nsize"
    "remaining_size m = remaining"
  using assms
  by (auto simp: node_meta_new_def Let_def meta_count_with_fence_def has_fence_def
      children_is_leaf_def is_cache_only_leaf_def get_split_flag_def mask_defs split: if_splits)

section \<open>Properties\<close>

text \<open>
  The packed header keeps its fields apart. A count below 4096 that is written reads back
  and changes no flag, and adding or removing one slot changes the count by one and no flag.
\<close>

theorem header_fields_independent:
  assumes "unat c < 4095"
  shows "meta_count_with_fence (set_value_count m c) = c \<and> same_flags m (set_value_count m c) \<and>
    slot_count (increment_value_count (set_value_count m c)) = Suc (unat c) \<and>
    same_flags m (increment_value_count (set_value_count m c)) \<and>
    decrement_value_count (increment_value_count m) = m"
proof -
  have "meta_count_with_fence (set_value_count m c) = c" "same_flags m (set_value_count m c)"
    using assms by (simp_all add: set_value_count_laws)
  then show ?thesis
    using increment_value_count_laws(1,2) [of "set_value_count m c"] assms
    by (simp add: same_flags_def) (simp add: decrement_value_count_def increment_value_count_def)
qed

theorem header_fields_independent_witness:
  "slot_count (increment_value_count
     (set_value_count \<lparr>encoded = 0xA003, node_size = 4096, remaining_size = 40\<rparr> 7)) = 8"
  using header_fields_independent [of 7] by simp

end
