(* ===== verification/Page_Id.thy ===== *)
theory Page_Id
  imports Prelude
begin

text \<open>
  \<^verbatim>\<open>PageID\<close> (src/src/nodes/page_id.rs): one 64-bit word that is either the heap address of an
  inner node or, with bit 62 set, the number of a leaf page in the mapping table; and the root
  word of the tree (src/src/tree.rs), which marks a leaf root in bit 63.
\<close>

datatype page_id = PageID (page_value: u64)

definition ID_MASK :: u64 where "ID_MASK = 0x4000000000000000"

definition from_pointer :: "u64 \<Rightarrow> page_id" where
  "from_pointer ptr = PageID ptr"

definition from_id :: "u64 \<Rightarrow> page_id" where
  "from_id i = PageID (i OR ID_MASK)"

definition is_id :: "page_id \<Rightarrow> bool" where
  "is_id p = (page_value p AND ID_MASK \<noteq> 0)"

text \<open>\<open>None\<close>: the assertion that the word is an identifier fails.\<close>

definition as_id :: "page_id \<Rightarrow> u64 option" where
  "as_id p = (if is_id p then Some (page_value p AND NOT ID_MASK) else None)"

definition is_inner_node_pointer :: "page_id \<Rightarrow> bool" where
  "is_inner_node_pointer p = (page_value p AND ID_MASK = 0)"

definition page_raw :: "page_id \<Rightarrow> u64" where
  "page_raw p = page_value p"

definition as_inner_node :: "page_id \<Rightarrow> u64 option" where
  "as_inner_node p = (if is_inner_node_pointer p then Some (page_value p) else None)"

definition ROOT_IS_LEAF_MASK :: u64 where "ROOT_IS_LEAF_MASK = 0x8000000000000000"

definition get_root_page :: "u64 \<Rightarrow> page_id \<times> bool" where
  "get_root_page root_page_id =
     (let root_is_leaf = (root_page_id AND ROOT_IS_LEAF_MASK \<noteq> 0);
          clean = root_page_id AND NOT ROOT_IS_LEAF_MASK
      in ((if root_is_leaf then from_id clean else from_pointer clean), root_is_leaf))"

text \<open>The root word as a checkpoint loader writes it (src/src/snapshot.rs).\<close>

definition raw_root_id :: "page_id \<Rightarrow> u64" where
  "raw_root_id p = (if is_id p then page_raw p OR ROOT_IS_LEAF_MASK else page_raw p)"

lemma ID_MASK_pow: "ID_MASK = 2 ^ 62"
  by (simp add: ID_MASK_def)

lemma ROOT_MASK_pow: "ROOT_IS_LEAF_MASK = 2 ^ 63"
  by (simp add: ROOT_IS_LEAF_MASK_def)

lemma page_bits:
  "bit ID_MASK k = (k = 62)" "bit ROOT_IS_LEAF_MASK k = (k = 63)"
  "(w AND ID_MASK = 0) = (\<not> bit w 62)" "(w AND ROOT_IS_LEAF_MASK = 0) = (\<not> bit w 63)"
  unfolding ID_MASK_pow ROOT_MASK_pow by (simp_all only: bit_exp_iff and_exp_eq_0_iff_not_bit) auto

lemma no_high_bit:
  assumes "unat (i :: u64) < 2 ^ n" "n \<le> k"
  shows "\<not> bit i k"
proof
  assume b: "bit i k"
  then have "bit (unat i) k" using bit_imp_le_length [of i k] by (simp add: bit_unsigned_iff)
  moreover have "unat i = take_bit n (unat i)" using assms by (simp add: take_bit_nat_eq_self)
  ultimately show False using assms(2) by (metis bit_take_bit_iff leD)
qed

lemma from_id_as_id:
  assumes "unat i < 2 ^ 62"
  shows "is_id (from_id i)" "as_id (from_id i) = Some i" "\<not> is_inner_node_pointer (from_id i)"
proof -
  show "is_id (from_id i)" "\<not> is_inner_node_pointer (from_id i)"
    by (simp_all add: from_id_def is_id_def is_inner_node_pointer_def page_bits bit_simps ID_MASK_def)
  then show "as_id (from_id i) = Some i"
    using no_high_bit [OF assms, of 62]
    by (auto simp: as_id_def from_id_def page_bits bit_simps intro!: bit_word_eqI)
qed

section \<open>Properties\<close>

text \<open>
  The root word loses nothing. A page identifier whose bit 63 is clear, packed into the root
  word and read back by \<^verbatim>\<open>get_root_page\<close>, is the same identifier, with the leaf flag set
  exactly when it is the number of a leaf page.
\<close>

theorem root_page_roundtrip:
  assumes "\<not> bit (page_value p) 63"
  shows "get_root_page (raw_root_id p) = (p, is_id p)"
proof (cases "is_id p")
  case True
  then have "from_id (page_raw p) = p"
    by (cases p) (auto simp: from_id_def page_raw_def is_id_def page_bits bit_simps intro!: bit_word_eqI)
  moreover have "(page_raw p OR ROOT_IS_LEAF_MASK) AND NOT ROOT_IS_LEAF_MASK = page_raw p"
    using assms by (auto simp: page_raw_def page_bits bit_simps intro!: bit_word_eqI)
  ultimately show ?thesis
    using True by (simp add: get_root_page_def raw_root_id_def ROOT_IS_LEAF_MASK_def)
next
  case False
  have "page_raw p AND NOT ROOT_IS_LEAF_MASK = page_raw p"
    using assms by (auto simp: page_raw_def page_bits bit_simps intro!: bit_word_eqI)
  then show ?thesis
    using False assms
    by (simp add: get_root_page_def raw_root_id_def page_bits from_pointer_def page_raw_def)
qed

theorem root_page_roundtrip_witness:
  "\<not> bit (page_value (from_id 5)) 63 \<and> get_root_page (raw_root_id (from_id 5)) = (from_id 5, True)"
  using root_page_roundtrip [of "from_id 5"] from_id_as_id(1) [of 5]
  by (simp add: from_id_def ID_MASK_def bit_iff_odd_drop_bit)

end
