(* ===== verification/Assoc.thy ===== *)
theory Assoc
  imports Prelude
begin

text \<open>
  Abstract contents of a page: association lists with strictly ascending keys. A page lookup is
  \<open>map_of\<close>, a page insertion is \<open>upsert\<close>; the lemmas here connect the two to positions in
  the list, which is what a slot array gives.
\<close>

definition ins_at :: "nat \<Rightarrow> 'a \<Rightarrow> 'a list \<Rightarrow> 'a list" where
  "ins_at pos x xs = take pos xs @ x # drop pos xs"

abbreviation ascending :: "'a::linorder list \<Rightarrow> bool" where
  "ascending \<equiv> sorted_wrt (<)"

fun upsert :: "'k::linorder \<Rightarrow> 'v \<Rightarrow> ('k \<times> 'v) list \<Rightarrow> ('k \<times> 'v) list" where
  "upsert k v [] = [(k, v)]"
| "upsert k v ((k', v') # ps) =
     (if k < k' then (k, v) # (k', v') # ps
      else if k = k' then (k, v) # ps
      else (k', v') # upsert k v ps)"

lemma length_ins_at [simp]: "length (ins_at pos x xs) = Suc (length xs)"
  by (simp add: ins_at_def)

lemma map_ins_at: "map f (ins_at pos x xs) = ins_at pos (f x) (map f xs)"
  by (simp add: ins_at_def take_map drop_map)

lemma set_ins_at [simp]: "set (ins_at pos x xs) = insert x (set xs)"
  by (metis Un_insert_right append_take_drop_id ins_at_def list.simps(15) set_append)

lemma sum_list_ins_at: "sum_list (ins_at pos x xs) = x + (sum_list xs :: nat)"
  by (simp add: ins_at_def) (metis add.left_commute append_take_drop_id sum_list_append)

lemma nth_ins_at:
  "pos \<le> length xs \<Longrightarrow> i \<le> length xs \<Longrightarrow>
   ins_at pos x xs ! i = (if i < pos then xs ! i else if i = pos then x else xs ! (i - 1))"
  by (auto simp: ins_at_def nth_append min_def nth_Cons' nth_via_drop)

text \<open>Reading a slot array after a slot was inserted.\<close>

lemma map_upt_ins_at:
  assumes "pos \<le> c"
    and "\<And>i. i < pos \<Longrightarrow> g i = f i" "g pos = x" "\<And>i. pos < i \<Longrightarrow> i \<le> c \<Longrightarrow> g i = f (i - 1)"
  shows "map g [0..<Suc c] = ins_at pos x (map f [0..<c])"
  by (rule nth_equalityI) (use assms in \<open>auto simp: nth_ins_at simp del: upt_Suc\<close>)

lemma upsert_ins_at:
  assumes "pos \<le> length ps"
    and "\<And>i. i < pos \<Longrightarrow> fst (ps ! i) < k" "\<And>i. pos \<le> i \<Longrightarrow> i < length ps \<Longrightarrow> k < fst (ps ! i)"
  shows "upsert k v ps = ins_at pos (k, v) ps"
  using assms
proof (induction ps arbitrary: pos)
  case (Cons p ps)
  obtain k' v' where p: "p = (k', v')" by force
  show ?case
  proof (cases pos)
    case 0
    then show ?thesis using Cons.prems(3) [of 0] by (simp add: p ins_at_def)
  next
    case (Suc n)
    have "k' < k" using Cons.prems(2) [of 0] Suc by (simp add: p)
    moreover have "upsert k v ps = ins_at n (k, v) ps"
    proof (rule Cons.IH)
      show "n \<le> length ps" using Cons.prems(1) Suc by simp
      show "fst (ps ! i) < k" if "i < n" for i using Cons.prems(2) [of "Suc i"] Suc that by simp
      show "k < fst (ps ! i)" if "n \<le> i" "i < length ps" for i
        using Cons.prems(3) [of "Suc i"] Suc that by simp
    qed
    ultimately show ?thesis using Suc by (auto simp: p ins_at_def)
  qed
qed (simp add: ins_at_def)

lemma upsert_update:
  assumes "ascending (map fst ps)" "pos < length ps" "fst (ps ! pos) = k"
  shows "upsert k v ps = ps[pos := (k, v)]"
  using assms
proof (induction ps arbitrary: pos)
  case (Cons p ps)
  obtain k' v' where p: "p = (k', v')" by force
  show ?case
  proof (cases pos)
    case 0
    then show ?thesis using Cons.prems by (simp add: p)
  next
    case (Suc n)
    have "fst (ps ! n) \<in> set (map fst ps)" using Cons.prems(2) Suc by simp
    then have "k' < k" using Cons.prems Suc by (auto simp: p)
    moreover have "upsert k v ps = ps[n := (k, v)]"
      using Cons.prems Suc by (intro Cons.IH) (simp_all add: p)
    ultimately show ?thesis using Suc by (auto simp: p)
  qed
qed simp

lemma map_of_upsert: "map_of (upsert k v ps) = (map_of ps)(k \<mapsto> v)"
  by (induction k v ps rule: upsert.induct) (auto simp: fun_eq_iff)

lemma fst_set_upsert [simp]: "fst ` set (upsert k v ps) = insert k (fst ` set ps)"
  by (induction k v ps rule: upsert.induct) auto

lemma ascending_upsert: "ascending (map fst ps) \<Longrightarrow> ascending (map fst (upsert k v ps))"
proof (induction k v ps rule: upsert.induct)
  case (2 k v k' v' ps)
  have "\<forall>x\<in>fst ` set (upsert k v ps). k' < x" if "k' < k"
    using 2 that by auto
  then show ?case using 2 by auto
qed simp

lemma upsert_append_last:
  "\<forall>x\<in>fst ` set ps. x < k \<Longrightarrow> upsert k v ps = ps @ [(k, v)]"
  by (induction ps) auto

lemma upsert_all_ascending:
  assumes "ascending (map fst (ps @ qs))"
  shows "fold (\<lambda>(k, v). upsert k v) qs ps = ps @ qs"
  using assms
proof (induction qs arbitrary: ps)
  case (Cons q qs)
  obtain k v where q: "q = (k, v)" by force
  have "upsert k v ps = ps @ [(k, v)]"
    using Cons.prems by (intro upsert_append_last) (auto simp: q sorted_wrt_append)
  with Cons show ?case by (simp add: q)
qed simp

lemma filter_take:
  assumes "i \<le> length xs" "\<And>j. j < i \<Longrightarrow> P (xs ! j)" "\<And>j. i \<le> j \<Longrightarrow> j < length xs \<Longrightarrow> \<not> P (xs ! j)"
  shows "filter P xs = take i xs"
  using assms
proof (induction xs arbitrary: i)
  case (Cons x xs)
  show ?case
  proof (cases i)
    case 0
    have "filter P xs = take 0 xs"
      using Cons.prems(3) [of "Suc _"] 0 by (intro Cons.IH) auto
    then show ?thesis using 0 Cons.prems(3) [of 0] by simp
  next
    case (Suc k)
    have "filter P xs = take k xs"
      using Cons.prems(1) Cons.prems(2,3) [of "Suc _"] Suc by (intro Cons.IH) auto
    then show ?thesis using Suc Cons.prems(2) [of 0] by simp
  qed
qed simp

section \<open>Routing\<close>

text \<open>
  The child an inner node sends a key to: the one of the last separator not above the key, or
  the leftmost child.
\<close>

fun route :: "'v \<Rightarrow> ('k::linorder \<times> 'v) list \<Rightarrow> 'k \<Rightarrow> 'v" where
  "route l [] k = l"
| "route l ((k', v) # ps) k = (if k' \<le> k then route v ps k else l)"

lemma route_nth:
  assumes "p \<le> length ps" "\<And>i. i < p \<Longrightarrow> fst (ps ! i) \<le> k" "p < length ps \<Longrightarrow> k < fst (ps ! p)"
  shows "route l ps k = (if p = 0 then l else snd (ps ! (p - 1)))"
  using assms
proof (induction l ps k arbitrary: p rule: route.induct)
  case (2 l k' v ps k)
  show ?case
  proof (cases p)
    case 0
    then show ?thesis using 2(4) by auto
  next
    case (Suc q)
    have "k' \<le> k" using 2(3) [of 0] Suc by simp
    moreover have "route v ps k = (if q = 0 then v else snd (ps ! (q - 1)))"
    proof (rule 2(1))
      show "fst (ps ! i) \<le> k" if "i < q" for i using 2(3) [of "Suc i"] Suc that by simp
    qed (use 2(2,4) Suc \<open>k' \<le> k\<close> in auto)
    ultimately show ?thesis using Suc by (cases q) auto
  qed
qed simp

lemma route_append:
  assumes "ascending (map fst (ps @ (sk, v) # qs))"
  shows "route l (ps @ (sk, v) # qs) k = (if k < sk then route l ps k else route v qs k)"
  using assms
proof (induction l ps k rule: route.induct)
  case (2 l k' v' ps k)
  then show ?case by (auto dest: order.strict_trans2)
qed (auto simp: not_less)

section \<open>Disjoint regions of a page body\<close>

text \<open>
  The record bytes of a page: regions \<open>(offset, length)\<close> between the lowest used offset and
  the end of the body, no two of them overlapping.
\<close>

definition apart :: "nat \<times> nat \<Rightarrow> nat \<times> nat \<Rightarrow> bool" where
  "apart r s \<longleftrightarrow> fst r + snd r \<le> fst s \<or> fst s + snd s \<le> fst r"

definition regions_ok :: "nat \<Rightarrow> nat \<Rightarrow> (nat \<times> nat) list \<Rightarrow> bool" where
  "regions_ok lo hi rs \<longleftrightarrow> (\<forall>r\<in>set rs. lo \<le> fst r \<and> fst r + snd r \<le> hi) \<and> sorted_wrt apart rs"

lemma apart_sym: "apart r s \<Longrightarrow> apart s r"
  by (auto simp: apart_def)

lemma regions_ok_nth:
  assumes "regions_ok lo hi rs" "i < length rs"
  shows "lo \<le> fst (rs ! i)" "fst (rs ! i) + snd (rs ! i) \<le> hi"
  using assms by (auto simp: regions_ok_def)

lemma regions_ok_apart:
  assumes "regions_ok lo hi rs" "i < length rs" "j < length rs" "i \<noteq> j"
  shows "apart (rs ! i) (rs ! j)"
proof (cases "i < j")
  case True
  then show ?thesis using assms by (auto simp: regions_ok_def sorted_wrt_iff_nth_less)
next
  case False
  then have "j < i" using assms by simp
  then show ?thesis using assms by (auto simp: regions_ok_def sorted_wrt_iff_nth_less intro: apart_sym)
qed

lemma regions_ok_iff:
  "regions_ok lo hi rs \<longleftrightarrow> (\<forall>i<length rs. lo \<le> fst (rs ! i) \<and> fst (rs ! i) + snd (rs ! i) \<le> hi) \<and>
     (\<forall>i<length rs. \<forall>j<length rs. i \<noteq> j \<longrightarrow> apart (rs ! i) (rs ! j))"
  (is "_ \<longleftrightarrow> ?b \<and> ?a")
proof
  assume "regions_ok lo hi rs"
  then show "?b \<and> ?a" using regions_ok_nth regions_ok_apart by blast
next
  assume *: "?b \<and> ?a"
  then have "sorted_wrt apart rs" by (auto simp: sorted_wrt_iff_nth_less)
  with * show "regions_ok lo hi rs"
    unfolding regions_ok_def by (metis in_set_conv_nth)
qed

text \<open>A region carved just below the lowest used offset.\<close>

lemma regions_ok_ins_at:
  assumes "regions_ok lo hi rs" "len \<le> lo" "lo \<le> hi" "pos \<le> length rs"
  shows "regions_ok (lo - len) hi (ins_at pos (lo - len, len) rs)"
proof -
  have "\<forall>r\<in>set rs. apart (lo - len, len) r"
    using assms by (auto simp: regions_ok_def apart_def)
  moreover have "set (take pos rs) \<subseteq> set rs" "set (drop pos rs) \<subseteq> set rs"
    by (auto dest: in_set_takeD in_set_dropD)
  ultimately have "\<forall>r\<in>set (take pos rs). apart r (lo - len, len)"
    "\<forall>r\<in>set (drop pos rs). apart (lo - len, len) r"
    by (blast intro: apart_sym)+
  moreover have "sorted_wrt apart (take pos rs @ drop pos rs)"
    using assms(1) by (simp add: regions_ok_def)
  ultimately have "sorted_wrt apart (ins_at pos (lo - len, len) rs)"
    unfolding ins_at_def by (auto simp: sorted_wrt_append simp del: append_take_drop_id)
  then show ?thesis using assms by (auto simp: regions_ok_def)
qed

text \<open>A region that shrinks, and a region that moves below the lowest used offset.\<close>

lemma regions_ok_shrink:
  assumes "regions_ok lo hi rs" "i < length rs" "rs ! i = (off, len)" "len' \<le> len"
  shows "regions_ok lo hi (rs[i := (off, len')])"
  using assms regions_ok_nth [OF assms(1,2)]
  by (force simp: regions_ok_iff nth_list_update apart_def)

lemma regions_ok_move:
  assumes "regions_ok lo hi rs" "len \<le> lo" "lo \<le> hi" "i < length rs"
  shows "regions_ok (lo - len) hi (rs[i := (lo - len, len)])"
  using assms by (fastforce simp: regions_ok_iff nth_list_update apart_def)

end
