(* ===== verification/Slotted_Page.thy ===== *)
theory Slotted_Page
  imports Assoc
begin

text \<open>
  The memory of a page body: an array of 8-byte slots growing from the front of \<^verbatim>\<open>data\<close>, and
  record bytes growing down from its end. Inner nodes and leaf nodes share this layout and the
  three primitive accesses the unsafe code makes: read a slot, write a slot, and move the slots
  from a position on one place to the right (\<^verbatim>\<open>ptr::copy\<close>).
\<close>

definition slot_bytes :: "bytes \<Rightarrow> nat \<Rightarrow> bytes" where
  "slot_bytes d i = read_at (8 * i) 8 d"

definition put_slot :: "nat \<Rightarrow> bytes \<Rightarrow> bytes \<Rightarrow> bytes" where
  "put_slot i bs d = write_at (8 * i) bs d"

definition shift_slots :: "nat \<Rightarrow> nat \<Rightarrow> bytes \<Rightarrow> bytes" where
  "shift_slots pos c d = write_at (8 * (pos + 1)) (read_at (8 * pos) (8 * (c - pos)) d) d"

lemma length_put_slot [simp]:
  "length bs = 8 \<Longrightarrow> 8 * (i + 1) \<le> length d \<Longrightarrow> length (put_slot i bs d) = length d"
  by (simp add: put_slot_def)

lemma length_shift_slots [simp]:
  "pos \<le> c \<Longrightarrow> 8 * (c + 1) \<le> length d \<Longrightarrow> length (shift_slots pos c d) = length d"
  by (simp add: shift_slots_def)

lemma slot_put_slot:
  assumes "length bs = 8" "8 * (i + 1) \<le> length d" "8 * (j + 1) \<le> length d"
  shows "slot_bytes (put_slot i bs d) j = (if i = j then bs else slot_bytes d j)"
proof (cases "i = j")
  case True
  then show ?thesis using assms by (simp add: slot_bytes_def put_slot_def slices)
next
  case False
  then have "8 * j + 8 \<le> 8 * i \<or> 8 * i + 8 \<le> 8 * j" by arith
  then show ?thesis using assms False
    by (simp add: slot_bytes_def put_slot_def read_write_disjoint)
qed

lemma slot_shift_slots:
  assumes "pos \<le> c" "8 * (c + 1) \<le> length d" "i \<le> c"
  shows "i < pos \<Longrightarrow> slot_bytes (shift_slots pos c d) i = slot_bytes d i"
    and "pos < i \<Longrightarrow> slot_bytes (shift_slots pos c d) i = slot_bytes d (i - 1)"
proof -
  show "slot_bytes (shift_slots pos c d) i = slot_bytes d i" if "i < pos"
    using assms that by (simp add: slot_bytes_def shift_slots_def read_write_disjoint)
  show "slot_bytes (shift_slots pos c d) i = slot_bytes d (i - 1)" if "pos < i"
  proof -
    have "slot_bytes (shift_slots pos c d) i =
        read_at (8 * i - 8 * (pos + 1)) 8 (read_at (8 * pos) (8 * (c - pos)) d)"
      unfolding slot_bytes_def shift_slots_def
      by (rule read_write_within) (use assms that in auto)
    also have "\<dots> = read_at (8 * pos + (8 * i - 8 * (pos + 1))) 8 d"
      by (rule read_at_read_at) (use assms that in auto)
    also have "8 * pos + (8 * i - 8 * (pos + 1)) = 8 * (i - 1)"
      using that by auto
    finally show ?thesis by (simp add: slot_bytes_def)
  qed
qed

lemma slot_insert:
  assumes "length bs = 8" "pos \<le> c" "8 * (c + 1) \<le> length d" "i \<le> c"
  shows "slot_bytes (put_slot pos bs (shift_slots pos c d)) i =
    (if i < pos then slot_bytes d i else if i = pos then bs else slot_bytes d (i - 1))"
  using assms slot_shift_slots [of pos c d i] by (auto simp: slot_put_slot)

lemma slot_write_record:
  "8 * (i + 1) \<le> off \<Longrightarrow> off + length bs \<le> length d \<Longrightarrow>
   slot_bytes (write_at off bs d) i = slot_bytes d i"
  by (simp add: slot_bytes_def read_write_disjoint)

lemma put_slot_write_record:
  "length bs = 8 \<Longrightarrow> 8 * (i + 1) \<le> off \<Longrightarrow> off + length rec \<le> length d \<Longrightarrow>
   write_at off rec (put_slot i bs d) = put_slot i bs (write_at off rec d)"
  unfolding put_slot_def by (rule nth_equalityI) (auto simp: nth_write_at)

lemma read_put_slot:
  "length bs = 8 \<Longrightarrow> 8 * (i + 1) \<le> off \<Longrightarrow> off + len \<le> length d \<Longrightarrow>
   read_at off len (put_slot i bs d) = read_at off len d"
  by (simp add: put_slot_def read_write_disjoint)

lemma read_shift_slots:
  "pos \<le> c \<Longrightarrow> 8 * (c + 1) \<le> off \<Longrightarrow> off + len \<le> length d \<Longrightarrow>
   read_at off len (shift_slots pos c d) = read_at off len d"
  unfolding shift_slots_def by (rule read_write_disjoint) auto

text \<open>
  The slot array as a list. Writing a record \<open>rec\<close> into the free space and a slot for it at
  \<open>pos\<close> inserts the slot into the list, and no byte of a region above the free space changes.
\<close>

definition slot_metas :: "(bytes \<Rightarrow> 'm) \<Rightarrow> nat \<Rightarrow> bytes \<Rightarrow> 'm list" where
  "slot_metas dec c d = map (\<lambda>i. dec (slot_bytes d i)) [0..<c]"

definition add_entry :: "nat \<Rightarrow> nat \<Rightarrow> bytes \<Rightarrow> nat \<Rightarrow> bytes \<Rightarrow> bytes \<Rightarrow> bytes" where
  "add_entry pos c bs off rec d = write_at off rec (put_slot pos bs (shift_slots pos c d))"

lemma length_slot_metas [simp]: "length (slot_metas dec c d) = c"
  by (simp add: slot_metas_def)

lemma nth_slot_metas [simp]: "i < c \<Longrightarrow> slot_metas dec c d ! i = dec (slot_bytes d i)"
  by (simp add: slot_metas_def)

text \<open>
  What a node needs of its slot type: an encoding to exactly eight bytes that decodes back.
\<close>

locale slot_codec =
  fixes enc :: "'m \<Rightarrow> bytes" and dec :: "bytes \<Rightarrow> 'm"
  assumes length_enc: "length (enc m) = 8"
    and dec_enc: "dec (enc m) = m"
begin

lemma slot_put:
  "8 * (i + 1) \<le> length d \<Longrightarrow> 8 * (j + 1) \<le> length d \<Longrightarrow>
   dec (slot_bytes (put_slot i (enc m) d) j) = (if i = j then m else dec (slot_bytes d j))"
  by (simp add: slot_put_slot length_enc dec_enc)

lemma slot_ins:
  "pos \<le> c \<Longrightarrow> 8 * (c + 1) \<le> length d \<Longrightarrow> i \<le> c \<Longrightarrow>
   dec (slot_bytes (put_slot pos (enc m) (shift_slots pos c d)) i) =
    (if i < pos then dec (slot_bytes d i) else if i = pos then m else dec (slot_bytes d (i - 1)))"
  by (simp add: slot_insert length_enc dec_enc)

lemma read_put:
  "8 * (i + 1) \<le> off \<Longrightarrow> off + len \<le> length d \<Longrightarrow>
   read_at off len (put_slot i (enc m) d) = read_at off len d"
  by (simp add: read_put_slot length_enc)

lemma length_put:
  "8 * (i + 1) \<le> length d \<Longrightarrow> length (put_slot i (enc m) d) = length d"
  by (simp add: length_enc)

lemma read_ins:
  "pos \<le> c \<Longrightarrow> 8 * (c + 1) \<le> off \<Longrightarrow> off + len \<le> length d \<Longrightarrow>
   read_at off len (put_slot pos (enc m) (shift_slots pos c d)) = read_at off len d"
  by (simp add: read_put read_shift_slots)

lemma length_ins:
  "pos \<le> c \<Longrightarrow> 8 * (c + 1) \<le> length d \<Longrightarrow>
   length (put_slot pos (enc m) (shift_slots pos c d)) = length d"
  by (simp add: length_enc)

lemma length_add_entry:
  "pos \<le> c \<Longrightarrow> 8 * (c + 1) \<le> off \<Longrightarrow> off + length rec \<le> length d \<Longrightarrow>
   length (add_entry pos c (enc m) off rec d) = length d"
  by (simp add: add_entry_def length_ins)

lemma metas_add_entry:
  assumes "pos \<le> c" "8 * (c + 1) \<le> off" "off + length rec \<le> length d"
  shows "slot_metas dec (Suc c) (add_entry pos c (enc m) off rec d) = ins_at pos m (slot_metas dec c d)"
proof -
  have "dec (slot_bytes (add_entry pos c (enc m) off rec d) i) =
      (if i < pos then dec (slot_bytes d i) else if i = pos then m else dec (slot_bytes d (i - 1)))"
    if "i \<le> c" for i
    using assms that by (simp add: add_entry_def slot_write_record length_ins slot_ins)
  then show ?thesis
    unfolding slot_metas_def using assms(1) by (intro map_upt_ins_at) auto
qed

lemma read_add_entry:
  assumes "pos \<le> c" "8 * (c + 1) \<le> off" "off + length rec \<le> a" "a + len \<le> length d"
  shows "read_at a len (add_entry pos c (enc m) off rec d) = read_at a len d"
  using assms by (simp add: add_entry_def read_write_disjoint length_ins read_ins)

lemma read_added_entry:
  assumes "pos \<le> c" "8 * (c + 1) \<le> off" "off + length rec \<le> length d"
  shows "read_at off (length rec) (add_entry pos c (enc m) off rec d) = rec"
  using assms by (simp add: add_entry_def read_write_same length_ins)

lemma metas_write_record:
  "8 * c \<le> off \<Longrightarrow> off + length rec \<le> length d \<Longrightarrow> slot_metas dec c (write_at off rec d) = slot_metas dec c d"
  by (simp add: slot_metas_def slot_write_record)

lemma metas_put_slot:
  assumes "i < c" "8 * c \<le> length d"
  shows "slot_metas dec c (put_slot i (enc m) d) = (slot_metas dec c d)[i := m]"
  by (rule nth_equalityI) (use assms in \<open>auto simp: slot_put nth_list_update\<close>)

end

end
