(* ===== verification/Inner_Node.thy ===== *)
theory Inner_Node
  imports Node_Meta Page_Id Slotted_Page Assoc
begin

text \<open>
  Inner nodes (src/src/nodes/inner_node.rs), down to the bytes of the page body. Slot 0 holds
  the leftmost child under a dummy empty key; slot \<open>i > 0\<close> holds a separator key, its first four
  bytes in the slot and the rest, followed by the child's 8-byte page identifier, in the record.
\<close>

section \<open>Slots\<close>

record inner_kv_meta =
  ik_offset :: u16
  ik_key_len :: u16
  key_prefix :: "u8 \<times> u8 \<times> u8 \<times> u8"

definition KEY_LOOK_AHEAD_SIZE :: nat where "KEY_LOOK_AHEAD_SIZE = 4"

fun prefix_array :: "bytes \<Rightarrow> u8 \<times> u8 \<times> u8 \<times> u8" where
  "prefix_array (a # b # c # d # _) = (a, b, c, d)"
| "prefix_array [a, b, c] = (a, b, c, 0)"
| "prefix_array [a, b] = (a, b, 0, 0)"
| "prefix_array [a] = (a, 0, 0, 0)"
| "prefix_array [] = (0, 0, 0, 0)"

fun array_prefix :: "u8 \<times> u8 \<times> u8 \<times> u8 \<Rightarrow> bytes" where
  "array_prefix (a, b, c, d) = [a, b, c, d]"

definition inner_make_prefixed_meta :: "bytes \<Rightarrow> u16 \<Rightarrow> inner_kv_meta" where
  "inner_make_prefixed_meta key offset =
     \<lparr>ik_offset = offset, ik_key_len = of_nat (length key), key_prefix = prefix_array key\<rparr>"

text \<open>\<^verbatim>\<open>repr(C)\<close> layout of \<^verbatim>\<open>InnerKVMeta\<close>: two \<^verbatim>\<open>u16\<close> and four bytes.\<close>

definition inner_meta_enc :: "inner_kv_meta \<Rightarrow> bytes" where
  "inner_meta_enc m =
     u16_to_le_bytes (ik_offset m) @ u16_to_le_bytes (ik_key_len m) @ array_prefix (key_prefix m)"

definition inner_meta_dec :: "bytes \<Rightarrow> inner_kv_meta" where
  "inner_meta_dec bs =
     \<lparr>ik_offset = u16_from_le_bytes (take 2 bs), ik_key_len = u16_from_le_bytes (read_at 2 2 bs),
      key_prefix = prefix_array (drop 4 bs)\<rparr>"

lemma length_array_prefix [simp]: "length (array_prefix p) = 4"
  by (cases p) auto

interpretation inner_slot: slot_codec inner_meta_enc inner_meta_dec
proof
  show "length (inner_meta_enc m) = 8" for m
    by (simp add: inner_meta_enc_def)
  show "inner_meta_dec (inner_meta_enc m) = m" for m
    by (cases "key_prefix m") (simp add: inner_meta_dec_def inner_meta_enc_def read_at_def)
qed

section \<open>The node\<close>

record inner_node =
  in_meta :: node_meta
  version_lock :: u64
  disk_offset :: u64
  in_snapshot_version :: u64
  in_data :: bytes

definition INVALID_DISK_OFFSET :: u64 where "INVALID_DISK_OFFSET = -1"
definition INNER_NODE_ROOT_FLAG :: u64 where "INNER_NODE_ROOT_FLAG = 0x8000000000000000"
definition INNER_NODE_SNAPSHOT_VERSION_MASK :: u64 where
  "INNER_NODE_SNAPSHOT_VERSION_MASK = 0x7FFFFFFFFFFFFFFF"

definition inner_max_data_size :: nat where
  "inner_max_data_size = INNER_NODE_SIZE - 32"

definition inner_get_kv_meta :: "inner_node \<Rightarrow> nat \<Rightarrow> inner_kv_meta" where
  "inner_get_kv_meta n index = inner_meta_dec (slot_bytes (in_data n) index)"

definition inner_current_lowest_offset :: "inner_node \<Rightarrow> u16" where
  "inner_current_lowest_offset n = meta_count_with_fence (in_meta n) * 8 + remaining_size (in_meta n)"

definition inner_set_disk_offset :: "inner_node \<Rightarrow> u64 \<Rightarrow> inner_node" where
  "inner_set_disk_offset n offset = n\<lparr>disk_offset := offset\<rparr>"

definition inner_get_clean_snapshot_version :: "inner_node \<Rightarrow> u64" where
  "inner_get_clean_snapshot_version n = in_snapshot_version n AND INNER_NODE_SNAPSHOT_VERSION_MASK"

text \<open>\<open>None\<close>: the version given has the root flag set.\<close>

definition inner_set_snapshot_version :: "inner_node \<Rightarrow> u64 \<Rightarrow> inner_node option" where
  "inner_set_snapshot_version n v =
     (if v AND INNER_NODE_ROOT_FLAG \<noteq> 0 then None
      else
        let root_flag = in_snapshot_version n AND INNER_NODE_ROOT_FLAG in
        Some (n\<lparr>in_snapshot_version := (v AND INNER_NODE_SNAPSHOT_VERSION_MASK) OR root_flag\<rparr>))"

definition is_root :: "inner_node \<Rightarrow> bool" where
  "is_root n = (in_snapshot_version n AND INNER_NODE_ROOT_FLAG \<noteq> 0)"

definition set_root :: "inner_node \<Rightarrow> bool \<Rightarrow> inner_node" where
  "set_root n flag =
     (if flag then n\<lparr>in_snapshot_version := in_snapshot_version n OR INNER_NODE_ROOT_FLAG\<rparr>
      else n\<lparr>in_snapshot_version := in_snapshot_version n AND INNER_NODE_SNAPSHOT_VERSION_MASK\<rparr>)"

text \<open>The length of the part of a key that is not in the slot (\<^verbatim>\<open>saturating_sub\<close>).\<close>

definition inner_post_len :: "inner_kv_meta \<Rightarrow> nat" where
  "inner_post_len m = unat (ik_key_len m) - KEY_LOOK_AHEAD_SIZE"

definition inner_get_post_key_ref :: "inner_node \<Rightarrow> inner_kv_meta \<Rightarrow> bytes" where
  "inner_get_post_key_ref n m = read_at (unat (ik_offset m)) (inner_post_len m) (in_data n)"

definition inner_prefix_span :: "inner_kv_meta \<Rightarrow> bytes" where
  "inner_prefix_span m =
     take (min KEY_LOOK_AHEAD_SIZE (unat (ik_key_len m))) (array_prefix (key_prefix m))"

definition inner_get_full_key :: "inner_node \<Rightarrow> inner_kv_meta \<Rightarrow> bytes" where
  "inner_get_full_key n m = inner_prefix_span m @ inner_get_post_key_ref n m"

definition inner_get_value :: "inner_node \<Rightarrow> inner_kv_meta \<Rightarrow> page_id" where
  "inner_get_value n m =
     PageID (u64_from_le_bytes (read_at (unat (ik_offset m) + inner_post_len m) 8 (in_data n)))"

definition inner_key_compare :: "inner_node \<Rightarrow> bytes \<Rightarrow> inner_kv_meta \<Rightarrow> ordering" where
  "inner_key_compare n key m =
     (let cmp = bytes_cmp (inner_prefix_span m) (take KEY_LOOK_AHEAD_SIZE key) in
      if cmp \<noteq> Equal then cmp
      else bytes_cmp (inner_get_post_key_ref n m) (drop KEY_LOOK_AHEAD_SIZE key))"

text \<open>The comparison inside the search loop skips the tails when both are empty.\<close>

definition inner_search_compare :: "inner_node \<Rightarrow> bytes \<Rightarrow> inner_kv_meta \<Rightarrow> ordering" where
  "inner_search_compare n key m =
     (let cmp = bytes_cmp (inner_prefix_span m) (take KEY_LOOK_AHEAD_SIZE key) in
      if cmp = Equal \<and> (KEY_LOOK_AHEAD_SIZE < unat (ik_key_len m) \<or> drop KEY_LOOK_AHEAD_SIZE key \<noteq> [])
      then bytes_cmp (inner_get_post_key_ref n m) (drop KEY_LOOK_AHEAD_SIZE key)
      else cmp)"

definition inner_lower_bound :: "inner_node \<Rightarrow> bytes \<Rightarrow> nat" where
  "inner_lower_bound n key =
     (case bsearch (\<lambda>mid. inner_search_compare n key (inner_get_kv_meta n mid)) 1
        (slot_count (in_meta n)) of
        Inl mid \<Rightarrow> mid
      | Inr lower \<Rightarrow> lower - 1)"

definition inner_required_len :: "bytes \<Rightarrow> nat" where
  "inner_required_len key = (max (length key) KEY_LOOK_AHEAD_SIZE - KEY_LOOK_AHEAD_SIZE) + 8 + 8"

definition have_space_for :: "inner_node \<Rightarrow> bytes \<Rightarrow> bool" where
  "have_space_for n key = (remaining_size (in_meta n) \<ge> of_nat (inner_required_len key))"

definition inner_write_value :: "inner_node \<Rightarrow> nat \<Rightarrow> page_id \<Rightarrow> inner_node" where
  "inner_write_value n addr v =
     n\<lparr>in_data := write_at addr (u64_to_le_bytes (page_raw v)) (in_data n)\<rparr>"

text \<open>\<^verbatim>\<open>InnerNode::insert\<close>: the node afterwards and whether the key went in.\<close>

definition inner_insert :: "inner_node \<Rightarrow> bytes \<Rightarrow> page_id \<Rightarrow> inner_node \<times> bool" where
  "inner_insert n key child =
     (let post_key_len = max (length key) KEY_LOOK_AHEAD_SIZE - KEY_LOOK_AHEAD_SIZE;
          kv_len = post_key_len + 8;
          required_len = kv_len + 8;
          value_count = slot_count (in_meta n);
          offset = inner_current_lowest_offset n - of_nat kv_len;
          new_meta = inner_make_prefixed_meta key offset;
          pos = inner_lower_bound n key;
          kv_meta = inner_get_kv_meta n pos
      in
      if remaining_size (in_meta n) < of_nat required_len then (n, False)
      else if 0 < pos \<and> pos < value_count \<and> inner_key_compare n key kv_meta = Equal then
        (inner_write_value n (unat (ik_offset kv_meta) + post_key_len) child, True)
      else
        let pos' = pos + 1;
            d1 = shift_slots pos' value_count (in_data n);
            d2 = put_slot pos' (inner_meta_enc new_meta) d1;
            d3 = write_at (unat offset) (take post_key_len (drop KEY_LOOK_AHEAD_SIZE key)) d2;
            d4 = write_at (unat offset + post_key_len) (u64_to_le_bytes (page_raw child)) d3;
            m1 = (in_meta n)\<lparr>remaining_size := remaining_size (in_meta n) - of_nat required_len\<rparr>
        in (n\<lparr>in_meta := increment_value_count m1, in_data := d4\<rparr>, True))"

text \<open>\<^verbatim>\<open>InnerNode::reinitialize\<close>: a fresh header and the leftmost child in slot 0.\<close>

definition inner_reinitialize :: "inner_node \<Rightarrow> page_id \<Rightarrow> bool \<Rightarrow> u64 \<Rightarrow> inner_node option" where
  "inner_reinitialize n left_most is_leaf doff =
     do {
       m \<leftarrow> node_meta_new (of_nat inner_max_data_size) is_leaf False (of_nat INNER_NODE_SIZE) False;
       let n1 = n\<lparr>in_meta := m, disk_offset := doff\<rparr>;
       let offset = inner_current_lowest_offset n1 - 8;
       let new_meta = \<lparr>ik_offset = offset, ik_key_len = 0, key_prefix = (0, 0, 0, 0)\<rparr>;
       let d1 = put_slot 0 (inner_meta_enc new_meta) (in_data n1);
       let d2 = write_at (unat offset) (u64_to_le_bytes (page_raw left_most)) d1;
       let m1 = m\<lparr>remaining_size := remaining_size m - 16\<rparr>;
       Some (n1\<lparr>in_meta := increment_value_count m1, in_data := d2\<rparr>)
     }"

text \<open>The pairs of the separator slots, as \<^verbatim>\<open>consolidate\<close> and \<^verbatim>\<open>split\<close> collect them.\<close>

definition inner_pair :: "inner_node \<Rightarrow> nat \<Rightarrow> bytes \<times> page_id" where
  "inner_pair n i =
     (inner_get_full_key n (inner_get_kv_meta n i), inner_get_value n (inner_get_kv_meta n i))"

fun inner_insert_pairs :: "inner_node \<Rightarrow> (bytes \<times> page_id) list \<Rightarrow> inner_node" where
  "inner_insert_pairs n [] = n"
| "inner_insert_pairs n ((key, v) # ps) = inner_insert_pairs (fst (inner_insert n key v)) ps"

definition inner_consolidate :: "inner_node \<Rightarrow> u64 \<Rightarrow> inner_node option" where
  "inner_consolidate n snapshot_version =
     do {
       let pairs = map (inner_pair n) [1..<slot_count (in_meta n)];
       let left_most = inner_get_value n (inner_get_kv_meta n 0);
       n1 \<leftarrow> inner_reinitialize n left_most (children_is_leaf (in_meta n)) (disk_offset n);
       n2 \<leftarrow> inner_set_snapshot_version n1 snapshot_version;
       Some (inner_insert_pairs n2 pairs)
     }"

definition inner_get_split_key :: "inner_node \<Rightarrow> bytes" where
  "inner_get_split_key n =
     (let c = slot_count (in_meta n) in inner_get_full_key n (inner_get_kv_meta n (c - c div 2)))"

definition inner_update_at_pos :: "inner_node \<Rightarrow> nat \<Rightarrow> page_id \<Rightarrow> inner_node" where
  "inner_update_at_pos n pos new_id =
     (let kv_meta = inner_get_kv_meta n pos;
          post_key_len = max (unat (ik_key_len kv_meta)) KEY_LOOK_AHEAD_SIZE - KEY_LOOK_AHEAD_SIZE
      in inner_write_value n (unat (ik_offset kv_meta) + post_key_len) new_id)"

text \<open>\<open>None\<close>: the assertion that the new identifier is not a pointer fails.\<close>

definition inner_update :: "inner_node \<Rightarrow> bytes \<Rightarrow> page_id \<Rightarrow> inner_node option" where
  "inner_update n key new_id =
     (if is_inner_node_pointer new_id then None
      else Some (inner_update_at_pos n (inner_lower_bound n key) new_id))"

definition is_valid_disk_offset :: "inner_node \<Rightarrow> bool" where
  "is_valid_disk_offset n = (disk_offset n \<noteq> INVALID_DISK_OFFSET)"

text \<open>\<^verbatim>\<open>KeyIter\<close> and \<^verbatim>\<open>ChildIter\<close>, run to their end.\<close>

definition inner_keys :: "inner_node \<Rightarrow> bytes list" where
  "inner_keys n =
     map (\<lambda>i. inner_get_full_key n (inner_get_kv_meta n i)) [0..<slot_count (in_meta n)]"

definition inner_children :: "inner_node \<Rightarrow> page_id list" where
  "inner_children n =
     map (\<lambda>i. inner_get_value n (inner_get_kv_meta n i)) [0..<slot_count (in_meta n)]"

section \<open>The builder\<close>

record inner_node_builder =
  left_most_page_id :: "page_id option"
  b_children_is_leaf :: "bool option"
  b_disk_offset :: "u64 option"
  b_records :: "(bytes \<times> page_id) list"
  b_raw :: inner_node

text \<open>\<^verbatim>\<open>InnerNodeBuilder::new\<close> on a freshly allocated, uninitialised node.\<close>

definition builder_new :: "inner_node \<Rightarrow> inner_node_builder" where
  "builder_new raw =
     \<lparr>left_most_page_id = None, b_children_is_leaf = None, b_disk_offset = None, b_records = [],
      b_raw = raw\<rparr>"

definition set_left_most_page_id :: "inner_node_builder \<Rightarrow> page_id \<Rightarrow> inner_node_builder" where
  "set_left_most_page_id b p = b\<lparr>left_most_page_id := Some p\<rparr>"

definition builder_set_children_is_leaf :: "inner_node_builder \<Rightarrow> bool \<Rightarrow> inner_node_builder" where
  "builder_set_children_is_leaf b is_leaf = b\<lparr>b_children_is_leaf := Some is_leaf\<rparr>"

definition builder_set_disk_offset :: "inner_node_builder \<Rightarrow> u64 \<Rightarrow> inner_node_builder" where
  "builder_set_disk_offset b off = b\<lparr>b_disk_offset := Some off\<rparr>"

definition add_record :: "inner_node_builder \<Rightarrow> bytes \<Rightarrow> page_id \<Rightarrow> inner_node_builder" where
  "add_record b key v = b\<lparr>b_records := b_records b @ [(key, v)]\<rparr>"

text \<open>The insertion loop of \<^verbatim>\<open>build\<close>; \<open>None\<close> is the failed assertion on the result.\<close>

fun build_insert :: "inner_node \<Rightarrow> (bytes \<times> page_id) list \<Rightarrow> inner_node option" where
  "build_insert n [] = Some n"
| "build_insert n ((key, v) # ps) =
     (let (n', rt) = inner_insert n key v in if rt then build_insert n' ps else None)"

definition builder_build :: "inner_node_builder \<Rightarrow> u64 \<Rightarrow> inner_node option" where
  "builder_build b snapshot_version =
     do {
       let offset = (case b_disk_offset b of Some x \<Rightarrow> x | None \<Rightarrow> INVALID_DISK_OFFSET);
       let node = (b_raw b)\<lparr>version_lock := 0, in_snapshot_version := 0\<rparr>;
       left \<leftarrow> left_most_page_id b;
       is_leaf \<leftarrow> b_children_is_leaf b;
       n1 \<leftarrow> inner_reinitialize node left is_leaf offset;
       n2 \<leftarrow> build_insert n1 (b_records b);
       inner_set_snapshot_version n2 snapshot_version
     }"

text \<open>\<^verbatim>\<open>InnerNode::split\<close>: the shrunk node, the filled builder and the separator.\<close>

fun add_records :: "inner_node_builder \<Rightarrow> (bytes \<times> page_id) list \<Rightarrow> inner_node_builder" where
  "add_records b [] = b"
| "add_records b ((key, v) # ps) = add_records (add_record b key v) ps"

definition inner_split ::
  "inner_node \<Rightarrow> inner_node_builder \<Rightarrow> u64 \<Rightarrow> (inner_node \<times> inner_node_builder \<times> bytes) option" where
  "inner_split n b snapshot_version =
     do {
       let current_count = slot_count (in_meta n);
       let sibling_node_count = current_count div 2;
       let new_node_count = current_count - sibling_node_count;
       let (split_key, split_value) = inner_pair n new_node_count;
       let b1 = set_left_most_page_id
                  (builder_set_children_is_leaf b (children_is_leaf (in_meta n))) split_value;
       let b2 = add_records b1 (map (\<lambda>i. inner_pair n (new_node_count + i)) [1..<sibling_node_count]);
       let n1 = n\<lparr>in_meta := set_value_count (in_meta n) (of_nat new_node_count)\<rparr>;
       n2 \<leftarrow> inner_consolidate n1 snapshot_version;
       Some (n2, b2, split_key)
     }"

section \<open>Keys and search\<close>

lemma prefix_span_take: "inner_prefix_span m = take 4 (inner_get_full_key n m)"
proof (cases "unat (ik_key_len m) \<le> 4")
  case True
  then show ?thesis
    by (simp add: inner_prefix_span_def inner_get_full_key_def inner_get_post_key_ref_def
        inner_post_len_def KEY_LOOK_AHEAD_SIZE_def)
next
  case False
  then show ?thesis
    by (simp add: inner_prefix_span_def inner_get_full_key_def KEY_LOOK_AHEAD_SIZE_def)
qed

lemma post_key_drop: "inner_get_post_key_ref n m = drop 4 (inner_get_full_key n m)"
proof (cases "unat (ik_key_len m) \<le> 4")
  case True
  then show ?thesis
    by (simp add: inner_prefix_span_def inner_get_full_key_def inner_get_post_key_ref_def
        inner_post_len_def KEY_LOOK_AHEAD_SIZE_def)
next
  case False
  then show ?thesis
    by (simp add: inner_prefix_span_def inner_get_full_key_def KEY_LOOK_AHEAD_SIZE_def)
qed

text \<open>Both comparisons, with the slot's four bytes first, are the comparison of the full keys.\<close>

lemma inner_key_compare_full: "inner_key_compare n key m = bytes_cmp (inner_get_full_key n m) key"
  using bytes_cmp_take [of 4 "inner_get_full_key n m" key]
    bytes_cmp_drop [of 4 "inner_get_full_key n m" key]
  by (auto simp: inner_key_compare_def Let_def KEY_LOOK_AHEAD_SIZE_def post_key_drop [symmetric]
      prefix_span_take [of m n] simp del: bytes_cmp_simps)
     (simp add: post_key_drop)

lemma inner_search_compare_full:
  "inner_search_compare n key m = bytes_cmp (inner_get_full_key n m) key"
proof -
  have "inner_get_post_key_ref n m = []" if "\<not> 4 < unat (ik_key_len m)"
    using that by (simp add: inner_get_post_key_ref_def inner_post_len_def KEY_LOOK_AHEAD_SIZE_def)
  then have "inner_search_compare n key m = inner_key_compare n key m"
    by (auto simp: inner_search_compare_def inner_key_compare_def Let_def KEY_LOOK_AHEAD_SIZE_def)
  then show ?thesis by (simp add: inner_key_compare_full)
qed

section \<open>The invariant and the contents\<close>

text \<open>
  The bytes a slot owns: the rest of its key and the child identifier. The slots and the records
  share the body without overlap, every byte not free is accounted for, slot 0 carries the empty
  dummy key and the separators ascend.
\<close>

definition inner_region :: "inner_kv_meta \<Rightarrow> nat \<times> nat" where
  "inner_region m = (unat (ik_offset m), inner_post_len m + 8)"

definition inner_pair_in :: "bytes \<Rightarrow> inner_kv_meta \<Rightarrow> bytes \<times> page_id" where
  "inner_pair_in d m =
     (let r = read_at (unat (ik_offset m)) (inner_post_len m + 8) d in
      (inner_prefix_span m @ take (inner_post_len m) r,
       PageID (u64_from_le_bytes (drop (inner_post_len m) r))))"

definition inner_metas :: "inner_node \<Rightarrow> inner_kv_meta list" where
  "inner_metas n = slot_metas inner_meta_dec (slot_count (in_meta n)) (in_data n)"

definition inner_entries :: "inner_node \<Rightarrow> (bytes \<times> page_id) list" where
  "inner_entries n = map (inner_pair_in (in_data n)) (inner_metas n)"

definition inner_left :: "inner_node \<Rightarrow> page_id" where
  "inner_left n = snd (hd (inner_entries n))"

definition inner_view :: "inner_node \<Rightarrow> (bytes \<times> page_id) list" where
  "inner_view n = tl (inner_entries n)"

definition inner_wf :: "inner_node \<Rightarrow> bool" where
  "inner_wf n \<longleftrightarrow>
     (let c = slot_count (in_meta n); rem = unat (remaining_size (in_meta n));
          rs = map inner_region (inner_metas n) in
      length (in_data n) = inner_max_data_size \<and> 1 \<le> c \<and> ik_key_len (hd (inner_metas n)) = 0 \<and>
      regions_ok (8 * c + rem) inner_max_data_size rs \<and>
      sum_list (map snd rs) + 8 * c + rem = inner_max_data_size \<and>
      ascending (map fst (inner_view n)))"

lemma inner_max_data_size_eq [simp]: "inner_max_data_size = 4064"
  by (simp add: inner_max_data_size_def INNER_NODE_SIZE_def)

lemma length_inner_metas [simp]: "length (inner_metas n) = slot_count (in_meta n)"
  by (simp add: inner_metas_def)

lemma nth_inner_metas:
  "i < slot_count (in_meta n) \<Longrightarrow> inner_metas n ! i = inner_get_kv_meta n i"
  by (simp add: inner_metas_def inner_get_kv_meta_def)

lemma inner_pair_in_eq:
  "inner_pair_in (in_data n) m = (inner_get_full_key n m, inner_get_value n m)"
  by (simp add: inner_pair_in_def inner_get_full_key_def inner_get_post_key_ref_def
      inner_get_value_def Let_def read_at_def drop_take min_def add.commute)

lemma nth_inner_entries:
  "i < slot_count (in_meta n) \<Longrightarrow> inner_entries n ! i = inner_pair n i"
  by (simp add: inner_entries_def nth_inner_metas inner_pair_in_eq inner_pair_def)

lemma length_inner_entries [simp]: "length (inner_entries n) = slot_count (in_meta n)"
  by (simp add: inner_entries_def)

lemma length_inner_view [simp]: "length (inner_view n) = slot_count (in_meta n) - 1"
  by (simp add: inner_view_def)

lemma nth_inner_view:
  "i + 1 < slot_count (in_meta n) \<Longrightarrow> inner_view n ! i = inner_pair n (i + 1)"
  by (simp add: inner_view_def nth_tl nth_inner_entries)

lemma inner_view_pairs: "inner_view n = map (inner_pair n) [1..<slot_count (in_meta n)]"
  by (rule nth_equalityI) (simp_all add: nth_inner_view)

lemma inner_left_eq:
  "1 \<le> slot_count (in_meta n) \<Longrightarrow> inner_left n = inner_get_value n (inner_get_kv_meta n 0)"
  using nth_inner_entries [of 0 n]
  by (cases "inner_entries n") (auto simp: inner_left_def inner_pair_def simp flip: length_0_conv)

lemma inner_pair_in_cong:
  "read_at (unat (ik_offset m)) (inner_post_len m + 8) d =
   read_at (unat (ik_offset m)) (inner_post_len m + 8) d' \<Longrightarrow> inner_pair_in d m = inner_pair_in d' m"
  by (simp add: inner_pair_in_def)

lemma length_sum_ge: "(\<And>x. x \<in> set xs \<Longrightarrow> k \<le> f x) \<Longrightarrow> k * length xs \<le> sum_list (map f xs)" for k :: nat
  by (induction xs) (auto simp: add_mono)

lemma inner_wfD:
  assumes "inner_wf n"
  shows "length (in_data n) = 4064" "1 \<le> slot_count (in_meta n)"
    and "regions_ok (8 * slot_count (in_meta n) + unat (remaining_size (in_meta n))) 4064
           (map inner_region (inner_metas n))"
    and "sum_list (map snd (map inner_region (inner_metas n))) + 8 * slot_count (in_meta n) +
           unat (remaining_size (in_meta n)) = 4064"
    and "ascending (map fst (inner_view n))" "ik_key_len (hd (inner_metas n)) = 0"
    and "16 * slot_count (in_meta n) + unat (remaining_size (in_meta n)) \<le> 4064"
proof -
  show *: "length (in_data n) = 4064" "1 \<le> slot_count (in_meta n)"
    "regions_ok (8 * slot_count (in_meta n) + unat (remaining_size (in_meta n))) 4064
       (map inner_region (inner_metas n))"
    "sum_list (map snd (map inner_region (inner_metas n))) + 8 * slot_count (in_meta n) +
       unat (remaining_size (in_meta n)) = 4064"
    "ascending (map fst (inner_view n))" "ik_key_len (hd (inner_metas n)) = 0"
    using assms by (auto simp: inner_wf_def Let_def)
  have "8 * length (inner_metas n) \<le> sum_list (map (snd \<circ> inner_region) (inner_metas n))"
    by (rule length_sum_ge) (simp add: inner_region_def)
  with *(4) show "16 * slot_count (in_meta n) + unat (remaining_size (in_meta n)) \<le> 4064"
    by simp
qed

lemma lowest_offset_eq:
  assumes "inner_wf n"
  shows "unat (inner_current_lowest_offset n) =
    8 * slot_count (in_meta n) + unat (remaining_size (in_meta n))"
proof -
  have "unat (meta_count_with_fence (in_meta n) * 8) = 8 * slot_count (in_meta n)"
    using inner_wfD(7) [OF assms] by (subst unat_mult_nowrap) auto
  then show ?thesis
    using inner_wfD(7) [OF assms]
    by (simp add: inner_current_lowest_offset_def unat_add_nowrap)
qed

text \<open>The search lands on the last slot whose key is not above the search key.\<close>

lemma inner_lower_bound_spec:
  assumes "inner_wf n"
  shows "inner_lower_bound n key < slot_count (in_meta n)"
    and "1 \<le> i \<Longrightarrow> i \<le> inner_lower_bound n key \<Longrightarrow> fst (inner_pair n i) \<le> key"
    and "inner_lower_bound n key < i \<Longrightarrow> i < slot_count (in_meta n) \<Longrightarrow> key < fst (inner_pair n i)"
proof -
  let ?c = "slot_count (in_meta n)" and ?k = "\<lambda>i. fst (inner_pair n i)"
  let ?b = "bsearch (\<lambda>mid. inner_search_compare n key (inner_get_kv_meta n mid)) 1 ?c"
  have asc: "?k i < ?k j" if "1 \<le> i" "i < j" "j < ?c" for i j
    using inner_wfD(5) [OF assms] that nth_inner_view [of "i - 1" n] nth_inner_view [of "j - 1" n]
      sorted_wrt_nth_less [of "(<)" "map fst (inner_view n)" "i - 1" "j - 1"]
    by simp
  have "case ?b of Inl m \<Rightarrow> 1 \<le> m \<and> m < ?c \<and> ?k m = key
         | Inr l \<Rightarrow> 1 \<le> l \<and> l \<le> ?c \<and> (\<forall>i. 1 \<le> i \<and> i < l \<longrightarrow> ?k i < key) \<and>
                   (\<forall>i. l \<le> i \<and> i < ?c \<longrightarrow> key < ?k i)"
    by (rule bsearch_correct)
       (use asc inner_wfD(2) [OF assms] in \<open>simp_all add: inner_search_compare_full inner_pair_def\<close>)
  then have "inner_lower_bound n key < ?c \<and>
      (\<forall>i. 1 \<le> i \<and> i \<le> inner_lower_bound n key \<longrightarrow> ?k i \<le> key) \<and>
      (\<forall>i. inner_lower_bound n key < i \<and> i < ?c \<longrightarrow> key < ?k i)"
  proof (cases ?b)
    case (Inl m)
    with \<open>case ?b of Inl m \<Rightarrow> _ m | Inr l \<Rightarrow> _ l\<close> have m: "1 \<le> m" "m < ?c" "?k m = key" by simp_all
    have "?k i \<le> key" if "1 \<le> i" "i \<le> m" for i
      using asc [of i m] m that by (cases "i = m") auto
    moreover have "key < ?k i" if "m < i" "i < ?c" for i
      using asc [of m i] m that by auto
    ultimately show ?thesis using Inl m by (simp add: inner_lower_bound_def)
  next
    case (Inr l)
    then show ?thesis
      using \<open>case ?b of Inl m \<Rightarrow> _ m | Inr l \<Rightarrow> _ l\<close>
      by (auto simp: inner_lower_bound_def less_imp_le)
  qed
  then show "inner_lower_bound n key < ?c"
    and "1 \<le> i \<Longrightarrow> i \<le> inner_lower_bound n key \<Longrightarrow> ?k i \<le> key"
    and "inner_lower_bound n key < i \<Longrightarrow> i < ?c \<Longrightarrow> key < ?k i"
    by blast+
qed

section \<open>Insertion\<close>

lemma inner_make_prefixed_meta_laws:
  assumes "length key < 65536"
  shows "inner_post_len (inner_make_prefixed_meta key off) = length key - 4"
    and "inner_prefix_span (inner_make_prefixed_meta key off) = take 4 key"
    and "ik_offset (inner_make_prefixed_meta key off) = off"
proof -
  have len: "unat (ik_key_len (inner_make_prefixed_meta key off)) = length key"
    using assms by (simp add: inner_make_prefixed_meta_def unat_wrap)
  show "inner_post_len (inner_make_prefixed_meta key off) = length key - 4"
    by (simp add: inner_post_len_def len KEY_LOOK_AHEAD_SIZE_def)
  have "take (min 4 (length key)) (array_prefix (prefix_array key)) = take 4 key"
    by (cases key rule: prefix_array.cases) auto
  then show "inner_prefix_span (inner_make_prefixed_meta key off) = take 4 key"
    by (simp add: inner_prefix_span_def len KEY_LOOK_AHEAD_SIZE_def)
       (simp add: inner_make_prefixed_meta_def)
  show "ik_offset (inner_make_prefixed_meta key off) = off"
    by (simp add: inner_make_prefixed_meta_def)
qed

lemma inner_entry_in_bounds:
  assumes "inner_wf n" "m \<in> set (inner_metas n)"
  shows "8 * slot_count (in_meta n) + unat (remaining_size (in_meta n)) \<le> unat (ik_offset m)"
    and "unat (ik_offset m) + inner_post_len m + 8 \<le> 4064"
  using inner_wfD(3) [OF assms(1)] assms(2) by (auto simp: regions_ok_def inner_region_def)

lemma inner_update_at_pos_eq:
  "inner_update_at_pos n pos child =
   inner_write_value n
     (unat (ik_offset (inner_get_kv_meta n pos)) + inner_post_len (inner_get_kv_meta n pos)) child"
  by (auto simp: inner_update_at_pos_def Let_def inner_post_len_def KEY_LOOK_AHEAD_SIZE_def max_def)

text \<open>Overwriting the child of one slot changes that child and nothing else.\<close>

lemma inner_update_at_pos_spec:
  fixes child :: page_id
  assumes wf: "inner_wf n" and pos: "pos < slot_count (in_meta n)"
  defines "n' \<equiv> inner_update_at_pos n pos child"
  shows "inner_wf n'" "in_meta n' = in_meta n"
    and "inner_entries n' = (inner_entries n)[pos := (fst (inner_pair n pos), child)]"
proof -
  let ?m = "inner_get_kv_meta n pos" and ?c = "slot_count (in_meta n)"
  let ?a = "unat (ik_offset ?m) + inner_post_len ?m"
  have n': "n' = inner_write_value n ?a child"
    by (simp add: n'_def inner_update_at_pos_eq)
  then show meta: "in_meta n' = in_meta n" by (simp add: inner_write_value_def)
  have d': "in_data n' = write_at ?a (u64_to_le_bytes (page_raw child)) (in_data n)"
    using n' by (simp add: inner_write_value_def)
  have len: "length (in_data n) = 4064" by (rule inner_wfD(1) [OF wf])
  have m: "?m \<in> set (inner_metas n)" by (metis length_inner_metas nth_inner_metas nth_mem pos)
  note b = inner_entry_in_bounds [OF wf m]
  have metas: "inner_metas n' = inner_metas n"
    unfolding inner_metas_def meta d' by (rule inner_slot.metas_write_record) (use b len in auto)
  have same: "inner_pair_in (in_data n') (inner_metas n ! i) = inner_pair_in (in_data n) (inner_metas n ! i)"
    if "i < ?c" "i \<noteq> pos" for i
  proof (rule inner_pair_in_cong)
    let ?k = "inner_metas n ! i"
    have "apart (inner_region ?k) (inner_region ?m)"
      using regions_ok_apart [OF inner_wfD(3) [OF wf], of i pos] that pos nth_inner_metas [of pos n] by simp
    moreover have "unat (ik_offset ?k) + inner_post_len ?k + 8 \<le> 4064"
      using inner_entry_in_bounds(2) [OF wf nth_mem, of i] that by simp
    ultimately show "read_at (unat (ik_offset ?k)) (inner_post_len ?k + 8) (in_data n') =
        read_at (unat (ik_offset ?k)) (inner_post_len ?k + 8) (in_data n)"
      unfolding d' using b len
      by (intro read_write_disjoint) (auto simp: apart_def inner_region_def)
  qed
  have here: "inner_pair_in (in_data n') ?m = (fst (inner_pair n pos), child)"
  proof -
    have "read_at (unat (ik_offset ?m)) (inner_post_len ?m) (in_data n') =
        read_at (unat (ik_offset ?m)) (inner_post_len ?m) (in_data n)"
      unfolding d' using b len by (intro read_write_disjoint) auto
    then show ?thesis
      using b len unfolding inner_pair_in_eq inner_pair_def
      by (simp add: inner_get_full_key_def inner_get_post_key_ref_def inner_get_value_def d'
          read_write_same page_raw_def)
  qed
  show entries: "inner_entries n' = (inner_entries n)[pos := (fst (inner_pair n pos), child)]"
    by (rule nth_equalityI)
       (use same here meta metas pos in \<open>auto simp: inner_entries_def nth_list_update nth_inner_metas\<close>)
  then have "map fst (inner_entries n') = map fst (inner_entries n)"
    using pos by (simp add: map_update) (metis fst_conv length_inner_entries list_update_id map_update
        nth_inner_entries nth_map)
  then have "map fst (inner_view n') = map fst (inner_view n)"
    by (simp add: inner_view_def map_tl)
  then show "inner_wf n'"
    using wf len b by (simp add: inner_wf_def Let_def meta metas d')
qed

text \<open>The new slot and record of a key that is not there yet.\<close>

definition inner_add :: "inner_node \<Rightarrow> nat \<Rightarrow> bytes \<Rightarrow> page_id \<Rightarrow> inner_node" where
  "inner_add n pos key child =
     (let lo = unat (inner_current_lowest_offset n); len = (length key - 4) + 8;
          off = inner_current_lowest_offset n - of_nat len in
      n\<lparr>in_meta := increment_value_count
           ((in_meta n)\<lparr>remaining_size := remaining_size (in_meta n) - of_nat (len + 8)\<rparr>),
         in_data := add_entry pos (slot_count (in_meta n))
           (inner_meta_enc (inner_make_prefixed_meta key off)) (lo - len)
           (drop 4 key @ u64_to_le_bytes (page_raw child)) (in_data n)\<rparr>)"

lemma inner_required_len_eq: "inner_required_len key = (length key - 4 + 8) + 8"
  by (auto simp: inner_required_len_def KEY_LOOK_AHEAD_SIZE_def max_def)

lemma inner_add_shape:
  fixes child :: page_id
  assumes wf: "inner_wf n" and room: "inner_required_len key \<le> unat (remaining_size (in_meta n))"
    and pos: "pos \<le> slot_count (in_meta n)"
  defines "n' \<equiv> inner_add n pos key child" and "c \<equiv> slot_count (in_meta n)"
    and "off \<equiv> 8 * slot_count (in_meta n) + unat (remaining_size (in_meta n)) - (length key - 4 + 8)"
  shows "slot_count (in_meta n') = Suc c"
    and "unat (remaining_size (in_meta n')) = unat (remaining_size (in_meta n)) - inner_required_len key"
    and "same_flags (in_meta n) (in_meta n')"
    and "\<exists>m. inner_region m = (off, length key - 4 + 8) \<and> inner_post_len m = length key - 4 \<and>
           inner_prefix_span m = take 4 key \<and> in_data n' =
           add_entry pos c (inner_meta_enc m) off (drop 4 key @ u64_to_le_bytes (page_raw child)) (in_data n)"
proof -
  define len where "len = length key - 4 + 8"
  define woff where "woff = inner_current_lowest_offset n - of_nat len"
  let ?m = "inner_make_prefixed_meta key woff"
  let ?m1 = "(in_meta n)\<lparr>remaining_size := remaining_size (in_meta n) - of_nat (len + 8)\<rparr>"
  note w = inner_wfD [OF wf]
  have req: "inner_required_len key = len + 8"
    by (simp add: inner_required_len_eq len_def)
  have ulen: "unat (of_nat (len + 8) :: u16) = len + 8" "unat (of_nat len :: u16) = len"
    using room w(7) by (simp_all add: req unat_of_nat_nowrap del: of_nat_add)
  have uoff: "unat woff = off"
    using room unfolding woff_def off_def len_def [symmetric]
    by (subst unat_sub_nowrap) (simp_all add: lowest_offset_eq [OF wf] ulen req)
  have "length key < 65536" using room w(7) by (simp add: req len_def)
  note mk = inner_make_prefixed_meta_laws [OF this, of woff]
  have c1: "slot_count ?m1 = c" by (simp add: c_def meta_count_with_fence_def)
  have "c < 4095" using w(7) by (simp add: c_def)
  note inc = increment_value_count_laws [of ?m1, unfolded c1, OF this]
  have meta': "in_meta n' = increment_value_count ?m1"
    by (simp add: n'_def inner_add_def Let_def len_def)
  show "slot_count (in_meta n') = Suc c" using inc(1) by (simp add: meta')
  show "unat (remaining_size (in_meta n')) =
      unat (remaining_size (in_meta n)) - inner_required_len key"
    unfolding meta' inc(4) using room by (simp add: unat_sub_nowrap ulen req del: of_nat_add)
  show "same_flags (in_meta n) (in_meta n')"
    using inc(2) unfolding meta' by (simp add: same_flags_def flag_bits)
  have "inner_region ?m = (off, len)" by (simp add: inner_region_def mk uoff len_def)
  moreover have "in_data n' =
      add_entry pos c (inner_meta_enc ?m) off (drop 4 key @ u64_to_le_bytes (page_raw child)) (in_data n)"
    by (simp add: n'_def inner_add_def Let_def c_def woff_def off_def len_def lowest_offset_eq [OF wf])
  ultimately show "\<exists>m. inner_region m = (off, length key - 4 + 8) \<and> inner_post_len m = length key - 4 \<and>
      inner_prefix_span m = take 4 key \<and> in_data n' =
      add_entry pos c (inner_meta_enc m) off (drop 4 key @ u64_to_le_bytes (page_raw child)) (in_data n)"
    using mk(1,2) unfolding len_def by blast
qed

lemma inner_add_spec:
  fixes child :: page_id
  assumes wf: "inner_wf n" and room: "inner_required_len key \<le> unat (remaining_size (in_meta n))"
    and pos: "1 \<le> pos" "pos \<le> slot_count (in_meta n)"
  defines "n' \<equiv> inner_add n pos key child"
  shows "inner_entries n' = ins_at pos (key, child) (inner_entries n)"
    and "ascending (map fst (inner_view n')) \<Longrightarrow> inner_wf n'"
proof -
  define c where "c = slot_count (in_meta n)"
  define rem where "rem = unat (remaining_size (in_meta n))"
  define len where "len = length key - 4 + 8"
  define off where "off = 8 * c + rem - len"
  let ?rec = "drop 4 key @ u64_to_le_bytes (page_raw child)"
  note w = inner_wfD [OF wf, folded c_def rem_def]
  note sh = inner_add_shape [OF wf room pos(2), of child, folded n'_def c_def rem_def len_def off_def]
  obtain m where m: "inner_region m = (off, len)" "inner_post_len m = length key - 4"
    "inner_prefix_span m = take 4 key" "in_data n' = add_entry pos c (inner_meta_enc m) off ?rec (in_data n)"
    using sh(4) unfolding off_def by blast
  have room': "len + 8 \<le> rem"
    using room by (simp add: inner_required_len_eq len_def rem_def)
  have reclen: "length ?rec = len" by (simp add: len_def)
  have side: "pos \<le> c" "8 * (c + 1) \<le> off" "off + length ?rec \<le> length (in_data n)"
    using pos room' w(1,7) reclen by (auto simp: c_def off_def)
  have metas': "inner_metas n' = ins_at pos m (inner_metas n)"
    unfolding inner_metas_def sh(1) m(4)
    using inner_slot.metas_add_entry [OF side, of m] by (simp add: c_def)
  have "inner_pair_in (in_data n') k = inner_pair_in (in_data n) k" if "k \<in> set (inner_metas n)" for k
    unfolding m(4) using inner_entry_in_bounds [OF wf that] room' w(1) side(1,2) reclen
    by (intro inner_pair_in_cong inner_slot.read_add_entry) (auto simp: c_def rem_def off_def)
  then have old: "map (inner_pair_in (in_data n')) (inner_metas n) = inner_entries n"
    by (simp add: inner_entries_def)
  have "read_at off len (in_data n') = ?rec"
    unfolding m(4) using inner_slot.read_added_entry [OF side] reclen by simp
  then have new: "inner_pair_in (in_data n') m = (key, child)"
    using m(1-3) by (simp add: inner_pair_in_def inner_region_def Let_def page_raw_def)
  show "inner_entries n' = ins_at pos (key, child) (inner_entries n)"
    unfolding inner_entries_def [of n'] metas' map_ins_at new old ..
  show "inner_wf n'" if "ascending (map fst (inner_view n'))"
  proof -
    have "regions_ok off 4064 (ins_at pos (off, len) (map inner_region (inner_metas n)))"
      unfolding off_def by (rule regions_ok_ins_at) (use w room' side in \<open>auto simp: c_def\<close>)
    moreover have "off = 8 * Suc c + (rem - (len + 8))" using room' by (simp add: off_def)
    moreover have "hd (ins_at pos m (inner_metas n)) = hd (inner_metas n)"
      using pos(1) w(2) by (cases "inner_metas n")
        (auto simp: ins_at_def c_def Suc_le_eq gr0_conv_Suc simp flip: length_0_conv)
    moreover have "length (in_data n') = 4064"
      unfolding m(4) using inner_slot.length_add_entry [OF side] w(1) by simp
    ultimately show ?thesis
      using w(4,6) that sh(1) sh(2) [unfolded inner_required_len_eq, folded len_def] room'
      by (simp add: inner_wf_def Let_def metas' map_ins_at m(1) sum_list_ins_at)
  qed
qed

lemma room_word:
  assumes "length key \<le> 60000"
  shows "remaining_size m < of_nat (inner_required_len key) \<longleftrightarrow>
    unat (remaining_size m) < inner_required_len key"
proof -
  have "unat (of_nat (inner_required_len key) :: u16) = inner_required_len key"
    using assms by (simp add: inner_required_len_eq unat_of_nat_nowrap del: of_nat_add)
  then show ?thesis by (simp add: word_less_nat_alt)
qed

lemma inner_key_at_bound:
  assumes "inner_wf n"
  shows "(0 < inner_lower_bound n key \<and> fst (inner_pair n (inner_lower_bound n key)) = key) \<longleftrightarrow>
    key \<in> fst ` set (inner_view n)"
proof
  assume *: "0 < inner_lower_bound n key \<and> fst (inner_pair n (inner_lower_bound n key)) = key"
  then show "key \<in> fst ` set (inner_view n)"
    using inner_lower_bound_spec(1) [OF assms, of key]
    by (auto simp: inner_view_pairs image_iff intro!: bexI [of _ "inner_lower_bound n key"])
next
  assume "key \<in> fst ` set (inner_view n)"
  then obtain i where i: "1 \<le> i" "i < slot_count (in_meta n)" "fst (inner_pair n i) = key"
    by (auto simp: inner_view_pairs)
  let ?p = "inner_lower_bound n key"
  have "i \<le> ?p" using inner_lower_bound_spec(3) [OF assms, of key i] i by fastforce
  moreover have "\<not> i < ?p"
  proof
    assume "i < ?p"
    then have "fst (inner_pair n i) < fst (inner_pair n ?p)"
      using inner_wfD(5) [OF assms] inner_lower_bound_spec(1) [OF assms, of key] i
        sorted_wrt_nth_less [of "(<)" "map fst (inner_view n)" "i - 1" "?p - 1"]
      by (simp add: nth_inner_view)
    with i inner_lower_bound_spec(2) [OF assms, of ?p key] \<open>i < ?p\<close> show False by simp
  qed
  ultimately show "0 < ?p \<and> fst (inner_pair n ?p) = key" using i by (cases "i = ?p") auto
qed

text \<open>The three outcomes of an insertion: refused, child replaced, separator added.\<close>

lemma inner_insert_cases:
  assumes wf: "inner_wf n" and len: "length key \<le> 60000"
  shows "inner_insert n key child =
    (if unat (remaining_size (in_meta n)) < inner_required_len key then (n, False)
     else if key \<in> fst ` set (inner_view n) then
       (inner_update_at_pos n (inner_lower_bound n key) child, True)
     else (inner_add n (inner_lower_bound n key + 1) key child, True))"
proof -
  let ?p = "inner_lower_bound n key" and ?c = "slot_count (in_meta n)"
  let ?rem = "unat (remaining_size (in_meta n))"
  have post: "max (length key) KEY_LOOK_AHEAD_SIZE - KEY_LOOK_AHEAD_SIZE = length key - 4"
    by (auto simp: KEY_LOOK_AHEAD_SIZE_def max_def)
  have hit: "(0 < ?p \<and> ?p < ?c \<and> inner_key_compare n key (inner_get_kv_meta n ?p) = Equal) \<longleftrightarrow>
      key \<in> fst ` set (inner_view n)"
    using inner_key_at_bound [OF wf, of key] inner_lower_bound_spec(1) [OF wf, of key]
    by (simp add: inner_key_compare_full inner_pair_def)
  have upd: "inner_write_value n (unat (ik_offset (inner_get_kv_meta n ?p)) + (length key - 4)) child =
      inner_update_at_pos n ?p child" if "key \<in> fst ` set (inner_view n)"
  proof -
    have "inner_get_full_key n (inner_get_kv_meta n ?p) = key"
      using inner_key_at_bound [OF wf, of key] that by (simp add: inner_pair_def)
    moreover have "length (inner_get_post_key_ref n (inner_get_kv_meta n ?p)) =
        inner_post_len (inner_get_kv_meta n ?p)"
      using inner_entry_in_bounds(2) [OF wf nth_mem, of ?p] inner_lower_bound_spec(1) [OF wf, of key]
        inner_wfD(1) [OF wf]
      by (simp add: inner_get_post_key_ref_def nth_inner_metas)
    ultimately have "inner_post_len (inner_get_kv_meta n ?p) = length key - 4"
      by (simp add: post_key_drop)
    then show ?thesis by (simp add: inner_update_at_pos_eq)
  qed
  have lo: "unat (inner_current_lowest_offset n - of_nat (length key - 4 + 8)) =
      8 * ?c + ?rem - (length key - 4 + 8)" if "inner_required_len key \<le> ?rem"
    using that len lowest_offset_eq [OF wf]
    by (subst unat_sub_nowrap) (simp_all add: unat_of_nat_nowrap inner_required_len_eq del: of_nat_add)
  have two: "write_at (off + (length key - 4)) (u64_to_le_bytes v) (write_at off (drop 4 key)
        (put_slot (Suc ?p) (inner_meta_enc m) (shift_slots (Suc ?p) ?c (in_data n)))) =
      add_entry (Suc ?p) ?c (inner_meta_enc m) off (drop 4 key @ u64_to_le_bytes v) (in_data n)"
    if "off + (length key - 4 + 8) \<le> 4064" for off v m
    using that inner_wfD(1,7) [OF wf] inner_lower_bound_spec(1) [OF wf, of key]
      write_at_write_at [of off "drop 4 key" "u64_to_le_bytes v"]
    by (simp add: add_entry_def inner_slot.length_ins)
  have low: "8 * ?c + ?rem \<le> 4064" using inner_wfD(7) [OF wf] by simp
  consider "?rem < inner_required_len key" | "\<not> ?rem < inner_required_len key" "key \<in> fst ` set (inner_view n)"
    | "\<not> ?rem < inner_required_len key" "key \<notin> fst ` set (inner_view n)" by blast
  then show ?thesis
  proof cases
    case 3
    then show ?thesis
      using hit lo low two [of "8 * ?c + ?rem - (length key - 4 + 8)"] room_word [OF len, of "in_meta n"]
      unfolding inner_insert_def Let_def post inner_required_len_eq
      by (simp add: inner_add_def Let_def KEY_LOOK_AHEAD_SIZE_def lowest_offset_eq [OF wf] del: of_nat_add)
         auto
  qed (use hit upd room_word [OF len, of "in_meta n"] in
      \<open>simp_all only: inner_insert_def Let_def post inner_required_len_eq if_True if_False simp_thms\<close>)
qed

lemma inner_view_update:
  assumes "inner_entries n' = (inner_entries n)[pos := x]" "0 < pos"
  shows "inner_view n' = (inner_view n)[pos - 1 := x]" "inner_left n' = inner_left n"
proof -
  obtain q where q: "pos = Suc q" using assms(2) gr0_conv_Suc by auto
  show "inner_view n' = (inner_view n)[pos - 1 := x]" "inner_left n' = inner_left n"
    using assms(1) by (cases "inner_entries n"; simp add: inner_view_def inner_left_def q)+
qed

lemma inner_view_ins_at:
  assumes "inner_entries n' = ins_at pos x (inner_entries n)" "0 < pos" "1 \<le> slot_count (in_meta n)"
  shows "inner_view n' = ins_at (pos - 1) x (inner_view n)" "inner_left n' = inner_left n"
proof -
  obtain q where q: "pos = Suc q" using assms(2) gr0_conv_Suc by auto
  obtain e es where "inner_entries n = e # es"
    using assms(3) by (cases "inner_entries n") (auto simp flip: length_0_conv)
  with assms(1) show "inner_view n' = ins_at (pos - 1) x (inner_view n)" "inner_left n' = inner_left n"
    by (simp_all add: inner_view_def inner_left_def q ins_at_def)
qed

lemma inner_add_view:
  fixes child :: page_id
  assumes wf: "inner_wf n" and room: "inner_required_len key \<le> unat (remaining_size (in_meta n))"
    and new: "key \<notin> fst ` set (inner_view n)"
  defines "n' \<equiv> inner_add n (inner_lower_bound n key + 1) key child"
  shows "inner_wf n'" "inner_view n' = upsert key child (inner_view n)" "inner_left n' = inner_left n"
proof -
  let ?p = "inner_lower_bound n key"
  have p: "?p < slot_count (in_meta n)" by (rule inner_lower_bound_spec(1) [OF wf])
  note add = inner_add_spec [OF wf room, of "?p + 1" child, folded n'_def]
  note va = inner_view_ins_at [OF add(1)]
  have v: "inner_view n' = ins_at ?p (key, child) (inner_view n)" "inner_left n' = inner_left n"
    using va p by simp_all
  show "inner_left n' = inner_left n" by (rule v)
  have "upsert key child (inner_view n) = ins_at ?p (key, child) (inner_view n)"
  proof (rule upsert_ins_at)
    show "?p \<le> length (inner_view n)" using p by simp
    show "fst (inner_view n ! i) < key" if "i < ?p" for i
    proof -
      have "inner_view n ! i \<in> set (inner_view n)" using that p by (intro nth_mem) simp
      then have "fst (inner_view n ! i) \<noteq> key" using new by force
      then show ?thesis using inner_lower_bound_spec(2) [OF wf, where i = "i + 1" and key = key] that p
        by (simp add: nth_inner_view less_le)
    qed
    show "key < fst (inner_view n ! i)" if "?p \<le> i" "i < length (inner_view n)" for i
      using inner_lower_bound_spec(3) [OF wf, where i = "i + 1" and key = key] that
      by (simp add: nth_inner_view)
  qed
  with v show view: "inner_view n' = upsert key child (inner_view n)" by simp
  show "inner_wf n'"
    using add(2) p inner_wfD(5) [OF wf] by (simp add: view ascending_upsert)
qed

text \<open>What a client may rely on: insertion is \<open>upsert\<close> on the separators, or a refusal.\<close>

lemma inner_insert_spec:
  fixes child :: page_id
  assumes wf: "inner_wf n" and len: "length key \<le> 60000"
    and room: "inner_required_len key \<le> unat (remaining_size (in_meta n))"
  defines "n' \<equiv> fst (inner_insert n key child)"
  shows "snd (inner_insert n key child)" "inner_wf n'"
    and "inner_view n' = upsert key child (inner_view n)" "inner_left n' = inner_left n"
    and "same_flags (in_meta n) (in_meta n')"
    and "unat (remaining_size (in_meta n')) = unat (remaining_size (in_meta n)) -
           (if key \<in> fst ` set (inner_view n) then 0 else inner_required_len key)"
    and "in_snapshot_version n' = in_snapshot_version n" "disk_offset n' = disk_offset n"
    and "version_lock n' = version_lock n"
proof -
  let ?p = "inner_lower_bound n key"
  have p: "?p < slot_count (in_meta n)" by (rule inner_lower_bound_spec(1) [OF wf])
  note ins = inner_insert_cases [OF wf len, of child]
  show "snd (inner_insert n key child)" using ins room by simp
  have "inner_wf n' \<and> inner_view n' = upsert key child (inner_view n) \<and> inner_left n' = inner_left n \<and>
    same_flags (in_meta n) (in_meta n') \<and>
    unat (remaining_size (in_meta n')) = unat (remaining_size (in_meta n)) -
           (if key \<in> fst ` set (inner_view n) then 0 else inner_required_len key) \<and>
    in_snapshot_version n' = in_snapshot_version n \<and> disk_offset n' = disk_offset n \<and>
    version_lock n' = version_lock n"
  proof (cases "key \<in> fst ` set (inner_view n)")
    case True
    then have n': "n' = inner_update_at_pos n ?p child" using ins room by (simp add: n'_def)
    have hit: "0 < ?p" "fst (inner_pair n ?p) = key" using inner_key_at_bound [OF wf, of key] True by auto
    note u = inner_update_at_pos_spec [OF wf p, of child, folded n']
    note vu = inner_view_update [OF u(3) hit(1)]
    have "upsert key child (inner_view n) = (inner_view n)[?p - 1 := (key, child)]"
      using p hit inner_wfD(5) [OF wf] by (intro upsert_update) (simp_all add: nth_inner_view)
    moreover have "in_snapshot_version n' = in_snapshot_version n \<and> disk_offset n' = disk_offset n \<and>
        version_lock n' = version_lock n"
      by (simp add: n' inner_update_at_pos_eq inner_write_value_def)
    ultimately show ?thesis
      using u(1,2) vu hit(2) True by (simp add: same_flags_def)
  next
    case False
    then have n': "n' = inner_add n (?p + 1) key child" using ins room by (simp add: n'_def)
    note a = inner_add_view [OF wf room False, of child, folded n']
    note sh = inner_add_shape(2,3) [OF wf room, of "?p + 1" child, folded n']
    have "in_snapshot_version n' = in_snapshot_version n \<and> disk_offset n' = disk_offset n \<and>
        version_lock n' = version_lock n"
      by (simp add: n' inner_add_def Let_def)
    with a sh p False show ?thesis by simp
  qed
  then show "inner_wf n'"
    and "inner_view n' = upsert key child (inner_view n)" "inner_left n' = inner_left n"
    and "same_flags (in_meta n) (in_meta n')"
    and "unat (remaining_size (in_meta n')) = unat (remaining_size (in_meta n)) -
           (if key \<in> fst ` set (inner_view n) then 0 else inner_required_len key)"
    and "in_snapshot_version n' = in_snapshot_version n" "disk_offset n' = disk_offset n"
    and "version_lock n' = version_lock n"
    by blast+
qed

section \<open>Rebuilding a node\<close>

lemma inner_reinitialize_spec:
  assumes len: "length (in_data n) = 4064"
  obtains n' where "inner_reinitialize n left is_leaf doff = Some n'"
    and "inner_wf n'" "inner_view n' = []" "inner_left n' = left"
    and "children_is_leaf (in_meta n') = is_leaf" "unat (remaining_size (in_meta n')) = 4048"
    and "disk_offset n' = doff" "in_snapshot_version n' = in_snapshot_version n"
    and "version_lock n' = version_lock n"
proof -
  obtain m where m: "node_meta_new (of_nat inner_max_data_size) is_leaf False (of_nat INNER_NODE_SIZE) False = Some m"
    using node_meta_new_eq [of "of_nat inner_max_data_size" is_leaf False "of_nat INNER_NODE_SIZE" False] by auto
  note new = node_meta_new_laws [OF m]
  let ?m1 = "m\<lparr>remaining_size := remaining_size m - 16\<rparr>"
  let ?k = "\<lparr>ik_offset = 4056, ik_key_len = 0, key_prefix = (0, 0, 0, 0)\<rparr>"
  have c1: "slot_count ?m1 = 0" using new(1) by (simp add: meta_count_with_fence_def)
  note inc = increment_value_count_laws [of ?m1, unfolded c1, simplified]
  define n' where "n' = n\<lparr>in_meta := increment_value_count ?m1, disk_offset := doff,
    in_data := add_entry 0 0 (inner_meta_enc ?k) 4056 (u64_to_le_bytes (page_raw left)) (in_data n)\<rparr>"
  have off: "inner_current_lowest_offset (n\<lparr>in_meta := m, disk_offset := doff\<rparr>) - 8 = 4056"
    using new(1,7) by (simp add: inner_current_lowest_offset_def unat_eq_0)
  have "inner_reinitialize n left is_leaf doff = Some n'"
    unfolding inner_reinitialize_def m
    by (simp add: off n'_def add_entry_def shift_slots_def Let_def)
  moreover have rem: "unat (remaining_size (in_meta n')) = 4048"
    using inc(4) new(7) by (simp add: n'_def unat_sub_nowrap)
  moreover have metas: "inner_metas n' = [?k]"
    using inner_slot.metas_add_entry [of 0 0 4056 "u64_to_le_bytes (page_raw left)" "in_data n" ?k] len inc(1)
    by (simp add: inner_metas_def n'_def slot_metas_def ins_at_def)
  moreover have entries: "inner_entries n' = [([], left)]"
  proof -
    have "read_at 4056 8 (in_data n') = u64_to_le_bytes (page_raw left)"
      using inner_slot.read_added_entry [of 0 0 4056 "u64_to_le_bytes (page_raw left)" "in_data n" ?k] len
      by (simp add: n'_def)
    then show ?thesis
      by (simp add: inner_entries_def metas inner_pair_in_def inner_post_len_def inner_prefix_span_def page_raw_def)
  qed
  moreover have "length (in_data n') = 4064" "slot_count (in_meta n') = 1"
    using inc(1) len inner_slot.length_add_entry [of 0 0 4056 "u64_to_le_bytes (page_raw left)" "in_data n" ?k]
    by (simp_all add: n'_def)
  then have "inner_wf n'"
    using rem by (simp add: inner_wf_def Let_def metas inner_view_def entries regions_ok_def
        inner_region_def inner_post_len_def)
  moreover have "children_is_leaf (in_meta n') = is_leaf"
    using inc(2) new(3) by (simp add: n'_def same_flags_def flag_bits)
  ultimately show thesis
    using that [of n'] by (simp add: inner_view_def inner_left_def n'_def)
qed

text \<open>The bytes a list of separators takes, and the accounting of a well-formed node.\<close>

definition inner_cost :: "(bytes \<times> page_id) list \<Rightarrow> nat" where
  "inner_cost ps = sum_list (map (inner_required_len \<circ> fst) ps)"

lemma inner_cost_simps [simp]:
  "inner_cost [] = 0" "inner_cost (p # ps) = inner_required_len (fst p) + inner_cost ps"
  "inner_cost (ps @ qs) = inner_cost ps + inner_cost qs"
  by (simp_all add: inner_cost_def)

lemma inner_cost_key: "p \<in> set ps \<Longrightarrow> length (fst p) \<le> inner_cost ps"
  by (induction ps) (auto simp: inner_required_len_eq)

lemma inner_entry_cost:
  assumes "inner_wf n" "m \<in> set (inner_metas n)"
  shows "inner_required_len (inner_get_full_key n m) = snd (inner_region m) + 8"
proof -
  have "length (inner_get_post_key_ref n m) = inner_post_len m"
    using inner_entry_in_bounds(2) [OF assms] inner_wfD(1) [OF assms(1)]
    by (simp add: inner_get_post_key_ref_def)
  then show ?thesis
    by (simp add: inner_required_len_eq post_key_drop inner_region_def)
qed

lemma inner_accounting:
  assumes "inner_wf n"
  shows "inner_cost (inner_view n) + unat (remaining_size (in_meta n)) = 4048"
proof -
  obtain m ms where ms: "inner_metas n = m # ms"
    using inner_wfD(2) [OF assms] by (cases "inner_metas n") (auto simp flip: length_0_conv)
  have "snd (inner_region m) = 8"
    using inner_wfD(6) [OF assms] by (simp add: ms inner_region_def inner_post_len_def)
  moreover have "inner_cost (inner_view n) = sum_list (map (snd \<circ> inner_region) ms) + 8 * length ms"
  proof -
    have "inner_required_len (fst (inner_pair_in (in_data n) k)) = snd (inner_region k) + 8"
      if "k \<in> set ms" for k
      using inner_entry_cost [OF assms, of k] that by (simp add: ms inner_pair_in_eq)
    then have "inner_cost (inner_view n) = sum_list (map (\<lambda>k. snd (inner_region k) + 8) ms)"
      by (simp add: inner_cost_def inner_view_def inner_entries_def ms comp_def cong: map_cong)
    then show ?thesis by (simp add: sum_list_addf sum_list_triv comp_def)
  qed
  moreover have "slot_count (in_meta n) = Suc (length ms)"
    using length_inner_metas [of n] by (simp add: ms)
  ultimately show ?thesis using inner_wfD(4) [OF assms] by (simp add: ms)
qed

lemma inner_insert_pairs_spec:
  assumes "inner_wf n" "ascending (map fst (inner_view n @ ps))"
    and "inner_cost ps \<le> unat (remaining_size (in_meta n))" "\<forall>p\<in>set ps. length (fst p) \<le> 60000"
  defines "n' \<equiv> inner_insert_pairs n ps"
  shows "build_insert n ps = Some n' \<and> inner_wf n' \<and> inner_view n' = inner_view n @ ps \<and>
    inner_left n' = inner_left n \<and> same_flags (in_meta n) (in_meta n') \<and>
    in_snapshot_version n' = in_snapshot_version n \<and> disk_offset n' = disk_offset n \<and>
    version_lock n' = version_lock n"
  using assms(1-4) unfolding n'_def
proof (induction n ps rule: inner_insert_pairs.induct)
  case (1 n)
  then show ?case by (simp add: same_flags_def)
next
  case (2 n key v ps)
  obtain n1 ok where ins: "inner_insert n key v = (n1, ok)" by force
  have room: "inner_required_len key \<le> unat (remaining_size (in_meta n))" and len: "length key \<le> 60000"
    using 2(4,5) by auto
  note sp = inner_insert_spec [OF 2(2) len room, of v, unfolded ins fst_conv snd_conv]
  have fresh: "key \<notin> fst ` set (inner_view n)" using 2(3) by (auto simp: sorted_wrt_append)
  have up: "upsert key v (inner_view n) = inner_view n @ [(key, v)]"
    using 2(3) by (intro upsert_append_last) (auto simp: sorted_wrt_append)
  have "build_insert n1 ps = Some (inner_insert_pairs n1 ps) \<and> inner_wf (inner_insert_pairs n1 ps) \<and>
    inner_view (inner_insert_pairs n1 ps) = inner_view n1 @ ps \<and>
    inner_left (inner_insert_pairs n1 ps) = inner_left n1 \<and>
    same_flags (in_meta n1) (in_meta (inner_insert_pairs n1 ps)) \<and>
    in_snapshot_version (inner_insert_pairs n1 ps) = in_snapshot_version n1 \<and>
    disk_offset (inner_insert_pairs n1 ps) = disk_offset n1 \<and>
    version_lock (inner_insert_pairs n1 ps) = version_lock n1"
    using 2(1) [unfolded ins fst_conv] sp 2(3-5) up fresh by simp
  then show ?case using sp up ins by (simp add: same_flags_def)
qed

text \<open>
  Consolidation needs less than well-formedness: readable pairs in ascending order that fit a
  fresh node. This is the state \<^verbatim>\<open>split\<close> leaves the left half in.
\<close>

lemma version_and_root:
  assumes "v AND INNER_NODE_ROOT_FLAG = 0"
  shows "inner_set_snapshot_version n v = Some (n\<lparr>in_snapshot_version := v OR (in_snapshot_version n AND INNER_NODE_ROOT_FLAG)\<rparr>)"
proof -
  have "INNER_NODE_SNAPSHOT_VERSION_MASK = NOT INNER_NODE_ROOT_FLAG"
    by (simp add: INNER_NODE_SNAPSHOT_VERSION_MASK_def INNER_NODE_ROOT_FLAG_def)
  moreover have "v AND NOT INNER_NODE_ROOT_FLAG = v"
    using assms by (auto simp: bit_eq_iff bit_simps)
  ultimately show ?thesis using assms by (simp add: inner_set_snapshot_version_def Let_def)
qed

lemma inner_cong:
  assumes "in_meta n' = in_meta n" "in_data n' = in_data n"
  shows "inner_wf n' = inner_wf n" "inner_view n' = inner_view n" "inner_left n' = inner_left n"
  using assms by (simp_all add: inner_wf_def inner_view_def inner_left_def inner_entries_def inner_metas_def)

lemma inner_consolidate_spec:
  assumes len: "length (in_data n) = 4064" and v: "v AND INNER_NODE_ROOT_FLAG = 0"
    and asc: "ascending (map fst (inner_view n))" and cost: "inner_cost (inner_view n) \<le> 4048"
    and klen: "\<forall>p\<in>set (inner_view n). length (fst p) \<le> 60000" and c: "1 \<le> slot_count (in_meta n)"
  obtains n' where "inner_consolidate n v = Some n'" "inner_wf n'" "inner_view n' = inner_view n"
    and "inner_left n' = inner_left n" "children_is_leaf (in_meta n') = children_is_leaf (in_meta n)"
    and "disk_offset n' = disk_offset n" "version_lock n' = version_lock n"
    and "in_snapshot_version n' = v OR (in_snapshot_version n AND INNER_NODE_ROOT_FLAG)"
proof -
  obtain n1 where n1: "inner_reinitialize n (inner_left n) (children_is_leaf (in_meta n)) (disk_offset n) = Some n1"
    and w1: "inner_wf n1" "inner_view n1 = []" "inner_left n1 = inner_left n"
      "children_is_leaf (in_meta n1) = children_is_leaf (in_meta n)"
      "unat (remaining_size (in_meta n1)) = 4048"
      "disk_offset n1 = disk_offset n" "in_snapshot_version n1 = in_snapshot_version n"
      "version_lock n1 = version_lock n"
    by (rule inner_reinitialize_spec [OF len, of "inner_left n" "children_is_leaf (in_meta n)" "disk_offset n"])
  define n2 where "n2 = n1\<lparr>in_snapshot_version := v OR (in_snapshot_version n1 AND INNER_NODE_ROOT_FLAG)\<rparr>"
  have n2: "in_meta n2 = in_meta n1" "in_data n2 = in_data n1" by (simp_all add: n2_def)
  note i = inner_insert_pairs_spec [of n2 "inner_view n", unfolded inner_cong [OF n2] w1 n2(1)]
  have "inner_consolidate n v = Some (inner_insert_pairs n2 (inner_view n))"
    using n1 version_and_root [OF v, of n1] c
    by (simp add: inner_consolidate_def inner_left_eq inner_view_pairs n2_def)
  then show thesis
    using that [of "inner_insert_pairs n2 (inner_view n)"] i asc cost klen w1 n2(1)
    by (simp add: same_flags_def) (simp add: n2_def w1)
qed

text \<open>The child found by the search is the route of the key.\<close>

lemma inner_lookup_at:
  assumes "inner_wf n"
  shows "route (inner_left n) (inner_view n) key =
    inner_get_value n (inner_get_kv_meta n (inner_lower_bound n key))"
proof -
  let ?p = "inner_lower_bound n key"
  have p: "?p < slot_count (in_meta n)" by (rule inner_lower_bound_spec(1) [OF assms])
  have "route (inner_left n) (inner_view n) key =
      (if ?p = 0 then inner_left n else snd (inner_view n ! (?p - 1)))"
  proof (rule route_nth)
    show "fst (inner_view n ! i) \<le> key" if "i < ?p" for i
      using inner_lower_bound_spec(2) [OF assms, where i = "i + 1" and key = key] that p by (simp add: nth_inner_view)
    show "key < fst (inner_view n ! ?p)" if "?p < length (inner_view n)"
      using inner_lower_bound_spec(3) [OF assms, where i = "?p + 1" and key = key] that by (simp add: nth_inner_view)
  qed (use p in simp)
  then show ?thesis
    using p by (auto simp: inner_left_eq nth_inner_view inner_pair_def)
qed

section \<open>Building and splitting\<close>

lemma add_records_eq:
  "add_records b ps = b\<lparr>b_records := b_records b @ ps\<rparr>"
  by (induction b ps rule: add_records.induct) (simp_all add: add_record_def)

lemma builder_build_spec:
  assumes "left_most_page_id b = Some left" "b_children_is_leaf b = Some is_leaf"
    and len: "length (in_data (b_raw b)) = 4064" and v: "v AND INNER_NODE_ROOT_FLAG = 0"
    and asc: "ascending (map fst (b_records b))" and cost: "inner_cost (b_records b) \<le> 4048"
    and klen: "\<forall>p\<in>set (b_records b). length (fst p) \<le> 60000"
  obtains n where "builder_build b v = Some n" "inner_wf n" "inner_view n = b_records b"
    and "inner_left n = left" "children_is_leaf (in_meta n) = is_leaf" "in_snapshot_version n = v"
    and "\<not> is_root n" "version_lock n = 0"
proof -
  let ?raw = "(b_raw b)\<lparr>version_lock := 0, in_snapshot_version := 0\<rparr>"
  let ?off = "case b_disk_offset b of Some x \<Rightarrow> x | None \<Rightarrow> INVALID_DISK_OFFSET"
  obtain n1 where n1: "inner_reinitialize ?raw left is_leaf ?off = Some n1"
    and w1: "inner_wf n1" "inner_view n1 = []" "inner_left n1 = left"
      "children_is_leaf (in_meta n1) = is_leaf" "unat (remaining_size (in_meta n1)) = 4048"
      "in_snapshot_version n1 = 0" "version_lock n1 = 0"
    by (rule inner_reinitialize_spec [of ?raw left is_leaf ?off]) (use len in simp_all)
  let ?n2 = "inner_insert_pairs n1 (b_records b)"
  have i: "build_insert n1 (b_records b) = Some ?n2 \<and> inner_wf ?n2 \<and> inner_view ?n2 = b_records b \<and>
    inner_left ?n2 = left \<and> same_flags (in_meta n1) (in_meta ?n2) \<and> in_snapshot_version ?n2 = 0 \<and>
    version_lock ?n2 = 0"
    using inner_insert_pairs_spec [OF w1(1), of "b_records b"] w1 asc cost klen by simp
  let ?n = "?n2\<lparr>in_snapshot_version := v\<rparr>"
  have "builder_build b v = Some ?n"
    using n1 i assms(1,2) version_and_root [OF v, of ?n2] by (simp add: builder_build_def)
  then show thesis
    using that [of ?n] i w1(4) v inner_cong [of ?n ?n2] by (simp add: same_flags_def is_root_def)
qed

text \<open>
  The halves of a node: \<open>k\<close> slots stay, the separator after them moves up, and the rest go
  to the new node.
\<close>

lemma inner_split_parts:
  assumes "2 \<le> slot_count (in_meta n)"
  defines "c \<equiv> slot_count (in_meta n)"
  defines "k \<equiv> c - c div 2"
  defines "n1 \<equiv> n\<lparr>in_meta := set_value_count (in_meta n) (of_nat k)\<rparr>"
  shows "inner_view n = inner_view n1 @ inner_pair n k # map (\<lambda>i. inner_pair n (k + i)) [1..<c div 2]"
    and "slot_count (in_meta n1) = k" "inner_left n1 = inner_left n"
    and "children_is_leaf (in_meta n1) = children_is_leaf (in_meta n)"
proof -
  have k: "1 \<le> k" "k < c" "c = k + c div 2" "k < 4096"
    using assms(1) slot_count_less [of "in_meta n"] by (auto simp: k_def c_def)
  have uk: "unat (of_nat k :: u16) = k" using k(4) by (simp add: unat_of_nat_nowrap)
  note sv = set_value_count_laws [of "of_nat k" "in_meta n", unfolded uk, OF k(4)]
  show c1: "slot_count (in_meta n1) = k" using sv(1) uk by (simp add: n1_def)
  show "children_is_leaf (in_meta n1) = children_is_leaf (in_meta n)"
    using sv(2) by (simp add: n1_def same_flags_def)
  have same: "inner_pair n1 i = inner_pair n i" for i
    by (simp add: n1_def inner_pair_def inner_get_full_key_def inner_get_post_key_ref_def
        inner_get_value_def inner_get_kv_meta_def)
  then show "inner_left n1 = inner_left n"
    using k c1 by (simp add: inner_left_eq c_def [symmetric]) (simp add: inner_pair_def)
  have "[1..<c] = [1..<k] @ k # [k + 1..<c]"
    using k upt_add_eq_append [of 1 k "c - k"] upt_conv_Cons [of k c] by simp
  moreover have "[k + 1..<c] = map ((+) k) [1..<c div 2]"
    by (rule nth_equalityI) (use k(3) in auto)
  ultimately show "inner_view n = inner_view n1 @ inner_pair n k # map (\<lambda>i. inner_pair n (k + i)) [1..<c div 2]"
    by (simp add: inner_view_pairs c1 same c_def [symmetric] comp_def)
qed

lemma inner_split_spec:
  assumes wf: "inner_wf n" and c: "2 \<le> slot_count (in_meta n)" and v: "v AND INNER_NODE_ROOT_FLAG = 0"
    and fresh: "b_records b = []"
  obtains n' b' sk child where "inner_split n b v = Some (n', b', sk)" "inner_wf n'"
    and "inner_view n = inner_view n' @ (sk, child) # b_records b'" "inner_left n' = inner_left n"
    and "children_is_leaf (in_meta n') = children_is_leaf (in_meta n)"
    and "b' = b\<lparr>left_most_page_id := Some child,
           b_children_is_leaf := Some (children_is_leaf (in_meta n)), b_records := b_records b'\<rparr>"
proof -
  define k where "k = slot_count (in_meta n) - slot_count (in_meta n) div 2"
  define n1 where "n1 = n\<lparr>in_meta := set_value_count (in_meta n) (of_nat k)\<rparr>"
  define rs where "rs = map (\<lambda>i. inner_pair n (k + i)) [1..<slot_count (in_meta n) div 2]"
  note parts = inner_split_parts [OF c, folded k_def, folded n1_def rs_def]
  obtain sk child where pk: "inner_pair n k = (sk, child)" by force
  have len1: "length (in_data n1) = 4064" using inner_wfD(1) [OF wf] by (simp add: n1_def)
  have asc1: "ascending (map fst (inner_view n1))" and cost1: "inner_cost (inner_view n1) \<le> 4048"
    using inner_wfD(5) [OF wf] inner_accounting [OF wf] by (simp_all add: parts(1) sorted_wrt_append)
  then have klen1: "\<forall>p\<in>set (inner_view n1). length (fst p) \<le> 60000"
    using inner_cost_key [of _ "inner_view n1"] by fastforce
  obtain n' where n': "inner_consolidate n1 v = Some n'" "inner_wf n'" "inner_view n' = inner_view n1"
    "inner_left n' = inner_left n1" "children_is_leaf (in_meta n') = children_is_leaf (in_meta n1)"
    by (rule inner_consolidate_spec [OF len1 v asc1 cost1 klen1]) (use c parts(2) k_def in simp_all)
  let ?b' = "b\<lparr>left_most_page_id := Some child,
    b_children_is_leaf := Some (children_is_leaf (in_meta n)), b_records := rs\<rparr>"
  have "inner_split n b v = Some (n', ?b', sk)"
    using n'(1) fresh
    unfolding inner_split_def Let_def k_def [symmetric] pk n1_def [symmetric] rs_def [symmetric]
    by (simp add: add_records_eq set_left_most_page_id_def builder_set_children_is_leaf_def)
  then show thesis using that [of n' ?b' sk child] n' parts pk by simp
qed

section \<open>Properties\<close>

text \<open>Concrete nodes for the witnesses: a fresh node, and one with three separators.\<close>

definition inner_blank :: inner_node where
  "inner_blank = \<lparr>in_meta = \<lparr>encoded = 0, node_size = 0, remaining_size = 0\<rparr>, version_lock = 0,
     disk_offset = 0, in_snapshot_version = 0, in_data = replicate 4064 0\<rparr>"

definition inner_fresh :: inner_node where
  "inner_fresh = the (inner_reinitialize inner_blank (from_id 1) True 0)"

definition inner_three :: inner_node where
  "inner_three =
     inner_insert_pairs inner_fresh [([10], from_id 2), ([20], from_id 3), ([30, 1, 2, 3, 4, 5], from_id 4)]"

lemma inner_fresh_spec:
  "inner_wf inner_fresh" "inner_view inner_fresh = []" "inner_left inner_fresh = from_id 1"
  "unat (remaining_size (in_meta inner_fresh)) = 4048" "in_snapshot_version inner_fresh = 0"
proof -
  have "length (in_data inner_blank) = 4064" by (simp add: inner_blank_def)
  then obtain n where n: "inner_reinitialize inner_blank (from_id 1) True 0 = Some n" "inner_wf n"
    "inner_view n = []" "inner_left n = from_id 1" "unat (remaining_size (in_meta n)) = 4048"
    "in_snapshot_version n = in_snapshot_version inner_blank"
    using inner_reinitialize_spec by blast
  then show "inner_wf inner_fresh" "inner_view inner_fresh = []" "inner_left inner_fresh = from_id 1"
    "unat (remaining_size (in_meta inner_fresh)) = 4048" "in_snapshot_version inner_fresh = 0"
    by (simp_all add: inner_fresh_def inner_blank_def)
qed

lemma inner_three_spec:
  "inner_wf inner_three" "inner_left inner_three = from_id 1" "in_snapshot_version inner_three = 0"
  "inner_view inner_three = [([10], from_id 2), ([20], from_id 3), ([30, 1, 2, 3, 4, 5], from_id 4)]"
  "slot_count (in_meta inner_three) = 4"
proof -
  let ?ps = "[([10], from_id 2), ([20], from_id 3), ([30, 1, 2, 3, 4, 5], from_id 4)]"
  have *: "inner_wf inner_three \<and> inner_left inner_three = from_id 1 \<and> in_snapshot_version inner_three = 0 \<and>
    inner_view inner_three = ?ps"
    using inner_insert_pairs_spec [of inner_fresh ?ps]
    by (simp add: inner_fresh_spec inner_three_def inner_required_len_eq)
  then show "inner_wf inner_three" "inner_left inner_three = from_id 1" "in_snapshot_version inner_three = 0"
    "inner_view inner_three = ?ps" by simp_all
  with inner_wfD(2) [of inner_three] show "slot_count (in_meta inner_three) = 4"
    using length_inner_view [of inner_three] by simp
qed

text \<open>
  C13: \<^verbatim>\<open>InnerNode::insert\<close> is the upsert of a sorted separator list, on every branch. It
  answers true exactly when \<^verbatim>\<open>have_space_for\<close> does; then the node stays well-formed, its
  separators are the old ones with the key bound to the child, and the leftmost child and the
  header flags are unchanged. Otherwise the node is untouched.
\<close>

theorem inner_insert_upsert:
  assumes "inner_wf n" "length key \<le> MAX_KEY_LEN"
  shows "case inner_insert n key child of (n', ok) \<Rightarrow>
    ok = have_space_for n key \<and>
    (if ok then inner_wf n' \<and> inner_view n' = upsert key child (inner_view n) \<and>
       inner_left n' = inner_left n \<and> same_flags (in_meta n) (in_meta n')
     else n' = n)"
proof -
  have len: "length key \<le> 60000" using assms(2) by (simp add: MAX_KEY_LEN_def)
  have sp: "have_space_for n key \<longleftrightarrow> inner_required_len key \<le> unat (remaining_size (in_meta n))"
    using room_word [OF len, of "in_meta n"] by (auto simp: have_space_for_def)
  show ?thesis
  proof (cases "have_space_for n key")
    case True
    then show ?thesis
      using inner_insert_spec(1-5) [OF assms(1) len, of child] sp by (simp add: case_prod_beta)
  next
    case False
    then show ?thesis using inner_insert_cases [OF assms(1) len, of child] sp by simp
  qed
qed

theorem inner_insert_upsert_witness:
  "inner_wf inner_three \<and> have_space_for inner_three [15, 7] \<and> snd (inner_insert inner_three [15, 7] (from_id 9)) \<and>
   map fst (inner_view (fst (inner_insert inner_three [15, 7] (from_id 9)))) =
     [[10], [15, 7], [20], [30, 1, 2, 3, 4, 5]]"
proof -
  have "unat (remaining_size (in_meta inner_three)) = 3998"
    using inner_accounting [OF inner_three_spec(1)] by (simp add: inner_three_spec inner_required_len_eq)
  then have "have_space_for inner_three [15, 7]"
    using room_word [of "[15, 7]" "in_meta inner_three"]
    by (simp add: have_space_for_def inner_required_len_eq not_less [symmetric])
  then show ?thesis
    using inner_insert_upsert [OF inner_three_spec(1), of "[15, 7]" "from_id 9"]
    by (simp add: inner_three_spec case_prod_beta MAX_KEY_LEN_def)
qed

text \<open>
  C14: an inner node routes every key correctly. The child that \<^verbatim>\<open>lower_bound\<close> selects, by binary
  search over the four-byte heads and the tails of the keys, is the child of the last separator
  that is not above the key, or the leftmost child when there is none.
\<close>

theorem inner_lookup_routes:
  assumes "inner_wf n"
  shows "inner_get_value n (inner_get_kv_meta n (inner_lower_bound n key)) =
    route (inner_left n) (inner_view n) key"
  using inner_lookup_at [OF assms] by simp

theorem inner_lookup_routes_witness:
  "inner_wf inner_three \<and>
   inner_get_value inner_three (inner_get_kv_meta inner_three (inner_lower_bound inner_three [25])) = from_id 3"
  using inner_lookup_routes [OF inner_three_spec(1), of "[25]"] by (simp add: inner_three_spec)

text \<open>
  C8: splitting an inner node loses no key and no child. For a node with a separator to move up,
  \<^verbatim>\<open>split\<close> succeeds, both halves are well-formed (building the sibling from the filled builder
  does not fail), and for every key the old node's route is the left half's below the separator
  and the sibling's from the separator on.
\<close>

theorem inner_split_routes:
  assumes "inner_wf n" "2 \<le> slot_count (in_meta n)" "v AND INNER_NODE_ROOT_FLAG = 0"
    and "b_records b = []" "length (in_data (b_raw b)) = 4064"
  shows "\<exists>n' b' sk r. inner_split n b v = Some (n', b', sk) \<and> builder_build b' v = Some r \<and>
    inner_wf n' \<and> inner_wf r \<and> sk = inner_get_split_key n \<and>
    (\<forall>key. route (inner_left n) (inner_view n) key =
      (if key < sk then route (inner_left n') (inner_view n') key
       else route (inner_left r) (inner_view r) key))"
proof -
  obtain n' b' sk child where s: "inner_split n b v = Some (n', b', sk)" "inner_wf n'"
      "inner_view n = inner_view n' @ (sk, child) # b_records b'" "inner_left n' = inner_left n"
    and b': "b' = b\<lparr>left_most_page_id := Some child,
      b_children_is_leaf := Some (children_is_leaf (in_meta n)), b_records := b_records b'\<rparr>"
    by (rule inner_split_spec [OF assms(1-4)])
  have f: "left_most_page_id b' = Some child" "b_children_is_leaf b' = Some (children_is_leaf (in_meta n))"
    "b_raw b' = b_raw b"
    by (subst b', simp)+
  have asc: "ascending (map fst (inner_view n))" by (rule inner_wfD(5) [OF assms(1)])
  have asc': "ascending (map fst (b_records b'))" and cost: "inner_cost (b_records b') \<le> 4048"
    using asc inner_accounting [OF assms(1)] by (simp_all add: s(3) sorted_wrt_append)
  then have "\<forall>p\<in>set (b_records b'). length (fst p) \<le> 60000"
    using inner_cost_key [of _ "b_records b'"] by fastforce
  then obtain r where r: "builder_build b' v = Some r" "inner_wf r" "inner_view r = b_records b'" "inner_left r = child"
    using builder_build_spec [OF f(1,2) _ assms(3) asc' cost] f(3) assms(5) by metis
  moreover have "sk = inner_get_split_key n"
    using s(1) by (auto simp: inner_split_def inner_get_split_key_def inner_pair_def Let_def bind_eq_Some_conv)
  ultimately show ?thesis
    using s asc route_append [of "inner_view n'" sk child "b_records b'"] by auto
qed

theorem inner_split_routes_witness:
  "inner_wf inner_three \<and> 2 \<le> slot_count (in_meta inner_three) \<and>
   (\<exists>n' b' r. inner_split inner_three (builder_new inner_blank) 7 = Some (n', b', [20]) \<and>
      builder_build b' 7 = Some r \<and> route (inner_left r) (inner_view r) [30] = from_id 3 \<and>
      route (inner_left n') (inner_view n') [12] = from_id 2)"
proof -
  have "inner_get_split_key inner_three = fst (inner_view inner_three ! 1)"
    using nth_inner_view [of 1 inner_three]
    by (simp add: inner_get_split_key_def Let_def inner_three_spec(5) inner_pair_def del: One_nat_def)
  then have sk: "inner_get_split_key inner_three = [20]" by (simp add: inner_three_spec)
  obtain n' b' r where "inner_split inner_three (builder_new inner_blank) 7 = Some (n', b', [20])"
    "builder_build b' 7 = Some r"
    "\<forall>key. route (inner_left inner_three) (inner_view inner_three) key =
      (if key < [20] then route (inner_left n') (inner_view n') key
       else route (inner_left r) (inner_view r) key)"
    using inner_split_routes [OF inner_three_spec(1), of 7 "builder_new inner_blank"] sk
    by (auto simp: inner_three_spec(5) INNER_NODE_ROOT_FLAG_def builder_new_def inner_blank_def)
  moreover from this(3) [rule_format, of "[30]"] this(3) [rule_format, of "[12]"]
  have "route (inner_left r) (inner_view r) [30] = from_id 3" "route (inner_left n') (inner_view n') [12] = from_id 2"
    by (simp_all add: inner_three_spec)
  ultimately show ?thesis by (auto simp: inner_three_spec)
qed

text \<open>
  The root flag and the snapshot version share one word without interfering. Setting the root
  flag keeps the version; setting a version keeps the root flag and reads back, and is refused
  exactly when the version would spill into the flag.
\<close>

theorem version_root_independent:
  "is_root (set_root n f) = f \<and>
   inner_get_clean_snapshot_version (set_root n f) = inner_get_clean_snapshot_version n \<and>
   (case inner_set_snapshot_version n v of
      None \<Rightarrow> v AND INNER_NODE_ROOT_FLAG \<noteq> 0
    | Some n' \<Rightarrow> v AND INNER_NODE_ROOT_FLAG = 0 \<and> inner_get_clean_snapshot_version n' = v \<and>
        is_root n' = is_root n)"
proof -
  have flag: "bit INNER_NODE_ROOT_FLAG k = (k = 63)" for k
    unfolding INNER_NODE_ROOT_FLAG_def using page_bits(2) [of k] by (simp add: ROOT_IS_LEAF_MASK_def)
  have zero: "(w AND INNER_NODE_ROOT_FLAG = 0) = (\<not> bit w 63)" for w
    unfolding INNER_NODE_ROOT_FLAG_def using page_bits(4) [of w] by (simp add: ROOT_IS_LEAF_MASK_def)
  have not: "INNER_NODE_SNAPSHOT_VERSION_MASK = NOT INNER_NODE_ROOT_FLAG"
    by (simp add: INNER_NODE_SNAPSHOT_VERSION_MASK_def INNER_NODE_ROOT_FLAG_def)
  have mask: "bit INNER_NODE_SNAPSHOT_VERSION_MASK k = (k < 64 \<and> k \<noteq> 63)" for k
    unfolding not by (auto simp: bit_simps flag)
  have "is_root (set_root n f) = f"
    by (auto simp: is_root_def set_root_def zero bit_simps flag mask)
  moreover have "inner_get_clean_snapshot_version (set_root n f) = inner_get_clean_snapshot_version n"
    by (auto simp: inner_get_clean_snapshot_version_def set_root_def bit_simps flag mask intro!: bit_word_eqI)
  moreover have "(v AND INNER_NODE_SNAPSHOT_VERSION_MASK OR in_snapshot_version n AND INNER_NODE_ROOT_FLAG) AND
      INNER_NODE_SNAPSHOT_VERSION_MASK = v" if "\<not> bit v 63"
    using that by (intro bit_word_eqI) (auto simp: bit_simps flag mask)
  ultimately show ?thesis
    by (auto simp: inner_set_snapshot_version_def Let_def zero inner_get_clean_snapshot_version_def
        is_root_def bit_simps flag mask)
qed

text \<open>
  \<^verbatim>\<open>update\<close> redirects exactly one child. Given a page number, it succeeds, keeps the
  node well-formed and every key in place, replaces the child the key is routed to and no other;
  given a pointer, it fails.
\<close>

theorem inner_update_redirects:
  assumes "inner_wf n"
  shows "case inner_update n key new_id of
      None \<Rightarrow> is_inner_node_pointer new_id
    | Some n' \<Rightarrow> \<not> is_inner_node_pointer new_id \<and> inner_wf n' \<and> inner_keys n' = inner_keys n \<and>
        inner_children n' = (inner_children n)[inner_lower_bound n key := new_id] \<and>
        route (inner_left n') (inner_view n') key = new_id"
proof (cases "is_inner_node_pointer new_id")
  case True
  then show ?thesis by (simp add: inner_update_def)
next
  case False
  let ?p = "inner_lower_bound n key" and ?c = "slot_count (in_meta n)"
  define n' where "n' = inner_update_at_pos n ?p new_id"
  have p: "?p < ?c" by (rule inner_lower_bound_spec(1) [OF assms])
  note u = inner_update_at_pos_spec [OF assms p, of new_id, folded n'_def]
  have e: "map (inner_pair m) [0..<slot_count (in_meta m)] = inner_entries m" for m
    by (rule nth_equalityI) (simp_all add: nth_inner_entries)
  have proj: "inner_keys m = map fst (inner_entries m)" "inner_children m = map snd (inner_entries m)" for m
    by (simp_all add: inner_keys_def inner_children_def inner_pair_def flip: e)
  have keys: "inner_keys n' = inner_keys n" and ch: "inner_children n' = (inner_children n)[?p := new_id]"
    using p by (auto simp: proj u(3) map_update list_update_same_conv nth_inner_entries)
  have "inner_search_compare n' k (inner_get_kv_meta n' i) = inner_search_compare n k (inner_get_kv_meta n i)"
    if "i < ?c" for k i
    using arg_cong [OF keys, of "\<lambda>xs. xs ! i"] that u(2)
    by (simp add: inner_keys_def inner_search_compare_full)
  then have "bsearch (\<lambda>i. inner_search_compare n' key (inner_get_kv_meta n' i)) 1 ?c =
      bsearch (\<lambda>i. inner_search_compare n key (inner_get_kv_meta n i)) 1 ?c"
    by (intro bsearch_cong)
  then have "inner_lower_bound n' key = ?p"
    unfolding inner_lower_bound_def u(2) by simp
  then have "route (inner_left n') (inner_view n') key = inner_children n' ! ?p"
    using inner_lookup_at [OF u(1), of key] p u(2) by (simp add: inner_children_def)
  then show ?thesis
    using False u(1) keys ch p by (simp add: inner_update_def n'_def inner_children_def)
qed

theorem inner_update_redirects_witness:
  "inner_wf inner_three \<and>
   (case inner_update inner_three [25] (from_id 77) of None \<Rightarrow> False
    | Some n' \<Rightarrow> inner_wf n' \<and> route (inner_left n') (inner_view n') [25] = from_id 77)"
  using inner_update_redirects [OF inner_three_spec(1), where key = "[25]" and new_id = "from_id 77"] from_id_as_id(3) [of 77]
  by (auto simp: inner_three_spec split: option.splits)

end
