(* ===== verification/Leaf_Meta.thy ===== *)
theory Leaf_Meta
  imports Node_Meta Slotted_Page
begin

text \<open>
  The slot of a leaf record, \<^verbatim>\<open>LeafKVMeta\<close> (src/src/nodes/leaf_node.rs): the record's offset, a
  word that packs the operation type over a 14-bit key length, a word that packs the reference
  bit over a 15-bit value length, and a two-byte preview of the key after the node's prefix.
\<close>

section \<open>Operation types\<close>

datatype op_type = Insert | Delete | Cache | PhantomOp

fun is_dirty :: "op_type \<Rightarrow> bool" where
  "is_dirty Insert = True"
| "is_dirty Delete = True"
| "is_dirty Cache = False"
| "is_dirty PhantomOp = False"

fun is_absent :: "op_type \<Rightarrow> bool" where
  "is_absent Insert = False"
| "is_absent Cache = False"
| "is_absent PhantomOp = True"
| "is_absent Delete = True"

fun is_cache :: "op_type \<Rightarrow> bool" where
  "is_cache Cache = True"
| "is_cache PhantomOp = True"
| "is_cache Insert = False"
| "is_cache Delete = False"

text \<open>The \<^verbatim>\<open>repr(u8)\<close> discriminant and the \<^verbatim>\<open>transmute\<close> back from two bits.\<close>

fun op_type_code :: "op_type \<Rightarrow> nat" where
  "op_type_code Insert = 0"
| "op_type_code Delete = 1"
| "op_type_code Cache = 2"
| "op_type_code PhantomOp = 3"

definition op_type_of_code :: "nat \<Rightarrow> op_type" where
  "op_type_of_code b =
     (if b = 0 then Insert else if b = 1 then Delete else if b = 2 then Cache else PhantomOp)"

lemma op_type_of_code_code [simp]: "op_type_of_code (op_type_code t) = t"
  by (cases t) (simp_all add: op_type_of_code_def)

lemma op_type_code_less: "op_type_code t < 4"
  by (cases t) simp_all

section \<open>The slot\<close>

definition PREVIEW_SIZE :: nat where "PREVIEW_SIZE = 2"
definition OP_TYPE_SHIFT :: nat where "OP_TYPE_SHIFT = 14"
definition KEY_LEN_MASK :: u16 where "KEY_LEN_MASK = 0x3FFF"
definition REF_BIT_MASK :: u16 where "REF_BIT_MASK = 0x8000"
definition VALUE_LEN_MASK :: u16 where "VALUE_LEN_MASK = 0x7FFF"

record leaf_kv_meta =
  lk_offset :: u16
  op_type_key_len_in_byte :: u16
  ref_value_len_in_byte :: u16
  preview_bytes :: "u8 \<times> u8"

definition clear_ref :: "leaf_kv_meta \<Rightarrow> leaf_kv_meta" where
  "clear_ref m = m\<lparr>ref_value_len_in_byte := ref_value_len_in_byte m AND NOT REF_BIT_MASK\<rparr>"

definition mark_as_ref :: "leaf_kv_meta \<Rightarrow> leaf_kv_meta" where
  "mark_as_ref m = m\<lparr>ref_value_len_in_byte := ref_value_len_in_byte m OR REF_BIT_MASK\<rparr>"

definition is_referenced :: "leaf_kv_meta \<Rightarrow> bool" where
  "is_referenced m = (ref_value_len_in_byte m AND REF_BIT_MASK \<noteq> 0)"

definition op_bits :: "op_type \<Rightarrow> u16" where
  "op_bits t = push_bit OP_TYPE_SHIFT (of_nat (op_type_code t))"

text \<open>The preview loop: the first bytes after the prefix, zeros where the key is shorter.\<close>

definition preview_of :: "bytes \<Rightarrow> u8 \<times> u8" where
  "preview_of s = (if 0 < length s then s ! 0 else 0, if 1 < length s then s ! 1 else 0)"

definition leaf_make_prefixed_meta :: "u16 \<Rightarrow> u16 \<Rightarrow> bytes \<Rightarrow> u16 \<Rightarrow> op_type \<Rightarrow> leaf_kv_meta" where
  "leaf_make_prefixed_meta offset value_len key prefix_len t =
     clear_ref
       \<lparr>lk_offset = offset,
        op_type_key_len_in_byte = of_nat (length key) OR op_bits t,
        ref_value_len_in_byte = value_len,
        preview_bytes = preview_of (drop (unat prefix_len) key)\<rparr>"

definition make_infinite_high_fence_key :: leaf_kv_meta where
  "make_infinite_high_fence_key =
     \<lparr>lk_offset = -1, op_type_key_len_in_byte = 0, ref_value_len_in_byte = 0, preview_bytes = (0, 0)\<rparr>"

definition make_infinite_low_fence_key :: leaf_kv_meta where
  "make_infinite_low_fence_key =
     \<lparr>lk_offset = -1 - 1, op_type_key_len_in_byte = 0, ref_value_len_in_byte = 0, preview_bytes = (0, 0)\<rparr>"

definition is_infinite_low_fence_key :: "leaf_kv_meta \<Rightarrow> bool" where
  "is_infinite_low_fence_key m = (lk_offset m = -1 - 1)"

definition is_infinite_high_fence_key :: "leaf_kv_meta \<Rightarrow> bool" where
  "is_infinite_high_fence_key m = (lk_offset m = -1)"

definition value_len :: "leaf_kv_meta \<Rightarrow> u16" where
  "value_len m = ref_value_len_in_byte m AND VALUE_LEN_MASK"

definition set_value_len :: "leaf_kv_meta \<Rightarrow> u16 \<Rightarrow> leaf_kv_meta" where
  "set_value_len m v =
     m\<lparr>ref_value_len_in_byte :=
         (ref_value_len_in_byte m AND NOT VALUE_LEN_MASK) OR (v AND VALUE_LEN_MASK)\<rparr>"

definition get_key_len :: "leaf_kv_meta \<Rightarrow> u16" where
  "get_key_len m = op_type_key_len_in_byte m AND KEY_LEN_MASK"

definition set_op_type :: "leaf_kv_meta \<Rightarrow> op_type \<Rightarrow> leaf_kv_meta" where
  "set_op_type m t = m\<lparr>op_type_key_len_in_byte := get_key_len m OR op_bits t\<rparr>"

definition meta_op_type :: "leaf_kv_meta \<Rightarrow> op_type" where
  "meta_op_type m = op_type_of_code (unat (drop_bit OP_TYPE_SHIFT (op_type_key_len_in_byte m)))"

definition mark_as_deleted :: "leaf_kv_meta \<Rightarrow> leaf_kv_meta" where
  "mark_as_deleted m = set_op_type m Delete"

definition is_deleted :: "leaf_kv_meta \<Rightarrow> bool" where
  "is_deleted m = (meta_op_type m = Delete)"

text \<open>\<^verbatim>\<open>repr(C)\<close> layout: three \<^verbatim>\<open>u16\<close> and the two preview bytes.\<close>

definition leaf_meta_enc :: "leaf_kv_meta \<Rightarrow> bytes" where
  "leaf_meta_enc m =
     u16_to_le_bytes (lk_offset m) @ u16_to_le_bytes (op_type_key_len_in_byte m) @
     u16_to_le_bytes (ref_value_len_in_byte m) @ [fst (preview_bytes m), snd (preview_bytes m)]"

definition leaf_meta_dec :: "bytes \<Rightarrow> leaf_kv_meta" where
  "leaf_meta_dec bs =
     \<lparr>lk_offset = u16_from_le_bytes (take 2 bs),
      op_type_key_len_in_byte = u16_from_le_bytes (read_at 2 2 bs),
      ref_value_len_in_byte = u16_from_le_bytes (read_at 4 2 bs),
      preview_bytes = (bs ! 6, bs ! 7)\<rparr>"

interpretation leaf_slot: slot_codec leaf_meta_enc leaf_meta_dec
proof
  show "length (leaf_meta_enc m) = 8" for m
    by (simp add: leaf_meta_enc_def)
  show "leaf_meta_dec (leaf_meta_enc m) = m" for m
    by (simp add: leaf_meta_dec_def leaf_meta_enc_def read_at_def nth_append)
qed

section \<open>The packed words\<close>

lemma op_key_word:
  assumes "k < 16384"
  shows "unat ((of_nat k :: u16) OR op_bits t) = k + 16384 * op_type_code t"
proof -
  have w: "(of_nat k :: u16) OR op_bits t = of_nat (k + 16384 * op_type_code t)"
  proof -
    have "take_bit 14 (of_nat k :: u16) = of_nat k"
      using assms by (intro take_bit_small) (simp add: unat_of_nat_nowrap)
    then have "i < 14" if "bit (of_nat k :: u16) i" for i using that by (metis bit_take_bit_iff)
    moreover have "14 \<le> i" if "bit (op_bits t) i" for i
      using that by (simp add: op_bits_def OP_TYPE_SHIFT_def bit_push_bit_iff)
    ultimately have "(of_nat k :: u16) AND op_bits t = 0"
      by (intro bit_word_eqI) (metis bit_0_eq bit_and_iff bot_apply bot_bool_def leD)
    then have "(of_nat k :: u16) OR op_bits t = of_nat k + op_bits t"
      by (simp add: disjunctive_add_eq_or)
    then show ?thesis by (simp add: op_bits_def OP_TYPE_SHIFT_def push_bit_eq_mult)
  qed
  show ?thesis
    unfolding w using assms op_type_code_less [of t] by (subst unat_of_nat_nowrap) auto
qed

lemma key_len_mod: "unat (get_key_len m) = unat (op_type_key_len_in_byte m) mod 16384"
proof -
  have mask: "KEY_LEN_MASK = mask 14" by (simp add: KEY_LEN_MASK_def mask_eq_exp_minus_1)
  show ?thesis
    unfolding get_key_len_def mask by (simp only: take_bit_eq_mask [symmetric] take_bit_eq_mod unat_mod) simp
qed

lemma value_len_mod: "unat (value_len m) = unat (ref_value_len_in_byte m) mod 32768"
proof -
  have mask: "VALUE_LEN_MASK = mask 15" by (simp add: VALUE_LEN_MASK_def mask_eq_exp_minus_1)
  show ?thesis
    unfolding value_len_def mask by (simp only: take_bit_eq_mask [symmetric] take_bit_eq_mod unat_mod) simp
qed

lemma op_type_div: "meta_op_type m = op_type_of_code (unat (op_type_key_len_in_byte m) div 16384)"
  by (simp add: meta_op_type_def OP_TYPE_SHIFT_def drop_bit_eq_div unat_div)

lemma packed_len_less: "unat (get_key_len m) < 16384" "unat (value_len m) < 32768"
  by (simp_all add: key_len_mod value_len_mod)

lemma value_len_ref:
  "value_len (clear_ref m) = value_len m" "value_len (mark_as_ref m) = value_len m"
proof -
  have v: "VALUE_LEN_MASK = mask 15" by (simp add: VALUE_LEN_MASK_def mask_eq_exp_minus_1)
  have r: "bit REF_BIT_MASK i = (i = 15)" for i
    unfolding REF_BIT_MASK_def using bit_exp_iff [where 'a = u16, of 15 i] by auto
  show "value_len (clear_ref m) = value_len m" "value_len (mark_as_ref m) = value_len m"
    unfolding value_len_def clear_ref_def mark_as_ref_def v
    by (auto simp: bit_simps bit_mask_iff r simp del: mask_numeral intro!: bit_word_eqI)
qed

text \<open>What each setter reads back as, and what it leaves alone.\<close>

lemma set_op_type_laws [simp]:
  "meta_op_type (set_op_type m t) = t" "get_key_len (set_op_type m t) = get_key_len m"
  "value_len (set_op_type m t) = value_len m" "lk_offset (set_op_type m t) = lk_offset m"
  "preview_bytes (set_op_type m t) = preview_bytes m"
  "is_referenced (set_op_type m t) = is_referenced m"
proof -
  have w: "unat (op_type_key_len_in_byte (set_op_type m t)) = unat (get_key_len m) + 16384 * op_type_code t"
    using op_key_word [of "unat (get_key_len m)" t] packed_len_less(1) [of m] by (simp add: set_op_type_def)
  show "meta_op_type (set_op_type m t) = t"
    using packed_len_less(1) [of m] by (simp add: op_type_div w)
  have "unat (get_key_len (set_op_type m t)) = unat (get_key_len m)"
    unfolding key_len_mod [of "set_op_type m t"] w using packed_len_less(1) [of m] by simp
  then show "get_key_len (set_op_type m t) = get_key_len m" by (simp add: word_unat_eq_iff)
qed (simp_all add: set_op_type_def value_len_def is_referenced_def)

lemma set_value_len_laws [simp]:
  "unat v < 32768 \<Longrightarrow> value_len (set_value_len m v) = v"
  "get_key_len (set_value_len m v) = get_key_len m" "meta_op_type (set_value_len m v) = meta_op_type m"
  "lk_offset (set_value_len m v) = lk_offset m" "preview_bytes (set_value_len m v) = preview_bytes m"
proof -
  have mask: "VALUE_LEN_MASK = mask 15" by (simp add: VALUE_LEN_MASK_def mask_eq_exp_minus_1)
  show "value_len (set_value_len m v) = v" if "unat v < 32768"
  proof -
    have "take_bit 15 v = v" using that by (intro take_bit_small) simp
    moreover have "value_len (set_value_len m v) = take_bit 15 v"
      unfolding value_len_def set_value_len_def mask
      by (auto simp: bit_simps bit_mask_iff simp del: mask_numeral intro!: bit_word_eqI)
    ultimately show ?thesis by simp
  qed
qed (simp_all add: set_value_len_def get_key_len_def meta_op_type_def)

lemma leaf_make_prefixed_meta_laws:
  fixes off v p :: u16 and t :: op_type
  assumes "length key < 16384"
  defines "m \<equiv> leaf_make_prefixed_meta off v key p t"
  shows "unat (get_key_len m) = length key" "meta_op_type m = t" "lk_offset m = off"
    and "preview_bytes m = preview_of (drop (unat p) key)" "\<not> is_referenced m"
    and "unat v < 32768 \<Longrightarrow> value_len m = v"
proof -
  have w: "unat (op_type_key_len_in_byte m) = length key + 16384 * op_type_code t"
    using op_key_word [OF assms(1), of t] by (simp add: m_def leaf_make_prefixed_meta_def clear_ref_def)
  show "unat (get_key_len m) = length key" "meta_op_type m = t"
    using assms(1) by (simp_all add: key_len_mod op_type_div w)
  show "lk_offset m = off" "preview_bytes m = preview_of (drop (unat p) key)"
    by (simp_all add: m_def leaf_make_prefixed_meta_def clear_ref_def)
  show "\<not> is_referenced m"
    by (simp add: m_def leaf_make_prefixed_meta_def clear_ref_def is_referenced_def and.assoc)
  show "value_len m = v" if "unat v < 32768"
  proof -
    have "unat (value_len m) = unat v"
      using that unfolding m_def leaf_make_prefixed_meta_def value_len_ref by (simp add: value_len_mod)
    then show ?thesis by (simp add: word_unat_eq_iff)
  qed
qed

lemma preview_of_take: "take (min 2 (length s)) [fst (preview_of s), snd (preview_of s)] = take 2 s"
  by (cases s rule: list.exhaust; cases "tl s") (auto simp: preview_of_def)

text \<open>The two reserved offsets lie above every page body.\<close>

lemma u16_top: "(-1 :: u16) = 65535" "(-1 - 1 :: u16) = 65534"
  by simp_all

lemma finite_offset:
  "unat (lk_offset m) \<le> 32736 \<Longrightarrow> \<not> is_infinite_low_fence_key m \<and> \<not> is_infinite_high_fence_key m"
  unfolding is_infinite_low_fence_key_def is_infinite_high_fence_key_def u16_top by auto

end
