(* ===== verification/Leaf_Node.thy ===== *)
theory Leaf_Node
  imports Leaf_Meta
begin

text \<open>
  Leaf nodes (src/src/nodes/leaf_node.rs): base pages, with two fence keys and their common prefix
  stripped from every record, and mini-pages, without fences. This theory has the node, its
  initialisation, search, insertion and point read, down to the bytes of the page body.
\<close>

section \<open>The node\<close>

datatype mini_page_next_level = MiniPageNextLevel (next_val: u64)

definition next_level_null :: mini_page_next_level where
  "next_level_null = MiniPageNextLevel (-1)"

definition next_level_is_null :: "mini_page_next_level \<Rightarrow> bool" where
  "next_level_is_null l = (next_val l = -1)"

definition next_level_as_offset :: "mini_page_next_level \<Rightarrow> u64 option" where
  "next_level_as_offset l = (if next_level_is_null l then None else Some (next_val l))"

record leaf_node =
  lf_meta :: node_meta
  prefix_len :: u16
  next_level :: mini_page_next_level
  lsn :: u64
  lf_snapshot_version :: u64
  lf_data :: bytes

definition LOW_FENCE_IDX :: nat where "LOW_FENCE_IDX = 0"
definition HIGH_FENCE_IDX :: nat where "HIGH_FENCE_IDX = 1"

fun common_prefix_len :: "bytes \<Rightarrow> bytes \<Rightarrow> nat" where
  "common_prefix_len (x # xs) (y # ys) = (if x = y then 1 + common_prefix_len xs ys else 0)"
| "common_prefix_len _ _ = 0"

definition leaf_max_data_size :: "nat \<Rightarrow> nat" where
  "leaf_max_data_size nsize = nsize - 32"

definition leaf_has_fence :: "leaf_node \<Rightarrow> bool" where
  "leaf_has_fence n = has_fence (lf_meta n)"

definition first_meta_pos_after_fence :: "leaf_node \<Rightarrow> nat" where
  "first_meta_pos_after_fence n = (if leaf_has_fence n then FENCE_KEY_CNT else 0)"

definition is_base_page :: "leaf_node \<Rightarrow> bool" where
  "is_base_page n = (\<not> is_cache_only_leaf (lf_meta n) \<and> next_level_is_null (next_level n))"

definition leaf_get_kv_meta :: "leaf_node \<Rightarrow> nat \<Rightarrow> leaf_kv_meta" where
  "leaf_get_kv_meta n index = leaf_meta_dec (slot_bytes (lf_data n) index)"

definition write_initial_kv_meta :: "leaf_node \<Rightarrow> nat \<Rightarrow> leaf_kv_meta \<Rightarrow> leaf_node" where
  "write_initial_kv_meta n index m = n\<lparr>lf_data := put_slot index (leaf_meta_enc m) (lf_data n)\<rparr>"

definition leaf_meta_iter :: "leaf_node \<Rightarrow> leaf_kv_meta list" where
  "leaf_meta_iter n =
     map (leaf_get_kv_meta n) [first_meta_pos_after_fence n..<slot_count (lf_meta n)]"

definition get_remaining_key :: "leaf_node \<Rightarrow> leaf_kv_meta \<Rightarrow> bytes" where
  "get_remaining_key n m =
     read_at (unat (lk_offset m)) (unat (get_key_len m - prefix_len n)) (lf_data n)"

definition get_prefix :: "leaf_node \<Rightarrow> bytes" where
  "get_prefix n =
     read_at (unat (lk_offset (leaf_get_kv_meta n LOW_FENCE_IDX))) (unat (prefix_len n)) (lf_data n)"

definition leaf_get_full_key :: "leaf_node \<Rightarrow> leaf_kv_meta \<Rightarrow> bytes" where
  "leaf_get_full_key n m = get_prefix n @ get_remaining_key n m"

definition leaf_get_value :: "leaf_node \<Rightarrow> leaf_kv_meta \<Rightarrow> bytes" where
  "leaf_get_value n m =
     read_at (unat (lk_offset m + get_key_len m - prefix_len n)) (unat (value_len m)) (lf_data n)"

definition get_low_fence_full_key :: "leaf_node \<Rightarrow> bytes" where
  "get_low_fence_full_key n =
     (let m = leaf_get_kv_meta n LOW_FENCE_IDX in
      read_at (unat (lk_offset m)) (unat (get_key_len m)) (lf_data n))"

text \<open>\<open>None\<close>: the assertion that the node has fences fails.\<close>

definition get_low_fence_key :: "leaf_node \<Rightarrow> bytes option" where
  "get_low_fence_key n =
     (if \<not> leaf_has_fence n then None
      else
        let m = leaf_get_kv_meta n LOW_FENCE_IDX in
        if is_infinite_low_fence_key m then Some []
        else Some (read_at (unat (lk_offset m)) (unat (get_key_len m)) (lf_data n)))"

definition get_high_fence_key :: "leaf_node \<Rightarrow> bytes option" where
  "get_high_fence_key n =
     (if \<not> leaf_has_fence n then None
      else
        let m = leaf_get_kv_meta n HIGH_FENCE_IDX in
        if is_infinite_high_fence_key m then Some [] else Some (leaf_get_full_key n m))"

definition leaf_current_lowest_offset :: "leaf_node \<Rightarrow> u16" where
  "leaf_current_lowest_offset n = meta_count_with_fence (lf_meta n) * 8 + remaining_size (lf_meta n)"

section \<open>Initialisation\<close>

definition install_fence_key :: "leaf_node \<Rightarrow> bytes \<Rightarrow> bool \<Rightarrow> leaf_node" where
  "install_fence_key n key is_high_fence =
     (let loc = slot_count (lf_meta n);
          cur_low_offset = leaf_current_lowest_offset n;
          m0 = increment_value_count (lf_meta n);
          n1 = n\<lparr>lf_meta := m0\<lparr>remaining_size := remaining_size m0 - 8\<rparr>\<rparr>
      in
      if key = [] then
        write_initial_kv_meta n1 loc
          (if is_high_fence then make_infinite_high_fence_key else make_infinite_low_fence_key)
      else
        let plen = (if is_high_fence then prefix_len n1 else 0);
            post_fix_len = of_nat (length key) - plen;
            kv_len = post_fix_len + 0;
            offset = cur_low_offset - kv_len;
            n2 = write_initial_kv_meta n1 loc (leaf_make_prefixed_meta offset 0 key plen Insert);
            n3 = n2\<lparr>lf_data :=
                   write_at (unat offset) (read_at (unat plen) (unat post_fix_len) key) (lf_data n2)\<rparr>
        in n3\<lparr>lf_meta := (lf_meta n3)\<lparr>remaining_size := remaining_size (lf_meta n3) - kv_len\<rparr>\<rparr>)"

definition LEAF_SNAPSHOT_VERSION_CHANGED_FLAG :: u64 where
  "LEAF_SNAPSHOT_VERSION_CHANGED_FLAG = 0x8000000000000000"
definition LEAF_SNAPSHOT_VERSION_MASK :: u64 where
  "LEAF_SNAPSHOT_VERSION_MASK = 0x7FFFFFFFFFFFFFFF"

text \<open>\<open>None\<close>: fence keys given for a node without fences.\<close>

definition leaf_initialize ::
  "leaf_node \<Rightarrow> bytes \<Rightarrow> bytes \<Rightarrow> nat \<Rightarrow> mini_page_next_level \<Rightarrow> bool \<Rightarrow> bool \<Rightarrow> u64 \<Rightarrow> leaf_node option"
where
  "leaf_initialize n low_fence high_fence nsize next fence cache_only snapshot_version =
     (let n0 = n\<lparr>lf_snapshot_version := snapshot_version AND LEAF_SNAPSHOT_VERSION_MASK\<rparr> in
      if \<not> fence then
        if low_fence \<noteq> [] \<or> high_fence \<noteq> [] then None
        else do {
          m \<leftarrow> node_meta_new (of_nat (leaf_max_data_size nsize)) False False (of_nat nsize) cache_only;
          Some (n0\<lparr>lf_meta := m, prefix_len := 0, next_level := next\<rparr>)
        }
      else do {
        m \<leftarrow> node_meta_new (of_nat (leaf_max_data_size nsize)) False True (of_nat nsize) cache_only;
        let n1 = n0\<lparr>lf_meta := m, prefix_len := of_nat (common_prefix_len low_fence high_fence),
                    next_level := next\<rparr>;
        Some (install_fence_key (install_fence_key n1 low_fence False) high_fence True)
      })"

definition initialize_mini_page ::
  "leaf_node \<Rightarrow> nat \<Rightarrow> mini_page_next_level \<Rightarrow> bool \<Rightarrow> u64 \<Rightarrow> leaf_node option" where
  "initialize_mini_page n nsize next cache_only snapshot_version =
     leaf_initialize n [] [] nsize next False cache_only snapshot_version"

definition make_base_page :: "leaf_node \<Rightarrow> nat \<Rightarrow> u64 \<Rightarrow> leaf_node option" where
  "make_base_page mem nsize snapshot_version =
     leaf_initialize mem [] [] nsize next_level_null True False snapshot_version"

section \<open>Search\<close>

definition leaf_key_cmp :: "leaf_node \<Rightarrow> leaf_kv_meta \<Rightarrow> bytes \<Rightarrow> ordering" where
  "leaf_key_cmp n m key =
     (let search_key_prefix = take PREVIEW_SIZE (drop (unat (prefix_len n)) key);
          prefix_key = take (min PREVIEW_SIZE (unat (get_key_len m) - unat (prefix_len n)))
                         [fst (preview_bytes m), snd (preview_bytes m)];
          cmp = bytes_cmp prefix_key search_key_prefix
      in if cmp = Equal then bytes_cmp (get_remaining_key n m) (drop (unat (prefix_len n)) key)
         else cmp)"

text \<open>\<open>None\<close>: slicing a key shorter than the node's prefix.\<close>

definition leaf_lower_bound :: "leaf_node \<Rightarrow> bytes \<Rightarrow> nat option" where
  "leaf_lower_bound n key =
     (if length key < unat (prefix_len n) then None
      else Some (case bsearch (\<lambda>mid. leaf_key_cmp n (leaf_get_kv_meta n mid) key)
                   (first_meta_pos_after_fence n) (slot_count (lf_meta n)) of
                   Inl mid \<Rightarrow> mid
                 | Inr lower \<Rightarrow> lower))"

function leaf_linear_from :: "leaf_node \<Rightarrow> bytes \<Rightarrow> nat \<Rightarrow> nat" where
  "leaf_linear_from n key index =
     (if index < slot_count (lf_meta n) then
        if leaf_key_cmp n (leaf_get_kv_meta n index) key \<noteq> Less then index
        else leaf_linear_from n key (index + 1)
      else index)"
  by pat_completeness auto
termination
  by (relation "measure (\<lambda>(n, key, index). slot_count (lf_meta n) - index)") auto

declare leaf_linear_from.simps [simp del]

definition linear_lower_bound :: "leaf_node \<Rightarrow> bytes \<Rightarrow> nat option" where
  "linear_lower_bound n key =
     (if first_meta_pos_after_fence n < slot_count (lf_meta n) \<and> length key < unat (prefix_len n)
      then None
      else Some (leaf_linear_from n key (first_meta_pos_after_fence n)))"

section \<open>Insertion\<close>

definition full_with_fences :: "leaf_node \<Rightarrow> u16 \<Rightarrow> nat \<Rightarrow> bool" where
  "full_with_fences n requested_size max_fence_len =
     (if remaining_size (lf_meta n) < requested_size then True
      else if leaf_has_fence n then
        let low = leaf_get_kv_meta n LOW_FENCE_IDX;
            high = leaf_get_kv_meta n HIGH_FENCE_IDX;
            e0 = remaining_size (lf_meta n);
            e1 = (if \<not> is_infinite_low_fence_key low then e0 + get_key_len low else e0);
            e2 = (if \<not> is_infinite_high_fence_key high then e1 + get_key_len high else e1)
        in \<not> (e2 \<ge> requested_size + of_nat max_fence_len)
      else False)"

text \<open>
  \<^verbatim>\<open>LeafNode::insert\<close>: the node afterwards and whether the record went in. \<open>None\<close>: a key shorter
  than the prefix, or the assertion against a growing \<open>Cache\<close> record.
\<close>

definition leaf_insert ::
  "leaf_node \<Rightarrow> bytes \<Rightarrow> bytes \<Rightarrow> op_type \<Rightarrow> nat \<Rightarrow> (leaf_node \<times> bool) option" where
  "leaf_insert n key val t max_fence_len =
     do {
       let post_fix_len = of_nat (length key) - prefix_len n;
       let val_len = (of_nat (length val) :: u16);
       let kv_len = post_fix_len + val_len;
       let count = slot_count (lf_meta n);
       let postfix = drop (unat (prefix_len n)) key;
       pos \<leftarrow> leaf_lower_bound n key;
       let pos_meta = leaf_get_kv_meta n pos;
       if pos < count \<and> bytes_cmp (get_remaining_key n pos_meta) postfix = Equal then
         if t = Delete then Some (write_initial_kv_meta n pos (mark_as_deleted pos_meta), True)
         else if value_len pos_meta \<ge> val_len then
           let d = write_at (unat (lk_offset pos_meta) + unat post_fix_len) val (lf_data n)
           in Some (write_initial_kv_meta (n\<lparr>lf_data := d\<rparr>) pos
                      (set_op_type (set_value_len pos_meta val_len) t), True)
         else if remaining_size (lf_meta n) < kv_len then Some (n, False)
         else if t = Cache then None
         else
           let offset = leaf_current_lowest_offset n - kv_len;
               n1 = write_initial_kv_meta n pos
                      ((set_op_type (set_value_len pos_meta val_len) t)\<lparr>lk_offset := offset\<rparr>);
               d1 = write_at (unat offset) postfix (lf_data n1);
               d2 = write_at (unat offset + unat post_fix_len) val d1
           in Some (n1\<lparr>lf_data := d2,
                       lf_meta := (lf_meta n)\<lparr>remaining_size := remaining_size (lf_meta n) - kv_len\<rparr>\<rparr>,
                    True)
       else if t = Delete \<and> is_base_page n then Some (n, True)
       else if full_with_fences n (kv_len + 8) max_fence_len then Some (n, False)
       else
         let offset = leaf_current_lowest_offset n - kv_len;
             new_meta = leaf_make_prefixed_meta offset val_len key (prefix_len n) t;
             d1 = shift_slots pos count (lf_data n);
             d2 = put_slot pos (leaf_meta_enc new_meta) d1;
             d3 = write_at (unat offset) postfix d2;
             d4 = write_at (unat offset + unat post_fix_len) val d3;
             m1 = (lf_meta n)\<lparr>remaining_size := remaining_size (lf_meta n) - (kv_len + 8)\<rparr>
         in Some (n\<lparr>lf_data := d4, lf_meta := increment_value_count m1\<rparr>, True)
     }"

section \<open>Reading\<close>

datatype leaf_read_result = Deleted | NotFound | Found u32 | InvalidKey

text \<open>
  \<^verbatim>\<open>read_by_key_inner\<close>: the node (the reference bit of the slot may be set), the output buffer and
  the result. \<open>None\<close>: a key shorter than the prefix, or a buffer shorter than the value.
\<close>

definition read_by_key_inner ::
  "leaf_node \<Rightarrow> bytes \<Rightarrow> bytes \<Rightarrow> bool \<Rightarrow> (leaf_node \<times> bytes \<times> leaf_read_result) option" where
  "read_by_key_inner n search_key out_buffer binary_search =
     do {
       pos \<leftarrow> (if binary_search then leaf_lower_bound n search_key else linear_lower_bound n search_key);
       if pos \<ge> slot_count (lf_meta n) then Some (n, out_buffer, NotFound)
       else
         let kv_meta = leaf_get_kv_meta n pos;
             target_key = get_remaining_key n kv_meta;
             n1 = (if \<not> is_referenced kv_meta then write_initial_kv_meta n pos (mark_as_ref kv_meta) else n)
         in
         if bytes_cmp target_key (drop (unat (prefix_len n)) search_key) \<noteq> Equal
         then Some (n1, out_buffer, NotFound)
         else if is_absent (meta_op_type kv_meta) then Some (n1, out_buffer, Deleted)
         else
           let val = leaf_get_value n kv_meta in
           if length out_buffer < unat (value_len kv_meta) then None
           else Some (n1, write_at 0 val out_buffer, Found (of_nat (unat (value_len kv_meta))))
     }"

definition read_by_key :: "leaf_node \<Rightarrow> bytes \<Rightarrow> bytes \<Rightarrow> (leaf_node \<times> bytes \<times> leaf_read_result) option" where
  "read_by_key n search_key out_buffer = read_by_key_inner n search_key out_buffer True"

section \<open>The invariant and the contents\<close>

text \<open>
  The bytes a slot owns. A record owns the rest of its key and its value; the low fence owns its
  whole key, the high fence its key without the prefix; an infinite fence owns nothing.
\<close>

definition rec_region :: "nat \<Rightarrow> leaf_kv_meta \<Rightarrow> nat \<times> nat" where
  "rec_region p m = (unat (lk_offset m), unat (get_key_len m) - p + unat (value_len m))"

definition leaf_metas :: "leaf_node \<Rightarrow> leaf_kv_meta list" where
  "leaf_metas n = slot_metas leaf_meta_dec (slot_count (lf_meta n)) (lf_data n)"

definition leaf_recs :: "leaf_node \<Rightarrow> leaf_kv_meta list" where
  "leaf_recs n = drop (first_meta_pos_after_fence n) (leaf_metas n)"

abbreviation leaf_p :: "leaf_node \<Rightarrow> nat" where
  "leaf_p n \<equiv> unat (prefix_len n)"

definition fence_regions :: "leaf_node \<Rightarrow> (nat \<times> nat) list" where
  "fence_regions n =
     (if leaf_has_fence n then
        let l = leaf_get_kv_meta n 0; h = leaf_get_kv_meta n 1 in
        [if is_infinite_low_fence_key l then (length (lf_data n), 0)
         else (unat (lk_offset l), unat (get_key_len l)),
         if is_infinite_high_fence_key h then (length (lf_data n), 0)
         else (unat (lk_offset h), unat (get_key_len h) - leaf_p n)]
      else [])"

definition leaf_regions :: "leaf_node \<Rightarrow> (nat \<times> nat) list" where
  "leaf_regions n = fence_regions n @ map (rec_region (leaf_p n)) (leaf_recs n)"

text \<open>A record: its key without the prefix, its operation type and its value.\<close>

definition leaf_entry_in :: "nat \<Rightarrow> bytes \<Rightarrow> leaf_kv_meta \<Rightarrow> bytes \<times> op_type \<times> bytes" where
  "leaf_entry_in p d m =
     (let r = read_at (unat (lk_offset m)) (unat (get_key_len m) - p + unat (value_len m)) d in
      (take (unat (get_key_len m) - p) r, meta_op_type m, drop (unat (get_key_len m) - p) r))"

definition leaf_entries :: "leaf_node \<Rightarrow> (bytes \<times> op_type \<times> bytes) list" where
  "leaf_entries n = map (leaf_entry_in (leaf_p n) (lf_data n)) (leaf_recs n)"

text \<open>The contents as clients see them, under full keys.\<close>

definition leaf_view :: "leaf_node \<Rightarrow> (bytes \<times> op_type \<times> bytes) list" where
  "leaf_view n = map (\<lambda>(s, x). (get_prefix n @ s, x)) (leaf_entries n)"

definition rec_ok :: "nat \<Rightarrow> bytes \<Rightarrow> leaf_kv_meta \<Rightarrow> bool" where
  "rec_ok p d m \<longleftrightarrow> p \<le> unat (get_key_len m) \<and>
     take (min 2 (unat (get_key_len m) - p)) [fst (preview_bytes m), snd (preview_bytes m)] =
     take 2 (fst (leaf_entry_in p d m))"

definition fence_ok :: "leaf_node \<Rightarrow> bool" where
  "fence_ok n \<longleftrightarrow>
     (if leaf_has_fence n then
        let l = leaf_get_kv_meta n 0; h = leaf_get_kv_meta n 1 in
        leaf_p n \<le> (if is_infinite_low_fence_key l then 0 else unat (get_key_len l)) \<and>
        leaf_p n \<le> (if is_infinite_high_fence_key h then 0 else unat (get_key_len h))
      else leaf_p n = 0)"

definition leaf_wf :: "leaf_node \<Rightarrow> bool" where
  "leaf_wf n \<longleftrightarrow>
     (let c = slot_count (lf_meta n); rem = unat (remaining_size (lf_meta n)); D = length (lf_data n) in
      unat (node_size (lf_meta n)) = D + 32 \<and> D \<le> 32736 \<and> first_meta_pos_after_fence n \<le> c \<and>
      regions_ok (8 * c + rem) D (leaf_regions n) \<and>
      sum_list (map snd (leaf_regions n)) + 8 * c + rem \<le> D \<and>
      ascending (map fst (leaf_entries n)) \<and> fence_ok n \<and>
      list_all (rec_ok (leaf_p n) (lf_data n)) (leaf_recs n))"

lemma leaf_wfD:
  assumes "leaf_wf n"
  shows "length (lf_data n) \<le> 32736" "first_meta_pos_after_fence n \<le> slot_count (lf_meta n)"
    and "regions_ok (8 * slot_count (lf_meta n) + unat (remaining_size (lf_meta n))) (length (lf_data n))
           (leaf_regions n)"
    and "sum_list (map snd (leaf_regions n)) + 8 * slot_count (lf_meta n) +
           unat (remaining_size (lf_meta n)) \<le> length (lf_data n)"
    and "ascending (map fst (leaf_entries n))" "fence_ok n"
    and "m \<in> set (leaf_recs n) \<Longrightarrow> rec_ok (leaf_p n) (lf_data n) m"
    and "unat (node_size (lf_meta n)) = length (lf_data n) + 32"
  using assms by (auto simp: leaf_wf_def Let_def list_all_iff)

lemma length_leaf_metas [simp]: "length (leaf_metas n) = slot_count (lf_meta n)"
  by (simp add: leaf_metas_def)

lemma length_leaf_recs [simp]:
  "length (leaf_recs n) = slot_count (lf_meta n) - first_meta_pos_after_fence n"
  "length (leaf_entries n) = slot_count (lf_meta n) - first_meta_pos_after_fence n"
  by (simp_all add: leaf_recs_def leaf_entries_def)

lemma nth_leaf_recs:
  "i < slot_count (lf_meta n) - first_meta_pos_after_fence n \<Longrightarrow>
   leaf_recs n ! i = leaf_get_kv_meta n (first_meta_pos_after_fence n + i)"
  by (simp add: leaf_recs_def leaf_metas_def leaf_get_kv_meta_def)

lemma leaf_meta_iter_recs: "leaf_meta_iter n = leaf_recs n"
  by (rule nth_equalityI) (simp_all add: leaf_meta_iter_def nth_leaf_recs)

lemma rec_in_bounds:
  assumes "leaf_wf n" "m \<in> set (leaf_recs n)"
  shows "8 * slot_count (lf_meta n) + unat (remaining_size (lf_meta n)) \<le> unat (lk_offset m)"
    and "unat (lk_offset m) + (unat (get_key_len m) - leaf_p n) + unat (value_len m) \<le> length (lf_data n)"
    and "leaf_p n \<le> unat (get_key_len m)"
proof -
  have "rec_region (leaf_p n) m \<in> set (leaf_regions n)" using assms(2) by (simp add: leaf_regions_def)
  with leaf_wfD(3) [OF assms(1)]
  show "8 * slot_count (lf_meta n) + unat (remaining_size (lf_meta n)) \<le> unat (lk_offset m)"
    and "unat (lk_offset m) + (unat (get_key_len m) - leaf_p n) + unat (value_len m) \<le> length (lf_data n)"
    by (force simp: regions_ok_def rec_region_def)+
  show "leaf_p n \<le> unat (get_key_len m)"
    using leaf_wfD(7) [OF assms] by (simp add: rec_ok_def)
qed

text \<open>The accessors of the code read exactly the entry.\<close>

lemma leaf_entry_eq:
  assumes "leaf_wf n" "m \<in> set (leaf_recs n)"
  shows "leaf_entry_in (leaf_p n) (lf_data n) m = (get_remaining_key n m, meta_op_type m, leaf_get_value n m)"
    and "length (get_remaining_key n m) = unat (get_key_len m) - leaf_p n"
    and "length (leaf_get_value n m) = unat (value_len m)"
proof -
  note b = rec_in_bounds [OF assms]
  have k: "unat (get_key_len m - prefix_len n) = unat (get_key_len m) - leaf_p n"
    using b(3) by (simp add: unat_sub_nowrap)
  have "unat (lk_offset m + get_key_len m) = unat (lk_offset m) + unat (get_key_len m)"
    using b(2) leaf_wfD(1) [OF assms(1)] packed_len_less(1) [of m] by (intro unat_add_nowrap) simp
  then have v: "unat (lk_offset m + get_key_len m - prefix_len n) =
      unat (lk_offset m) + (unat (get_key_len m) - leaf_p n)"
    using b(3) by (simp add: unat_sub_nowrap)
  show "leaf_entry_in (leaf_p n) (lf_data n) m = (get_remaining_key n m, meta_op_type m, leaf_get_value n m)"
    unfolding leaf_entry_in_def Let_def get_remaining_key_def leaf_get_value_def k v
    by (simp add: read_at_def drop_take min_def add.commute)
  show "length (get_remaining_key n m) = unat (get_key_len m) - leaf_p n"
    "length (leaf_get_value n m) = unat (value_len m)"
    using b(2) by (simp_all add: get_remaining_key_def leaf_get_value_def k v)
qed

lemma leaf_lowest_offset_eq:
  assumes "leaf_wf n"
  shows "unat (leaf_current_lowest_offset n) =
    8 * slot_count (lf_meta n) + unat (remaining_size (lf_meta n))"
proof -
  have le: "8 * slot_count (lf_meta n) + unat (remaining_size (lf_meta n)) \<le> 32736"
    using leaf_wfD(1,4) [OF assms] by simp
  then have "unat (meta_count_with_fence (lf_meta n) * 8) = 8 * slot_count (lf_meta n)"
    by (subst unat_mult_nowrap) auto
  then show ?thesis
    using le by (simp add: leaf_current_lowest_offset_def unat_add_nowrap)
qed

section \<open>Search\<close>

lemma leaf_key_cmp_suffix:
  assumes "leaf_wf n" "m \<in> set (leaf_recs n)"
  shows "leaf_key_cmp n m key = bytes_cmp (fst (leaf_entry_in (leaf_p n) (lf_data n) m)) (drop (leaf_p n) key)"
proof -
  let ?s = "get_remaining_key n m" and ?k = "drop (leaf_p n) key"
  have "take (min 2 (unat (get_key_len m) - leaf_p n)) [fst (preview_bytes m), snd (preview_bytes m)] = take 2 ?s"
    using leaf_wfD(7) [OF assms] leaf_entry_eq(1) [OF assms] by (simp add: rec_ok_def)
  then show ?thesis
    using bytes_cmp_take [of 2 ?s ?k]
    by (auto simp: leaf_key_cmp_def Let_def PREVIEW_SIZE_def leaf_entry_eq(1) [OF assms]
        simp del: bytes_cmp_simps)
qed

lemma nth_leaf_entries:
  "f = first_meta_pos_after_fence n \<Longrightarrow> f \<le> i \<Longrightarrow> i < slot_count (lf_meta n) \<Longrightarrow>
   leaf_entry_in (leaf_p n) (lf_data n) (leaf_get_kv_meta n i) = leaf_entries n ! (i - f) \<and>
   leaf_get_kv_meta n i \<in> set (leaf_recs n)"
  using nth_mem [of "i - f" "leaf_recs n"] by (simp add: leaf_entries_def nth_leaf_recs)

text \<open>The search returns the position of the first record whose key is not below the search key.\<close>

lemma leaf_lower_bound_spec:
  assumes "leaf_wf n" "leaf_p n \<le> length key"
  defines "f \<equiv> first_meta_pos_after_fence n" and "s \<equiv> drop (leaf_p n) key"
  obtains pos where "leaf_lower_bound n key = Some (f + pos)" "pos \<le> length (leaf_entries n)"
    and "\<And>i. i < pos \<Longrightarrow> fst (leaf_entries n ! i) < s"
    and "\<And>i. pos \<le> i \<Longrightarrow> i < length (leaf_entries n) \<Longrightarrow> s \<le> fst (leaf_entries n ! i)"
proof -
  let ?c = "slot_count (lf_meta n)" and ?k = "\<lambda>i. fst (leaf_entries n ! (i - f))"
  let ?b = "bsearch (\<lambda>mid. leaf_key_cmp n (leaf_get_kv_meta n mid) key) f ?c"
  note e = nth_leaf_entries [of f n, OF f_def [THEN meta_eq_to_obj_eq]]
  have fc: "f \<le> ?c" using leaf_wfD(2) [OF assms(1)] by (simp add: f_def)
  have asc: "fst (leaf_entries n ! i) < fst (leaf_entries n ! j)" if "i < j" "j < length (leaf_entries n)" for i j
    using leaf_wfD(5) [OF assms(1)] sorted_wrt_nth_less [of "(<)" "map fst (leaf_entries n)" i j] that by simp
  have b: "case ?b of Inl m \<Rightarrow> f \<le> m \<and> m < ?c \<and> ?k m = s
         | Inr l \<Rightarrow> f \<le> l \<and> l \<le> ?c \<and> (\<forall>i. f \<le> i \<and> i < l \<longrightarrow> ?k i < s) \<and>
                   (\<forall>i. l \<le> i \<and> i < ?c \<longrightarrow> s < ?k i)"
  proof (rule bsearch_correct)
    show "leaf_key_cmp n (leaf_get_kv_meta n i) key = bytes_cmp (?k i) s" if "f \<le> i" "i < ?c" for i
      using leaf_key_cmp_suffix [OF assms(1), of "leaf_get_kv_meta n i" key] e [OF that] by (simp add: s_def)
    show "?k i < ?k j" if "f \<le> i" "i < j" "j < ?c" for i j
      using asc [of "i - f" "j - f"] that by (simp add: f_def)
  qed (rule fc)
  obtain q where q: "leaf_lower_bound n key = Some q" "f \<le> q" "q \<le> ?c"
    "\<And>i. f \<le> i \<Longrightarrow> i < q \<Longrightarrow> ?k i < s" "\<And>i. q \<le> i \<Longrightarrow> i < ?c \<Longrightarrow> s \<le> ?k i"
  proof (cases ?b)
    case (Inl m)
    with b have m: "f \<le> m" "m < ?c" "?k m = s" by simp_all
    have "?k i < s" if "f \<le> i" "i < m" for i
      using asc [of "i - f" "m - f"] m that by (simp add: f_def)
    moreover have "s \<le> ?k i" if "m \<le> i" "i < ?c" for i
      using asc [of "m - f" "i - f"] m that by (cases "i = m") (simp_all add: f_def diff_less_mono less_imp_le)
    ultimately show ?thesis
      using that [of m] m Inl assms(2) by (simp add: leaf_lower_bound_def f_def [symmetric])
  next
    case (Inr l)
    then show ?thesis
      using that [of l] b assms(2) by (simp add: leaf_lower_bound_def f_def [symmetric] less_imp_le)
  qed
  show thesis
  proof (rule that [of "q - f"])
    show "fst (leaf_entries n ! i) < s" if "i < q - f" for i
      using q(4) [of "f + i"] that by simp
    show "s \<le> fst (leaf_entries n ! i)" if "q - f \<le> i" "i < length (leaf_entries n)" for i
      using q(5) [of "f + i"] that q(2) by (simp add: f_def)
  qed (use q fc in \<open>simp_all add: f_def\<close>)
qed

text \<open>The linear search finds the same position.\<close>

lemma leaf_linear_from_spec:
  assumes wf: "leaf_wf n" and pos: "pos \<le> length (leaf_entries n)"
    and less: "\<And>i. i < pos \<Longrightarrow> fst (leaf_entries n ! i) < drop (leaf_p n) key"
    and ge: "\<And>i. pos \<le> i \<Longrightarrow> i < length (leaf_entries n) \<Longrightarrow> drop (leaf_p n) key \<le> fst (leaf_entries n ! i)"
    and j: "j \<le> pos"
  defines "f \<equiv> first_meta_pos_after_fence n"
  shows "leaf_linear_from n key (f + j) = f + pos"
  using j
proof (induction "pos - j" arbitrary: j)
  case 0
  then have "j = pos" by simp
  show ?case
  proof (cases "f + pos < slot_count (lf_meta n)")
    case True
    then have "drop (leaf_p n) key \<le> fst (leaf_entries n ! pos)" using ge by (simp add: f_def)
    then have "leaf_key_cmp n (leaf_get_kv_meta n (f + pos)) key \<noteq> Less"
      using leaf_key_cmp_suffix [OF wf] nth_leaf_entries [OF f_def [THEN meta_eq_to_obj_eq], of "f + pos"] True
      by (simp add: not_less)
    then show ?thesis using True \<open>j = pos\<close> by (simp add: leaf_linear_from.simps)
  qed (simp add: \<open>j = pos\<close> leaf_linear_from.simps)
next
  case (Suc k)
  then have "j < pos" by simp
  then have c: "f + j < slot_count (lf_meta n)" using pos leaf_wfD(2) [OF wf] by (simp add: f_def)
  have "leaf_key_cmp n (leaf_get_kv_meta n (f + j)) key = Less"
    using leaf_key_cmp_suffix [OF wf] nth_leaf_entries [OF f_def [THEN meta_eq_to_obj_eq], of "f + j"] c
      less [OF \<open>j < pos\<close>] by simp
  moreover have "leaf_linear_from n key (f + Suc j) = f + pos"
    using Suc(1) [of "Suc j"] Suc(2) \<open>j < pos\<close> by simp
  ultimately show ?case using c by (simp add: leaf_linear_from.simps [of n key "f + j"])
qed

end
