(* ===== verification/Leaf_Insert.thy ===== *)
theory Leaf_Insert
  imports Leaf_Node
begin

text \<open>
  Insertion into a leaf. Every branch of \<^verbatim>\<open>LeafNode::insert\<close> (new record, tombstone, overwrite in
  place, overwrite by moving, refusal) keeps the invariant and acts on the sorted contents as
  \<open>rec_put\<close>.
\<close>

section \<open>Changing one record\<close>

text \<open>The fence keys; empty stands for an infinite fence.\<close>

definition leaf_low :: "leaf_node \<Rightarrow> bytes" where
  "leaf_low n =
     (if is_infinite_low_fence_key (leaf_get_kv_meta n 0) then [] else get_low_fence_full_key n)"

definition leaf_high :: "leaf_node \<Rightarrow> bytes" where
  "leaf_high n =
     (if is_infinite_high_fence_key (leaf_get_kv_meta n 1) then []
      else leaf_get_full_key n (leaf_get_kv_meta n 1))"

lemma length_fence_regions [simp]: "length (fence_regions n) = first_meta_pos_after_fence n"
  by (simp add: fence_regions_def first_meta_pos_after_fence_def FENCE_KEY_CNT_def Let_def)

lemma length_leaf_regions [simp]:
  "first_meta_pos_after_fence n \<le> slot_count (lf_meta n) \<Longrightarrow> length (leaf_regions n) = slot_count (lf_meta n)"
  by (simp add: leaf_regions_def)

definition region_read :: "bytes \<Rightarrow> nat \<times> nat \<Rightarrow> bytes" where
  "region_read d r = read_at (fst r) (snd r) d"

text \<open>The fences, and with them the prefix, survive whatever leaves their bytes alone.\<close>

lemma leaf_fence_frame:
  assumes "fence_ok n" "leaf_has_fence n' = leaf_has_fence n" "prefix_len n' = prefix_len n"
    and "length (lf_data n') = length (lf_data n)"
    and slots: "\<And>i. i < first_meta_pos_after_fence n \<Longrightarrow> leaf_get_kv_meta n' i = leaf_get_kv_meta n i"
    and keep: "\<And>r. r \<in> set (fence_regions n) \<Longrightarrow> region_read (lf_data n') r = region_read (lf_data n) r"
  shows "fence_regions n' = fence_regions n" "fence_ok n'" "get_prefix n' = get_prefix n"
    and "leaf_has_fence n \<Longrightarrow> leaf_low n' = leaf_low n" "leaf_has_fence n \<Longrightarrow> leaf_high n' = leaf_high n"
proof -
  let ?l = "leaf_get_kv_meta n 0" and ?h = "leaf_get_kv_meta n 1"
  have sl: "leaf_get_kv_meta n' 0 = ?l" "leaf_get_kv_meta n' 1 = ?h" "leaf_get_kv_meta n' (Suc 0) = ?h"
    if "leaf_has_fence n"
    using slots [of 0] slots [of 1] that by (simp_all add: first_meta_pos_after_fence_def FENCE_KEY_CNT_def)
  show "fence_regions n' = fence_regions n" using assms(2-4) sl by (simp add: fence_regions_def Let_def)
  show "fence_ok n'" using assms(1-3) sl by (cases "leaf_has_fence n") (simp_all add: fence_ok_def Let_def)
  have low: "read_at (unat (lk_offset ?l)) (unat (get_key_len ?l)) (lf_data n') =
      read_at (unat (lk_offset ?l)) (unat (get_key_len ?l)) (lf_data n)"
    if "leaf_has_fence n" "\<not> is_infinite_low_fence_key ?l"
    using keep [of "(unat (lk_offset ?l), unat (get_key_len ?l))"] that
    by (simp add: fence_regions_def Let_def region_read_def)
  have high: "read_at (unat (lk_offset ?h)) (unat (get_key_len ?h) - leaf_p n) (lf_data n') =
      read_at (unat (lk_offset ?h)) (unat (get_key_len ?h) - leaf_p n) (lf_data n)"
    if "leaf_has_fence n" "\<not> is_infinite_high_fence_key ?h"
    using keep [of "(unat (lk_offset ?h), unat (get_key_len ?h) - leaf_p n)"] that
    by (simp add: fence_regions_def Let_def region_read_def)
  show pre: "get_prefix n' = get_prefix n"
  proof (cases "leaf_p n = 0")
    case False
    then have f: "leaf_has_fence n" "\<not> is_infinite_low_fence_key ?l" "leaf_p n \<le> unat (get_key_len ?l)"
      using assms(1) by (auto simp: fence_ok_def Let_def split: if_splits)
    then show ?thesis
      using low sl(1) read_at_cong [of "unat (lk_offset ?l)" "unat (get_key_len ?l)" "lf_data n'" "lf_data n" 0 "leaf_p n"]
      by (simp add: get_prefix_def assms(3) LOW_FENCE_IDX_def)
  qed (simp add: get_prefix_def assms(3))
  show "leaf_low n' = leaf_low n" if "leaf_has_fence n"
    using low that sl by (simp add: leaf_low_def get_low_fence_full_key_def Let_def LOW_FENCE_IDX_def)
  show "leaf_high n' = leaf_high n" if "leaf_has_fence n"
  proof (cases "is_infinite_high_fence_key ?h")
    case False
    then have "leaf_p n \<le> unat (get_key_len ?h)"
      using assms(1) that by (simp add: fence_ok_def Let_def)
    then have "unat (get_key_len ?h - prefix_len n) = unat (get_key_len ?h) - leaf_p n"
      by (simp add: unat_sub_nowrap)
    then show ?thesis
      using high [OF that False] sl(2) [OF that] pre
      by (simp add: leaf_high_def leaf_get_full_key_def get_remaining_key_def assms(3) del: One_nat_def)
  qed (simp add: leaf_high_def sl(2) [OF that] del: One_nat_def)
qed

lemma leaf_entry_in_cong:
  "region_read d' (rec_region p m) = region_read d (rec_region p m) \<Longrightarrow>
   leaf_entry_in p d' m = leaf_entry_in p d m"
  by (simp add: leaf_entry_in_def region_read_def rec_region_def)

lemma leaf_entry_inI:
  assumes "unat (lk_offset m) = off" "unat (get_key_len m) - p = s" "unat (value_len m) = v"
    and "read_at off s d = key" "read_at (off + s) v d = val" "off + s + v \<le> length d"
  shows "leaf_entry_in p d m = (key, meta_op_type m, val)"
  using assms by (simp add: leaf_entry_in_def Let_def read_at_add flip: assms(4,5))

text \<open>
  A record whose slot, and possibly whose bytes, change while its key stays: everything an
  operation has to show to keep the invariant.
\<close>

lemma leaf_change_rec:
  assumes wf: "leaf_wf n" and i: "i < length (leaf_recs n)"
    and head: "leaf_has_fence n' = leaf_has_fence n" "slot_count (lf_meta n') = slot_count (lf_meta n)"
      "node_size (lf_meta n') = node_size (lf_meta n)" "prefix_len n' = prefix_len n"
    and len: "length (lf_data n') = length (lf_data n)"
    and metas: "leaf_metas n' = (leaf_metas n)[first_meta_pos_after_fence n + i := m]"
    and keep: "\<And>j. j < length (leaf_regions n) \<Longrightarrow> j \<noteq> first_meta_pos_after_fence n + i \<Longrightarrow>
      region_read (lf_data n') (leaf_regions n ! j) = region_read (lf_data n) (leaf_regions n ! j)"
    and regs: "regions_ok (8 * slot_count (lf_meta n) + unat (remaining_size (lf_meta n'))) (length (lf_data n))
      ((leaf_regions n)[first_meta_pos_after_fence n + i := rec_region (leaf_p n) m])"
    and sum: "sum_list (map snd ((leaf_regions n)[first_meta_pos_after_fence n + i := rec_region (leaf_p n) m])) +
      8 * slot_count (lf_meta n) + unat (remaining_size (lf_meta n')) \<le> length (lf_data n)"
    and entry: "leaf_entry_in (leaf_p n) (lf_data n') m = (fst (leaf_entries n ! i), x)"
    and preview: "leaf_p n \<le> unat (get_key_len m)"
      "take (min 2 (unat (get_key_len m) - leaf_p n)) [fst (preview_bytes m), snd (preview_bytes m)] =
       take 2 (fst (leaf_entries n ! i))"
  shows "leaf_wf n'" "leaf_entries n' = (leaf_entries n)[i := (fst (leaf_entries n ! i), x)]"
    and "get_prefix n' = get_prefix n"
    and "leaf_has_fence n \<Longrightarrow> leaf_low n' = leaf_low n \<and> leaf_high n' = leaf_high n"
proof -
  let ?f = "first_meta_pos_after_fence n" and ?p = "leaf_p n"
  have f': "first_meta_pos_after_fence n' = ?f" by (simp add: first_meta_pos_after_fence_def head(1))
  have fc: "?f \<le> slot_count (lf_meta n)" by (rule leaf_wfD(2) [OF wf])
  have nth: "leaf_regions n ! (?f + j) = rec_region ?p (leaf_recs n ! j)" if "j < length (leaf_recs n)" for j
    using that by (simp add: leaf_regions_def nth_append)
  have slots: "leaf_get_kv_meta n' j = leaf_get_kv_meta n j" if "j < ?f" for j
    using arg_cong [OF metas, of "\<lambda>xs. xs ! j"] that fc head(2)
    by (simp add: leaf_metas_def leaf_get_kv_meta_def)
  have fkeep: "region_read (lf_data n') r = region_read (lf_data n) r" if fr: "r \<in> set (fence_regions n)" for r
  proof -
    obtain j where "j < ?f" "r = leaf_regions n ! j"
      using fr by (auto simp: in_set_conv_nth leaf_regions_def nth_append)
    then show ?thesis using keep [of j] fc by simp
  qed
  note frame = leaf_fence_frame [OF leaf_wfD(6) [OF wf] head(1,4) len slots fkeep]
  show "get_prefix n' = get_prefix n" by (rule frame(3))
  show "leaf_low n' = leaf_low n \<and> leaf_high n' = leaf_high n" if "leaf_has_fence n"
    using frame(4,5) that by simp
  have recs: "leaf_recs n' = (leaf_recs n)[i := m]"
    by (simp add: leaf_recs_def metas f' drop_update_swap)
  have other: "leaf_entry_in ?p (lf_data n') (leaf_recs n ! j) = leaf_entry_in ?p (lf_data n) (leaf_recs n ! j)"
    if "j < length (leaf_recs n)" "j \<noteq> i" for j
    using keep [of "?f + j"] that fc nth [of j] by (intro leaf_entry_in_cong) simp
  show entries: "leaf_entries n' = (leaf_entries n)[i := (fst (leaf_entries n ! i), x)]"
    by (rule nth_equalityI)
       (use i other entry in \<open>auto simp: leaf_entries_def recs head(4) nth_list_update\<close>)
  then have "map fst (leaf_entries n') = map fst (leaf_entries n)"
    using i by (simp add: map_update list_update_same_conv)
  moreover have "leaf_regions n' = (leaf_regions n)[?f + i := rec_region ?p m]"
    by (simp add: leaf_regions_def frame(1) recs head(4) map_update list_update_append)
  moreover have "list_all (rec_ok ?p (lf_data n')) ((leaf_recs n)[i := m])"
    unfolding list_all_length
  proof (intro allI impI)
    fix j assume j: "j < length ((leaf_recs n)[i := m])"
    have "rec_ok ?p (lf_data n) (leaf_recs n ! j)" using leaf_wfD(7) [OF wf nth_mem] j by simp
    then show "rec_ok ?p (lf_data n') ((leaf_recs n)[i := m] ! j)"
      using j other [of j] entry preview by (cases "j = i") (simp_all add: rec_ok_def)
  qed
  ultimately show "leaf_wf n'"
    using leaf_wfD(1,2,5,8) [OF wf] regs sum frame(2) len head
    by (simp add: leaf_wf_def Let_def recs f')
qed

text \<open>What every operation on the records leaves alone.\<close>

definition leaf_framed :: "leaf_node \<Rightarrow> leaf_node \<Rightarrow> bool" where
  "leaf_framed n n' \<longleftrightarrow> prefix_len n' = prefix_len n \<and> get_prefix n' = get_prefix n \<and>
     same_flags (lf_meta n) (lf_meta n') \<and> node_size (lf_meta n') = node_size (lf_meta n) \<and>
     next_level n' = next_level n \<and> lsn n' = lsn n \<and> lf_snapshot_version n' = lf_snapshot_version n \<and>
     (leaf_has_fence n \<longrightarrow> leaf_low n' = leaf_low n \<and> leaf_high n' = leaf_high n)"

lemma leaf_framed_trans: "leaf_framed n n1 \<Longrightarrow> leaf_framed n1 n2 \<Longrightarrow> leaf_framed n n2"
  by (auto simp: leaf_framed_def same_flags_def leaf_has_fence_def)

lemma leaf_framed_refl [simp]: "leaf_framed n n"
  by (simp add: leaf_framed_def same_flags_def)

lemma leaf_framed_base: "leaf_framed n n' \<Longrightarrow> is_base_page n' = is_base_page n"
  by (simp add: leaf_framed_def same_flags_def is_base_page_def)

lemma leaf_rec_at:
  assumes "i < length (leaf_recs n)" "f = first_meta_pos_after_fence n"
  shows "leaf_get_kv_meta n (f + i) = leaf_recs n ! i" "leaf_recs n ! i \<in> set (leaf_recs n)"
    and "leaf_entries n ! i = leaf_entry_in (leaf_p n) (lf_data n) (leaf_recs n ! i)"
    and "f + i < slot_count (lf_meta n)"
proof -
  show "leaf_recs n ! i \<in> set (leaf_recs n)" using assms(1) by (rule nth_mem)
qed (use assms in \<open>simp_all add: nth_leaf_recs leaf_entries_def\<close>)

lemma leaf_region_at:
  assumes "leaf_wf n" "i < length (leaf_recs n)"
  shows "leaf_regions n ! (first_meta_pos_after_fence n + i) = rec_region (leaf_p n) (leaf_recs n ! i)"
    and "first_meta_pos_after_fence n + i < length (leaf_regions n)"
  using assms leaf_wfD(2) [OF assms(1)] by (simp_all add: leaf_regions_def nth_append)

lemma region_above_slots:
  assumes "leaf_wf n" "j < length (leaf_regions n)" "i < slot_count (lf_meta n)"
    and "length d = length (lf_data n)"
  shows "region_read (put_slot i (leaf_meta_enc m) d) (leaf_regions n ! j) = region_read d (leaf_regions n ! j)"
  using regions_ok_nth [OF leaf_wfD(3) [OF assms(1)] assms(2)] assms(3,4)
  unfolding region_read_def by (intro leaf_slot.read_put) auto

text \<open>
  The common shape of the three ways to change a record: its bytes are rewritten to \<open>d\<close>, then
  its slot to \<open>m\<close>, and the free space shrinks to \<open>w\<close>.
\<close>

lemma leaf_put_rec:
  fixes w :: u16
  assumes wf: "leaf_wf n" and i: "i < length (leaf_recs n)"
    and dlen: "length d = length (lf_data n)"
    and slots: "slot_metas leaf_meta_dec (slot_count (lf_meta n)) d = leaf_metas n"
    and keep: "\<And>j. j < length (leaf_regions n) \<Longrightarrow> j \<noteq> first_meta_pos_after_fence n + i \<Longrightarrow>
      region_read d (leaf_regions n ! j) = region_read (lf_data n) (leaf_regions n ! j)"
    and regs: "regions_ok (8 * slot_count (lf_meta n) + unat w) (length (lf_data n))
      ((leaf_regions n)[first_meta_pos_after_fence n + i := rec_region (leaf_p n) m])"
    and sum: "sum_list (map snd ((leaf_regions n)[first_meta_pos_after_fence n + i := rec_region (leaf_p n) m])) +
      8 * slot_count (lf_meta n) + unat w \<le> length (lf_data n)"
    and entry: "leaf_entry_in (leaf_p n) d m = (fst (leaf_entries n ! i), x)"
    and m: "get_key_len m = get_key_len (leaf_recs n ! i)" "preview_bytes m = preview_bytes (leaf_recs n ! i)"
  defines "n' \<equiv> n\<lparr>lf_data := put_slot (first_meta_pos_after_fence n + i) (leaf_meta_enc m) d,
    lf_meta := (lf_meta n)\<lparr>remaining_size := w\<rparr>\<rparr>"
  shows "leaf_wf n'" "leaf_framed n n'"
    and "leaf_entries n' = (leaf_entries n)[i := (fst (leaf_entries n ! i), x)]"
proof -
  let ?f = "first_meta_pos_after_fence n" and ?p = "leaf_p n"
  note at = leaf_rec_at [OF i refl] and reg = leaf_region_at [OF wf i]
  have c8: "8 * slot_count (lf_meta n) \<le> length (lf_data n)" using sum by simp
  have head: "leaf_has_fence n' = leaf_has_fence n" "slot_count (lf_meta n') = slot_count (lf_meta n)"
    "node_size (lf_meta n') = node_size (lf_meta n)" "prefix_len n' = prefix_len n"
    "remaining_size (lf_meta n') = w"
    by (simp_all add: n'_def leaf_has_fence_def has_fence_def meta_count_with_fence_def)
  have len: "length (lf_data n') = length (lf_data n)"
    using at(4) c8 dlen by (simp add: n'_def leaf_slot.length_put)
  have metas: "leaf_metas n' = (leaf_metas n)[?f + i := m]"
    using leaf_slot.metas_put_slot [OF at(4), of d m] c8 dlen slots
    unfolding leaf_metas_def head(2) by (simp add: n'_def)
  have keep': "region_read (lf_data n') (leaf_regions n ! j) = region_read (lf_data n) (leaf_regions n ! j)"
    if j: "j < length (leaf_regions n)" "j \<noteq> ?f + i" for j
    using region_above_slots [OF wf j(1) at(4) dlen] keep [OF j] by (simp add: n'_def)
  have "region_read (lf_data n') (rec_region ?p m) = region_read d (rec_region ?p m)"
    using regions_ok_nth [OF regs, of "?f + i"] reg(2) at(4) dlen
    unfolding n'_def region_read_def by (auto intro!: leaf_slot.read_put)
  then have entry': "leaf_entry_in ?p (lf_data n') m = (fst (leaf_entries n ! i), x)"
    using leaf_entry_in_cong entry by metis
  have pre: "?p \<le> unat (get_key_len m)"
    "take (min 2 (unat (get_key_len m) - ?p)) [fst (preview_bytes m), snd (preview_bytes m)] =
     take 2 (fst (leaf_entries n ! i))"
    using leaf_wfD(7) [OF wf at(2)] by (simp_all add: rec_ok_def m at(3))
  note * = leaf_change_rec [OF wf i head(1-4) len metas keep' _ _ entry' pre, unfolded head(5), OF _ _ regs sum]
  show "leaf_wf n'" "leaf_entries n' = (leaf_entries n)[i := (fst (leaf_entries n ! i), x)]"
    using *(1,2) by simp_all
  show "leaf_framed n n'"
    using *(3,4) head by (simp add: leaf_framed_def) (simp add: n'_def same_flags_def flag_bits)
qed

lemma sum_list_update_le: "i < length xs \<Longrightarrow> sum_list (map snd (xs[i := r])) \<le> sum_list (map snd xs) + snd r"
  for xs :: "(nat \<times> nat) list"
  by (simp add: map_update sum_list_update)

lemma sum_list_update_less:
  "i < length xs \<Longrightarrow> snd r \<le> snd (xs ! i) \<Longrightarrow> sum_list (map snd (xs[i := r])) \<le> sum_list (map snd xs)"
  for xs :: "(nat \<times> nat) list"
  using member_le_sum_list [of "snd (xs ! i)" "map snd xs"] by (auto simp: map_update sum_list_update)

text \<open>Rewriting the packed words of a slot: marking a record deleted, or referenced.\<close>

lemma leaf_write_slot:
  assumes wf: "leaf_wf n" and i: "i < length (leaf_recs n)"
    and m: "lk_offset m = lk_offset (leaf_recs n ! i)" "get_key_len m = get_key_len (leaf_recs n ! i)"
      "value_len m = value_len (leaf_recs n ! i)" "preview_bytes m = preview_bytes (leaf_recs n ! i)"
  defines "n' \<equiv> write_initial_kv_meta n (first_meta_pos_after_fence n + i) m"
  shows "leaf_wf n'" "leaf_framed n n'" "lf_meta n' = lf_meta n"
    and "leaf_entries n' =
      (leaf_entries n)[i := (fst (leaf_entries n ! i), meta_op_type m, snd (snd (leaf_entries n ! i)))]"
proof -
  have "rec_region (leaf_p n) m = rec_region (leaf_p n) (leaf_recs n ! i)" by (simp add: rec_region_def m)
  then have id: "(leaf_regions n)[first_meta_pos_after_fence n + i := rec_region (leaf_p n) m] = leaf_regions n"
    using leaf_region_at(1) [OF wf i] by (metis list_update_id)
  have entry: "leaf_entry_in (leaf_p n) (lf_data n) m =
      (fst (leaf_entries n ! i), meta_op_type m, snd (snd (leaf_entries n ! i)))"
    by (simp add: leaf_entry_in_def Let_def leaf_rec_at(3) [OF i refl] m)
  have n': "n' = n\<lparr>lf_data := put_slot (first_meta_pos_after_fence n + i) (leaf_meta_enc m) (lf_data n),
      lf_meta := (lf_meta n)\<lparr>remaining_size := remaining_size (lf_meta n)\<rparr>\<rparr>"
    by (simp add: n'_def write_initial_kv_meta_def)
  note * = leaf_put_rec [OF wf i refl leaf_metas_def [symmetric] refl _ _ entry m(2,4), unfolded id,
      OF leaf_wfD(3,4) [OF wf], folded n']
  show "leaf_wf n'" "leaf_framed n n'" "leaf_entries n' =
      (leaf_entries n)[i := (fst (leaf_entries n ! i), meta_op_type m, snd (snd (leaf_entries n ! i)))]"
    by (rule *)+
  show "lf_meta n' = lf_meta n" by (simp add: n')
qed

text \<open>Overwriting a value in place with one that is not longer.\<close>

definition leaf_overwrite :: "leaf_node \<Rightarrow> nat \<Rightarrow> bytes \<Rightarrow> op_type \<Rightarrow> leaf_node" where
  "leaf_overwrite n i val t =
     (let m = leaf_get_kv_meta n i;
          d = write_at (unat (lk_offset m) + (unat (get_key_len m) - leaf_p n)) val (lf_data n)
      in write_initial_kv_meta (n\<lparr>lf_data := d\<rparr>) i (set_op_type (set_value_len m (of_nat (length val))) t))"

lemma leaf_overwrite_spec:
  fixes t :: op_type
  assumes wf: "leaf_wf n" and i: "i < length (leaf_recs n)"
    and short: "length val \<le> unat (value_len (leaf_recs n ! i))"
  defines "n' \<equiv> leaf_overwrite n (first_meta_pos_after_fence n + i) val t"
  shows "leaf_wf n'" "leaf_framed n n'" "lf_meta n' = lf_meta n"
    and "leaf_entries n' = (leaf_entries n)[i := (fst (leaf_entries n ! i), t, val)]"
proof -
  let ?f = "first_meta_pos_after_fence n" and ?k = "leaf_recs n ! i" and ?p = "leaf_p n"
  let ?o = "unat (lk_offset ?k)" and ?s = "unat (get_key_len ?k) - ?p"
  define d where "d = write_at (?o + ?s) val (lf_data n)"
  define m where "m = set_op_type (set_value_len ?k (of_nat (length val))) t"
  note at = leaf_rec_at [OF i refl] and reg = leaf_region_at [OF wf i]
  note b = rec_in_bounds [OF wf at(2)]
  have "unat (of_nat (length val) :: u16) = length val"
    using short packed_len_less(2) [of ?k] by (simp add: unat_of_nat_nowrap)
  then have m: "lk_offset m = lk_offset ?k" "get_key_len m = get_key_len ?k"
    "unat (value_len m) = length val" "preview_bytes m = preview_bytes ?k" "meta_op_type m = t"
    using short packed_len_less(2) [of ?k] by (simp_all add: m_def)
  have dlen: "length d = length (lf_data n)" using b(2) short by (simp add: d_def)
  have slots: "slot_metas leaf_meta_dec (slot_count (lf_meta n)) d = leaf_metas n"
    unfolding leaf_metas_def d_def by (rule leaf_slot.metas_write_record) (use b short in auto)
  have keep: "region_read d (leaf_regions n ! j) = region_read (lf_data n) (leaf_regions n ! j)"
    if j: "j < length (leaf_regions n)" "j \<noteq> ?f + i" for j
    using regions_ok_apart [OF leaf_wfD(3) [OF wf] j(1) reg(2) j(2)] reg(1) b(2) short
      regions_ok_nth(2) [OF leaf_wfD(3) [OF wf] j(1)]
    unfolding d_def region_read_def by (intro read_write_disjoint) (auto simp: apart_def rec_region_def)
  have regs: "regions_ok (8 * slot_count (lf_meta n) + unat (remaining_size (lf_meta n))) (length (lf_data n))
      ((leaf_regions n)[?f + i := rec_region ?p m])"
    using regions_ok_shrink [OF leaf_wfD(3) [OF wf] reg(2) reg(1) [unfolded rec_region_def], of "?s + length val"] short
    by (simp add: rec_region_def m)
  have sum: "sum_list (map snd ((leaf_regions n)[?f + i := rec_region ?p m])) +
      8 * slot_count (lf_meta n) + unat (remaining_size (lf_meta n)) \<le> length (lf_data n)"
    using sum_list_update_less [OF reg(2), of "rec_region ?p m"] reg(1) short leaf_wfD(4) [OF wf]
    by (simp add: rec_region_def m)
  have "read_at ?o ?s d = read_at ?o ?s (lf_data n)" "read_at (?o + ?s) (length val) d = val"
    unfolding d_def using b short by (auto intro!: read_write_disjoint read_write_same)
  moreover have "fst (leaf_entries n ! i) = read_at ?o ?s (lf_data n)"
    by (simp add: at(3) leaf_entry_in_def Let_def read_at_def min_def)
  ultimately have entry: "leaf_entry_in ?p d m = (fst (leaf_entries n ! i), t, val)"
    using leaf_entry_inI [of m ?o ?p ?s "length val" d] b(2) short dlen by (simp only: m)
  have n': "n' = n\<lparr>lf_data := put_slot (?f + i) (leaf_meta_enc m) d,
      lf_meta := (lf_meta n)\<lparr>remaining_size := remaining_size (lf_meta n)\<rparr>\<rparr>"
    by (simp add: n'_def leaf_overwrite_def Let_def at(1) d_def m_def write_initial_kv_meta_def)
  note * = leaf_put_rec [OF wf i dlen slots keep regs sum entry m(2,4), folded n']
  show "leaf_wf n'" "leaf_framed n n'" "leaf_entries n' = (leaf_entries n)[i := (fst (leaf_entries n ! i), t, val)]"
    by (rule *; assumption)+
  show "lf_meta n' = lf_meta n" by (simp add: n')
qed

text \<open>Moving a record that grows to fresh space.\<close>

definition leaf_move :: "leaf_node \<Rightarrow> nat \<Rightarrow> bytes \<Rightarrow> bytes \<Rightarrow> op_type \<Rightarrow> leaf_node" where
  "leaf_move n i s val t =
     (let len = length s + length val;
          m = leaf_get_kv_meta n i;
          off = leaf_current_lowest_offset n - of_nat len
      in n\<lparr>lf_data := put_slot i
             (leaf_meta_enc ((set_op_type (set_value_len m (of_nat (length val))) t)\<lparr>lk_offset := off\<rparr>))
             (write_at (unat (leaf_current_lowest_offset n) - len) (s @ val) (lf_data n)),
           lf_meta := (lf_meta n)\<lparr>remaining_size := remaining_size (lf_meta n) - of_nat len\<rparr>\<rparr>)"

lemma lk_offset_update_laws [simp]:
  "get_key_len (m\<lparr>lk_offset := off\<rparr>) = get_key_len m" "value_len (m\<lparr>lk_offset := off\<rparr>) = value_len m"
  "meta_op_type (m\<lparr>lk_offset := off\<rparr>) = meta_op_type m"
  by (simp_all add: get_key_len_def value_len_def meta_op_type_def)

lemma leaf_move_spec:
  fixes t :: op_type
  assumes wf: "leaf_wf n" and i: "i < length (leaf_recs n)" and s: "fst (leaf_entries n ! i) = s"
    and room: "length s + length val \<le> unat (remaining_size (lf_meta n))" and val: "length val < 32768"
  defines "n' \<equiv> leaf_move n (first_meta_pos_after_fence n + i) s val t"
  shows "leaf_wf n'" "leaf_framed n n'"
    and "unat (remaining_size (lf_meta n')) = unat (remaining_size (lf_meta n)) - (length s + length val)"
    and "leaf_entries n' = (leaf_entries n)[i := (s, t, val)]"
proof -
  let ?f = "first_meta_pos_after_fence n" and ?k = "leaf_recs n ! i" and ?p = "leaf_p n"
  let ?lo = "8 * slot_count (lf_meta n) + unat (remaining_size (lf_meta n))"
  define len where "len = length s + length val"
  define d where "d = write_at (?lo - len) (s @ val) (lf_data n)"
  define off where "off = leaf_current_lowest_offset n - of_nat len"
  define m where "m = (set_op_type (set_value_len ?k (of_nat (length val))) t)\<lparr>lk_offset := off\<rparr>"
  define w where "w = remaining_size (lf_meta n) - of_nat len"
  note at = leaf_rec_at [OF i refl] and reg = leaf_region_at [OF wf i]
  have lo: "?lo \<le> length (lf_data n)" "length (lf_data n) \<le> 32736" "len \<le> unat (remaining_size (lf_meta n))"
    using leaf_wfD(1,4) [OF wf] room by (auto simp: len_def)
  have ulen: "unat (of_nat len :: u16) = len" "unat (of_nat (length val) :: u16) = length val"
    using lo val by (simp_all add: unat_of_nat_nowrap)
  have uoff: "unat off = ?lo - len" and uw: "unat w = unat (remaining_size (lf_meta n)) - len"
    using lo by (simp_all add: off_def w_def unat_sub_nowrap leaf_lowest_offset_eq [OF wf] ulen)
  have slen: "unat (get_key_len ?k) - ?p = length s"
    using leaf_entry_eq [OF wf at(2)] s at(3) by simp
  have m: "get_key_len m = get_key_len ?k" "unat (value_len m) = length val"
    "preview_bytes m = preview_bytes ?k" "meta_op_type m = t" "lk_offset m = off"
    using val ulen by (simp_all add: m_def)
  have r: "rec_region ?p m = (?lo - len, len)"
    by (simp add: rec_region_def m uoff slen len_def)
  have dlen: "length d = length (lf_data n)" using lo by (simp add: d_def len_def)
  have slots: "slot_metas leaf_meta_dec (slot_count (lf_meta n)) d = leaf_metas n"
    unfolding leaf_metas_def d_def by (rule leaf_slot.metas_write_record) (use lo in \<open>auto simp: len_def\<close>)
  have keep: "region_read d (leaf_regions n ! j) = region_read (lf_data n) (leaf_regions n ! j)"
    if "j < length (leaf_regions n)" for j
    using regions_ok_nth [OF leaf_wfD(3) [OF wf] that] lo
    unfolding d_def region_read_def by (intro read_write_disjoint) (auto simp: len_def)
  have regs: "regions_ok (8 * slot_count (lf_meta n) + unat w) (length (lf_data n))
      ((leaf_regions n)[?f + i := rec_region ?p m])"
    using regions_ok_move [OF leaf_wfD(3) [OF wf] _ lo(1) reg(2), of len] lo(3) by (simp add: r uw)
  have sum: "sum_list (map snd ((leaf_regions n)[?f + i := rec_region ?p m])) +
      8 * slot_count (lf_meta n) + unat w \<le> length (lf_data n)"
    using sum_list_update_le [OF reg(2), of "rec_region ?p m"] leaf_wfD(4) [OF wf] lo(3) by (simp add: r uw)
  have "read_at (?lo - len) len d = s @ val"
    unfolding d_def by (rule read_write_same) (use lo in \<open>auto simp: len_def\<close>)
  then have "read_at (?lo - len) (length s) d = s" "read_at (?lo - len + length s) (length val) d = val"
    using lo dlen by (auto simp: len_def read_at_add append_eq_append_conv)
  then have entry: "leaf_entry_in ?p d m = (fst (leaf_entries n ! i), t, val)"
    using leaf_entry_inI [of m "?lo - len" ?p "length s" "length val" d s val] lo(1,3) dlen slen
    by (simp add: m uoff s len_def)
  have n': "n' = n\<lparr>lf_data := put_slot (?f + i) (leaf_meta_enc m) d, lf_meta := (lf_meta n)\<lparr>remaining_size := w\<rparr>\<rparr>"
    unfolding n'_def leaf_move_def Let_def at(1) leaf_lowest_offset_eq [OF wf]
    by (simp only: len_def [symmetric] d_def [symmetric] off_def [symmetric] w_def [symmetric] m_def [symmetric])
  note * = leaf_put_rec [OF wf i dlen slots keep regs sum entry m(1,3), folded n', unfolded s]
  show "leaf_wf n'" "leaf_framed n n'" "leaf_entries n' = (leaf_entries n)[i := (s, t, val)]"
    by (rule *; assumption)+
  show "unat (remaining_size (lf_meta n')) = unat (remaining_size (lf_meta n)) - (length s + length val)"
    using uw by (simp add: n' len_def)
qed

section \<open>Adding a record\<close>

definition leaf_add :: "leaf_node \<Rightarrow> nat \<Rightarrow> bytes \<Rightarrow> bytes \<Rightarrow> op_type \<Rightarrow> leaf_node" where
  "leaf_add n pos key val t =
     (let s = drop (leaf_p n) key; len = length s + length val;
          off = leaf_current_lowest_offset n - of_nat len
      in n\<lparr>lf_data := add_entry pos (slot_count (lf_meta n))
             (leaf_meta_enc (leaf_make_prefixed_meta off (of_nat (length val)) key (prefix_len n) t))
             (unat (leaf_current_lowest_offset n) - len) (s @ val) (lf_data n),
           lf_meta := increment_value_count
             ((lf_meta n)\<lparr>remaining_size := remaining_size (lf_meta n) - of_nat (len + 8)\<rparr>)\<rparr>)"

lemma leaf_add_shape:
  fixes t :: op_type and pos :: nat
  assumes wf: "leaf_wf n" and p: "leaf_p n \<le> length key" and klen: "length key < 16384" "length val < 32768"
    and room: "length key - leaf_p n + length val + 8 \<le> unat (remaining_size (lf_meta n))"
  defines "n' \<equiv> leaf_add n pos key val t" and "len \<equiv> length key - leaf_p n + length val"
    and "lo \<equiv> 8 * slot_count (lf_meta n) + unat (remaining_size (lf_meta n))"
  shows "slot_count (lf_meta n') = Suc (slot_count (lf_meta n))"
    and "unat (remaining_size (lf_meta n')) = unat (remaining_size (lf_meta n)) - (len + 8)"
    and "same_flags (lf_meta n) (lf_meta n')" "node_size (lf_meta n') = node_size (lf_meta n)"
    and "\<exists>m. unat (lk_offset m) = lo - len \<and> unat (get_key_len m) = length key \<and>
      unat (value_len m) = length val \<and> meta_op_type m = t \<and> preview_bytes m = preview_of (drop (leaf_p n) key) \<and>
      lf_data n' = add_entry pos (slot_count (lf_meta n)) (leaf_meta_enc m) (lo - len)
        (drop (leaf_p n) key @ val) (lf_data n)"
proof -
  define off where "off = leaf_current_lowest_offset n - of_nat len"
  let ?m1 = "(lf_meta n)\<lparr>remaining_size := remaining_size (lf_meta n) - of_nat (len + 8)\<rparr>"
  let ?m = "leaf_make_prefixed_meta off (of_nat (length val)) key (prefix_len n) t"
  have le: "lo \<le> 32736" "len + 8 \<le> unat (remaining_size (lf_meta n))"
    using leaf_wfD(1,4) [OF wf] room by (auto simp: lo_def len_def)
  have ulen: "unat (of_nat (len + 8) :: u16) = len + 8" "unat (of_nat len :: u16) = len"
    "unat (of_nat (length val) :: u16) = length val"
    using le klen(2) by (simp_all add: lo_def unat_of_nat_nowrap del: of_nat_add)
  have uoff: "unat off = lo - len"
    using le by (simp add: off_def lo_def unat_sub_nowrap leaf_lowest_offset_eq [OF wf] ulen)
  have meta': "lf_meta n' = increment_value_count ?m1"
    by (simp add: n'_def leaf_add_def Let_def len_def del: of_nat_add of_nat_diff)
  have c1: "slot_count ?m1 = slot_count (lf_meta n)" by (simp add: meta_count_with_fence_def)
  have "slot_count (lf_meta n) < 4095" using le by (simp add: lo_def)
  note inc = increment_value_count_laws [of ?m1, unfolded c1, OF this]
  show "slot_count (lf_meta n') = Suc (slot_count (lf_meta n))" using inc(1) by (simp add: meta')
  show "unat (remaining_size (lf_meta n')) = unat (remaining_size (lf_meta n)) - (len + 8)"
    unfolding meta' inc(4) using le by (simp add: unat_sub_nowrap ulen del: of_nat_add)
  show "same_flags (lf_meta n) (lf_meta n')" "node_size (lf_meta n') = node_size (lf_meta n)"
    using inc(2,3) unfolding meta' by (simp_all add: same_flags_def flag_bits)
  note mk = leaf_make_prefixed_meta_laws [OF klen(1), where off = off and v = "of_nat (length val)"
      and p = "prefix_len n" and t = t]
  have "lf_data n' = add_entry pos (slot_count (lf_meta n)) (leaf_meta_enc ?m) (lo - len)
        (drop (leaf_p n) key @ val) (lf_data n)"
    by (simp add: n'_def leaf_add_def Let_def leaf_lowest_offset_eq [OF wf] lo_def len_def off_def)
  then show "\<exists>m. unat (lk_offset m) = lo - len \<and> unat (get_key_len m) = length key \<and>
      unat (value_len m) = length val \<and> meta_op_type m = t \<and> preview_bytes m = preview_of (drop (leaf_p n) key) \<and>
      lf_data n' = add_entry pos (slot_count (lf_meta n)) (leaf_meta_enc m) (lo - len)
        (drop (leaf_p n) key @ val) (lf_data n)"
    using mk uoff ulen(3) klen(2) by (intro exI [of _ ?m]) simp
qed

lemma drop_ins_at: "f \<le> length xs \<Longrightarrow> drop f (ins_at (f + i) x xs) = ins_at i x (drop f xs)"
  by (simp add: ins_at_def drop_take) (metis add.commute drop_drop take_drop)

lemma leaf_add_spec:
  fixes t :: op_type
  assumes wf: "leaf_wf n" and p: "leaf_p n \<le> length key" and klen: "length key < 16384" "length val < 32768"
    and room: "length key - leaf_p n + length val + 8 \<le> unat (remaining_size (lf_meta n))"
    and i: "i \<le> length (leaf_recs n)"
  defines "n' \<equiv> leaf_add n (first_meta_pos_after_fence n + i) key val t"
  shows "leaf_entries n' = ins_at i (drop (leaf_p n) key, t, val) (leaf_entries n)" "leaf_framed n n'"
    and "ascending (map fst (leaf_entries n')) \<Longrightarrow> leaf_wf n'"
proof -
  let ?f = "first_meta_pos_after_fence n" and ?s = "drop (leaf_p n) key" and ?p = "leaf_p n"
  define c where "c = slot_count (lf_meta n)"
  define rem where "rem = unat (remaining_size (lf_meta n))"
  define len where "len = length key - ?p + length val"
  note sh = leaf_add_shape [OF wf p klen room, where pos = "?f + i" and t = t, folded n'_def c_def rem_def len_def]
  obtain m where m: "unat (lk_offset m) = 8 * c + rem - len" "unat (get_key_len m) = length key"
    "unat (value_len m) = length val" "meta_op_type m = t" "preview_bytes m = preview_of ?s"
    "lf_data n' = add_entry (?f + i) c (leaf_meta_enc m) (8 * c + rem - len) (?s @ val) (lf_data n)"
    using sh(5) by blast
  have fc: "?f \<le> c" using leaf_wfD(2) [OF wf] by (simp add: c_def)
  have room': "len + 8 \<le> rem" and lo: "8 * c + rem \<le> length (lf_data n)"
    using room leaf_wfD(4) [OF wf] by (simp_all add: len_def rem_def c_def)
  have reclen: "length (?s @ val) = len" using p by (simp add: len_def)
  have side: "?f + i \<le> c" "8 * (c + 1) \<le> 8 * c + rem - len" "8 * c + rem - len + length (?s @ val) \<le> length (lf_data n)"
    using i fc room' lo reclen by (auto simp: c_def)
  have hf: "leaf_has_fence n' = leaf_has_fence n" using sh(3) by (simp add: leaf_has_fence_def same_flags_def)
  then have f': "first_meta_pos_after_fence n' = ?f" by (simp add: first_meta_pos_after_fence_def)
  have pl: "prefix_len n' = prefix_len n" by (simp add: n'_def leaf_add_def Let_def)
  have len': "length (lf_data n') = length (lf_data n)" unfolding m(6) by (rule leaf_slot.length_add_entry [OF side])
  have metas': "leaf_metas n' = ins_at (?f + i) m (leaf_metas n)"
    unfolding leaf_metas_def sh(1) m(6) using leaf_slot.metas_add_entry [OF side, of m] by (simp add: c_def)
  then have recs': "leaf_recs n' = ins_at i m (leaf_recs n)"
    using fc by (simp add: leaf_recs_def f' drop_ins_at c_def)
  have keep: "region_read (lf_data n') r = region_read (lf_data n) r" if "r \<in> set (leaf_regions n)" for r
    unfolding m(6) region_read_def using leaf_wfD(3) [OF wf] that side(1,2) reclen room'
    by (intro leaf_slot.read_add_entry) (auto simp: regions_ok_def c_def rem_def)
  have slots: "leaf_get_kv_meta n' j = leaf_get_kv_meta n j" if "j < ?f" for j
    using arg_cong [OF metas', of "\<lambda>xs. xs ! j"] that fc sh(1) side(1)
    by (simp add: leaf_metas_def leaf_get_kv_meta_def c_def nth_ins_at)
  note frame = leaf_fence_frame [OF leaf_wfD(6) [OF wf] hf pl len' slots keep [unfolded leaf_regions_def], simplified]
  show "leaf_framed n n'"
    using frame sh(3,4) pl by (simp add: leaf_framed_def) (simp add: n'_def leaf_add_def Let_def)
  have old: "map (leaf_entry_in ?p (lf_data n')) (leaf_recs n) = leaf_entries n"
    unfolding leaf_entries_def by (intro map_cong refl leaf_entry_in_cong keep) (simp add: leaf_regions_def)
  have "read_at (8 * c + rem - len) len (lf_data n') = ?s @ val"
    unfolding m(6) using leaf_slot.read_added_entry [OF side] reclen by simp
  then have new: "leaf_entry_in ?p (lf_data n') m = (?s, t, val)"
    using p by (simp add: leaf_entry_in_def Let_def m(1-4) len_def)
  show entries: "leaf_entries n' = ins_at i (?s, t, val) (leaf_entries n)"
    unfolding leaf_entries_def [of n'] recs' pl map_ins_at new old ..
  show "leaf_wf n'" if "ascending (map fst (leaf_entries n'))"
  proof -
    have r: "rec_region ?p m = (8 * c + rem - len, len)" by (simp add: rec_region_def m(1-3) len_def)
    have regs': "leaf_regions n' = ins_at (?f + i) (8 * c + rem - len, len) (leaf_regions n)"
      unfolding leaf_regions_def frame(1) recs' pl map_ins_at r by (simp add: ins_at_def)
    have "regions_ok (8 * c + rem - len) (length (lf_data n)) (leaf_regions n')"
      unfolding regs' using leaf_wfD(3) [OF wf] room' lo side(1) leaf_wfD(2) [OF wf]
      by (intro regions_ok_ins_at) (simp_all add: c_def rem_def)
    moreover have "8 * Suc c + (rem - (len + 8)) = 8 * c + rem - len" using room' by simp
    moreover have "sum_list (map snd (leaf_regions n')) + 8 * c + rem \<le> length (lf_data n) + len"
      using leaf_wfD(4) [OF wf] by (simp add: regs' map_ins_at sum_list_ins_at c_def rem_def)
    moreover have "list_all (rec_ok ?p (lf_data n')) (leaf_recs n')"
    proof -
      have "rec_ok ?p (lf_data n') m" using p preview_of_take [of ?s] by (simp add: rec_ok_def new m(2,5))
      moreover have "rec_ok ?p (lf_data n') k" if "k \<in> set (leaf_recs n)" for k
        using leaf_wfD(7) [OF wf that] keep [of "rec_region ?p k"] that
          leaf_entry_in_cong [of "lf_data n'" ?p k "lf_data n"] by (simp add: rec_ok_def leaf_regions_def)
      ultimately show ?thesis by (simp add: recs' list_all_iff)
    qed
    ultimately show ?thesis
      using leaf_wfD(1,8) [OF wf] fc that frame(2) sh(1,2,4) len' room'
      by (simp add: leaf_wf_def Let_def f' pl)
  qed
qed

section \<open>Insertion\<close>

text \<open>
  The branches of an insertion over the abstract position of the key: \<open>leaf_spot\<close> is the number
  of records with a smaller key.
\<close>

definition leaf_spot :: "leaf_node \<Rightarrow> bytes \<Rightarrow> nat" where
  "leaf_spot n key = length (takeWhile (\<lambda>e. fst e < drop (leaf_p n) key) (leaf_entries n))"

lemma leaf_spot_unique:
  assumes "pos \<le> length (leaf_entries n)" "\<And>i. i < pos \<Longrightarrow> fst (leaf_entries n ! i) < drop (leaf_p n) key"
    and "\<And>i. pos \<le> i \<Longrightarrow> i < length (leaf_entries n) \<Longrightarrow> drop (leaf_p n) key \<le> fst (leaf_entries n ! i)"
  shows "leaf_spot n key = pos"
proof -
  have "takeWhile (\<lambda>e. fst e < drop (leaf_p n) key) (leaf_entries n) = take pos (leaf_entries n)"
    by (rule takeWhile_eq_take_P_nth) (use assms in \<open>auto simp: not_less\<close>)
  then show ?thesis using assms(1) by (simp add: leaf_spot_def)
qed

lemma leaf_spot_spec:
  assumes "leaf_wf n" "leaf_p n \<le> length key"
  shows "leaf_lower_bound n key = Some (first_meta_pos_after_fence n + leaf_spot n key)"
    and "linear_lower_bound n key = Some (first_meta_pos_after_fence n + leaf_spot n key)"
    and "leaf_spot n key \<le> length (leaf_entries n)"
    and "i < leaf_spot n key \<Longrightarrow> fst (leaf_entries n ! i) < drop (leaf_p n) key"
    and "leaf_spot n key \<le> i \<Longrightarrow> i < length (leaf_entries n) \<Longrightarrow> drop (leaf_p n) key \<le> fst (leaf_entries n ! i)"
proof -
  obtain pos where pos: "leaf_lower_bound n key = Some (first_meta_pos_after_fence n + pos)"
    "pos \<le> length (leaf_entries n)" "\<And>i. i < pos \<Longrightarrow> fst (leaf_entries n ! i) < drop (leaf_p n) key"
    "\<And>i. pos \<le> i \<Longrightarrow> i < length (leaf_entries n) \<Longrightarrow> drop (leaf_p n) key \<le> fst (leaf_entries n ! i)"
    using leaf_lower_bound_spec [OF assms] by blast
  have eq: "leaf_spot n key = pos" using leaf_spot_unique [OF pos(2-4)] .
  have "leaf_linear_from n key (first_meta_pos_after_fence n + 0) = first_meta_pos_after_fence n + pos"
    by (rule leaf_linear_from_spec [OF assms(1) pos(2)]) (use pos(3,4) in simp_all)
  then show "linear_lower_bound n key = Some (first_meta_pos_after_fence n + leaf_spot n key)"
    using assms(2) by (simp add: linear_lower_bound_def eq)
  show "leaf_lower_bound n key = Some (first_meta_pos_after_fence n + leaf_spot n key)"
    "leaf_spot n key \<le> length (leaf_entries n)"
    "i < leaf_spot n key \<Longrightarrow> fst (leaf_entries n ! i) < drop (leaf_p n) key"
    "leaf_spot n key \<le> i \<Longrightarrow> i < length (leaf_entries n) \<Longrightarrow> drop (leaf_p n) key \<le> fst (leaf_entries n ! i)"
    using pos by (simp_all add: eq)
qed

text \<open>Whether the key is in the node, and the record it has.\<close>

definition leaf_has :: "leaf_node \<Rightarrow> bytes \<Rightarrow> bool" where
  "leaf_has n key \<longleftrightarrow> drop (leaf_p n) key \<in> fst ` set (leaf_entries n)"

lemma leaf_has_spot:
  assumes "leaf_wf n" "leaf_p n \<le> length key"
  shows "leaf_has n key \<longleftrightarrow> leaf_spot n key < length (leaf_entries n) \<and>
    fst (leaf_entries n ! leaf_spot n key) = drop (leaf_p n) key"
proof
  note sp = leaf_spot_spec(3-5) [OF assms]
  assume "leaf_has n key"
  then obtain i where i: "i < length (leaf_entries n)" "fst (leaf_entries n ! i) = drop (leaf_p n) key"
    by (auto simp: leaf_has_def in_set_conv_nth)
  have "leaf_spot n key \<le> i" using leaf_spot_spec(4) [OF assms, of i] i by fastforce
  moreover have "\<not> leaf_spot n key < i"
  proof
    assume lt: "leaf_spot n key < i"
    then have "fst (leaf_entries n ! leaf_spot n key) < fst (leaf_entries n ! i)"
      using leaf_wfD(5) [OF assms(1)] i sorted_wrt_nth_less [of "(<)" "map fst (leaf_entries n)" _ i] by simp
    then show False using leaf_spot_spec(5) [OF assms, of "leaf_spot n key"] i lt by simp
  qed
  ultimately show "leaf_spot n key < length (leaf_entries n) \<and>
    fst (leaf_entries n ! leaf_spot n key) = drop (leaf_p n) key" using i by simp
next
  assume "leaf_spot n key < length (leaf_entries n) \<and>
    fst (leaf_entries n ! leaf_spot n key) = drop (leaf_p n) key"
  then show "leaf_has n key" unfolding leaf_has_def by (metis image_iff nth_mem)
qed

text \<open>The outcomes of \<^verbatim>\<open>insert\<close>, branch by branch.\<close>

lemma leaf_insert_cases:
  fixes key val :: bytes and t :: op_type
  assumes wf: "leaf_wf n" and p: "leaf_p n \<le> length key" and klen: "length key < 16384" "length val < 32768"
  defines "f \<equiv> first_meta_pos_after_fence n" and "i \<equiv> leaf_spot n key" and "s \<equiv> drop (leaf_p n) key"
    and "rem \<equiv> unat (remaining_size (lf_meta n))"
  shows "leaf_insert n key val t F =
    (if leaf_has n key then
       if t = Delete then Some (write_initial_kv_meta n (f + i) (mark_as_deleted (leaf_recs n ! i)), True)
       else if length val \<le> unat (value_len (leaf_recs n ! i)) then Some (leaf_overwrite n (f + i) val t, True)
       else if rem < length s + length val then Some (n, False)
       else if t = Cache then None
       else Some (leaf_move n (f + i) s val t, True)
     else if t = Delete \<and> is_base_page n then Some (n, True)
     else if full_with_fences n (of_nat (length s + length val + 8)) F then Some (n, False)
     else Some (leaf_add n (f + i) key val t, True))"
proof -
  note sp = leaf_spot_spec [OF wf p, folded f_def i_def s_def]
  have has: "leaf_has n key \<longleftrightarrow> i < length (leaf_recs n) \<and> fst (leaf_entries n ! i) = s"
    using leaf_has_spot [OF wf p] by (simp add: i_def s_def)
  have hit: "(f + i < slot_count (lf_meta n) \<and> bytes_cmp (get_remaining_key n (leaf_get_kv_meta n (f + i))) s = Equal)
      \<longleftrightarrow> leaf_has n key"
  proof (cases "i < length (leaf_recs n)")
    case True
    note at = leaf_rec_at [OF True f_def [THEN meta_eq_to_obj_eq]]
    show ?thesis using True at leaf_entry_eq(1) [OF wf at(2)] by (simp add: has)
  qed (auto simp: has f_def)
  have sl: "length s < 16384" using klen(1) by (simp add: s_def)
  have "of_nat (length key) - prefix_len n = of_nat (length s)" using p by (simp add: s_def)
  moreover have "unat (of_nat (length s) :: u16) = length s" using sl by (intro unat_of_nat_nowrap) simp
  ultimately have post: "of_nat (length key) - prefix_len n = of_nat (length s)"
    "unat (of_nat (length s) :: u16) = length s" .
  have uval: "unat (of_nat (length val) :: u16) = length val" using klen(2) by (simp add: unat_of_nat_nowrap)
  have usum: "unat (of_nat (length s) + of_nat (length val) :: u16) = length s + length val"
    using klen sl by (subst unat_add_nowrap) (simp_all only: post(2) uval, simp)
  have vle: "(of_nat (length val) \<le> value_len m) = (length val \<le> unat (value_len m))" for m
    by (simp add: word_le_nat_alt uval)
  have rle: "(remaining_size (lf_meta n) < of_nat (length s) + of_nat (length val)) = (rem < length s + length val)"
    by (simp add: word_less_nat_alt usum rem_def)
  have add8: "of_nat (length s) + of_nat (length val) + 8 = (of_nat (length s + length val + 8) :: u16)" by simp
  note ins = leaf_insert_def [of n key val t F, unfolded Let_def sp(1) s_def [symmetric] post vle rle add8
      Option.bind.simps(2) hit]
  have lo: "unat (leaf_current_lowest_offset n - (of_nat (length s) + of_nat (length val))) =
      unat (leaf_current_lowest_offset n) - (length s + length val)" if "length s + length val \<le> rem"
    using that leaf_lowest_offset_eq [OF wf] by (simp add: unat_sub_nowrap usum rem_def)
  show ?thesis
  proof (cases "leaf_has n key")
    case True
    then have i: "i < length (leaf_recs n)" and e: "fst (leaf_entries n ! i) = s" using has by auto
    note at = leaf_rec_at [OF i f_def [THEN meta_eq_to_obj_eq]]
    have slen: "length s = unat (get_key_len (leaf_recs n ! i)) - leaf_p n"
      using leaf_entry_eq [OF wf at(2)] at(3) e by simp
    have c8: "8 * (f + i + 1) \<le> 8 * slot_count (lf_meta n)" using at(4) by simp
    have le: "8 * slot_count (lf_meta n) + rem \<le> length (lf_data n)" using leaf_wfD(4) [OF wf] by (simp add: rem_def)
    have mv: "write_at (off + length s) val (write_at off s (put_slot (f + i) (leaf_meta_enc m) (lf_data n))) =
        put_slot (f + i) (leaf_meta_enc m) (write_at off (s @ val) (lf_data n))"
      if "length s + length val \<le> rem" "off = 8 * slot_count (lf_meta n) + rem - (length s + length val)" for off m
      using that c8 le leaf_slot.length_enc [of m]
        write_at_write_at [of off s val "put_slot (f + i) (leaf_meta_enc m) (lf_data n)"]
        put_slot_write_record [of "leaf_meta_enc m" "f + i" off "s @ val" "lf_data n"]
      by (simp add: leaf_slot.length_put)
    show ?thesis
      unfolding ins at(1) using True lo mv leaf_lowest_offset_eq [OF wf]
      by (simp add: leaf_overwrite_def Let_def at(1) slen [symmetric] leaf_move_def write_initial_kv_meta_def
          rem_def not_less)
  next
    case False
    have fi: "f + i \<le> slot_count (lf_meta n)" using sp(3) leaf_wfD(2) [OF wf] by (simp add: f_def)
    have two: "write_at (off + length s) val (write_at off s (put_slot (f + i) (leaf_meta_enc m)
          (shift_slots (f + i) (slot_count (lf_meta n)) (lf_data n)))) =
        add_entry (f + i) (slot_count (lf_meta n)) (leaf_meta_enc m) off (s @ val) (lf_data n)"
      if "off + length s + length val \<le> length (lf_data n)" "8 * (slot_count (lf_meta n) + 1) \<le> off" for off m
      using that fi write_at_write_at [of off s val]
      by (simp add: add_entry_def leaf_slot.length_ins)
    show ?thesis
    proof (cases "full_with_fences n (of_nat (length s + length val + 8)) F")
      case notfull: False
      then have "\<not> remaining_size (lf_meta n) < of_nat (length s + length val + 8)"
        by (auto simp: full_with_fences_def)
      moreover have "unat (of_nat (length s + length val + 8) :: u16) = length s + length val + 8"
        using sl klen(2) by (intro unat_of_nat_nowrap) simp
      ultimately have room: "length s + length val + 8 \<le> rem"
        by (simp add: word_less_nat_alt rem_def del: of_nat_add)
      let ?off = "8 * slot_count (lf_meta n) + rem - (length s + length val)"
      have "?off + length s + length val \<le> length (lf_data n)" "8 * (slot_count (lf_meta n) + 1) \<le> ?off"
        using room leaf_wfD(4) [OF wf] by (simp_all add: rem_def)
      note two = two [OF this]
      have lo': "unat (leaf_current_lowest_offset n - (of_nat (length s) + of_nat (length val))) = ?off"
        using lo room leaf_lowest_offset_eq [OF wf] by (simp add: rem_def)
      show ?thesis
        unfolding ins lo' two using False notfull leaf_lowest_offset_eq [OF wf]
        by (simp add: leaf_add_def Let_def rem_def s_def [symmetric])
    qed (simp add: ins False)
  qed
qed

section \<open>Insertion as an operation on sorted records\<close>

text \<open>
  What an insertion does to the contents. A deletion turns an existing record into a tombstone
  that keeps its value; a deletion of an absent key leaves a base page alone and leaves a
  tombstone in a mini-page.
\<close>

definition rec_put ::
  "bool \<Rightarrow> bytes \<Rightarrow> bytes \<Rightarrow> op_type \<Rightarrow> (bytes \<times> op_type \<times> bytes) list \<Rightarrow> (bytes \<times> op_type \<times> bytes) list"
where
  "rec_put base k v t es =
     (case map_of es k of
        Some (t0, v0) \<Rightarrow> upsert k (if t = Delete then (Delete, v0) else (t, v)) es
      | None \<Rightarrow> if base \<and> t = Delete then es else upsert k (t, v) es)"

definition leaf_key_ok :: "leaf_node \<Rightarrow> bytes \<Rightarrow> bool" where
  "leaf_key_ok n key \<longleftrightarrow> take (leaf_p n) key = get_prefix n"

lemma length_get_prefix:
  assumes "leaf_wf n"
  shows "length (get_prefix n) = leaf_p n"
proof (cases "leaf_p n = 0")
  case False
  then have f: "leaf_has_fence n" "\<not> is_infinite_low_fence_key (leaf_get_kv_meta n 0)"
    "leaf_p n \<le> unat (get_key_len (leaf_get_kv_meta n 0))"
    using leaf_wfD(6) [OF assms] by (auto simp: fence_ok_def Let_def split: if_splits)
  have "(unat (lk_offset (leaf_get_kv_meta n 0)), unat (get_key_len (leaf_get_kv_meta n 0))) \<in> set (leaf_regions n)"
    using f by (simp add: leaf_regions_def fence_regions_def Let_def)
  then have "unat (lk_offset (leaf_get_kv_meta n 0)) + unat (get_key_len (leaf_get_kv_meta n 0)) \<le> length (lf_data n)"
    using leaf_wfD(3) [OF assms] by (force simp: regions_ok_def)
  then show ?thesis using f(3) by (simp add: get_prefix_def LOW_FENCE_IDX_def)
qed (simp add: get_prefix_def)

lemma leaf_key_okD:
  assumes "leaf_wf n" "leaf_key_ok n key"
  shows "leaf_p n \<le> length key" "get_prefix n @ drop (leaf_p n) key = key"
proof -
  show "get_prefix n @ drop (leaf_p n) key = key"
    using assms(2) append_take_drop_id [of "leaf_p n" key] by (simp add: leaf_key_ok_def)
  then show "leaf_p n \<le> length key"
    using length_get_prefix [OF assms(1)] by (metis le_add1 length_append)
qed

text \<open>The prefix in front of every key changes neither order nor membership.\<close>

lemma upsert_prefix:
  "upsert (pre @ s) x (map (\<lambda>(s, x). (pre @ s, x)) es) = map (\<lambda>(s, x). (pre @ s, x)) (upsert s x es)"
  for pre s :: bytes
  by (induction es) auto

lemma map_of_prefix: "map_of (map (\<lambda>(s, x). (pre @ s, x)) es) (pre @ s) = map_of es s"
  for pre s :: bytes
  by (induction es) auto

lemma rec_put_prefix:
  "rec_put b (pre @ s) v t (map (\<lambda>(s, x). (pre @ s, x)) es) = map (\<lambda>(s, x). (pre @ s, x)) (rec_put b s v t es)"
  for pre s :: bytes
  by (auto simp: rec_put_def map_of_prefix upsert_prefix split: option.splits)

lemma ascending_rec_put: "ascending (map fst es) \<Longrightarrow> ascending (map fst (rec_put b k v t es))"
  by (auto simp: rec_put_def ascending_upsert split: option.splits)

lemma leaf_entry_at_spot:
  assumes "leaf_wf n" "leaf_p n \<le> length key" "leaf_has n key"
  defines "i \<equiv> leaf_spot n key"
  shows "i < length (leaf_recs n)" "fst (leaf_entries n ! i) = drop (leaf_p n) key"
    and "map_of (leaf_entries n) (drop (leaf_p n) key) = Some (snd (leaf_entries n ! i))"
    and "upsert (drop (leaf_p n) key) x (leaf_entries n) = (leaf_entries n)[i := (drop (leaf_p n) key, x)]"
proof -
  show i: "i < length (leaf_recs n)" and e: "fst (leaf_entries n ! i) = drop (leaf_p n) key"
    using leaf_has_spot [OF assms(1,2)] assms(3) by (simp_all add: i_def)
  have asc: "ascending (map fst (leaf_entries n))" by (rule leaf_wfD(5) [OF assms(1)])
  show "upsert (drop (leaf_p n) key) x (leaf_entries n) = (leaf_entries n)[i := (drop (leaf_p n) key, x)]"
    using i e asc by (intro upsert_update) simp_all
  have "distinct (map fst (leaf_entries n))"
    using asc strict_sorted_iff by blast
  then show "map_of (leaf_entries n) (drop (leaf_p n) key) = Some (snd (leaf_entries n ! i))"
    using i e nth_mem [of i "leaf_entries n"] by (metis length_leaf_recs map_of_eq_Some_iff prod.collapse)
qed

lemma leaf_absent_spot:
  assumes "leaf_wf n" "leaf_p n \<le> length key" "\<not> leaf_has n key"
  shows "map_of (leaf_entries n) (drop (leaf_p n) key) = None"
    and "upsert (drop (leaf_p n) key) x (leaf_entries n) =
      ins_at (leaf_spot n key) (drop (leaf_p n) key, x) (leaf_entries n)"
proof -
  show "map_of (leaf_entries n) (drop (leaf_p n) key) = None"
    using assms(3) by (simp add: leaf_has_def map_of_eq_None_iff)
  show "upsert (drop (leaf_p n) key) x (leaf_entries n) =
      ins_at (leaf_spot n key) (drop (leaf_p n) key, x) (leaf_entries n)"
  proof (rule upsert_ins_at)
    show "drop (leaf_p n) key < fst (leaf_entries n ! i)" if "leaf_spot n key \<le> i" "i < length (leaf_entries n)" for i
    proof -
      have "drop (leaf_p n) key \<noteq> fst (leaf_entries n ! i)"
        using assms(3) that(2) unfolding leaf_has_def by (metis image_eqI nth_mem)
      then show ?thesis using leaf_spot_spec(5) [OF assms(1,2) that] by (simp add: less_le)
    qed
  qed (use leaf_spot_spec(3,4) [OF assms(1,2)] in auto)
qed

lemma leaf_view_cong: "get_prefix n' = get_prefix n \<Longrightarrow> leaf_entries n' = es \<Longrightarrow>
   leaf_view n' = map (\<lambda>(s, x). (get_prefix n @ s, x)) es"
  by (simp add: leaf_view_def)

text \<open>A successful insertion puts the record; a refusal changes nothing.\<close>

lemma leaf_insert_true:
  assumes wf: "leaf_wf n" and ok: "leaf_key_ok n key" and klen: "length key < 16384" "length val < 32768"
    and ins: "leaf_insert n key val t F = Some (n', True)"
  shows "leaf_wf n'" "leaf_framed n n'" "leaf_view n' = rec_put (is_base_page n) key val t (leaf_view n)"
    and "unat (remaining_size (lf_meta n')) + (length key - leaf_p n + length val + 8) \<ge>
      unat (remaining_size (lf_meta n))"
proof -
  let ?f = "first_meta_pos_after_fence n" and ?i = "leaf_spot n key" and ?s = "drop (leaf_p n) key"
  note p = leaf_key_okD(1) [OF wf ok]
  note cases = leaf_insert_cases [OF wf p klen, of t F]
  have "leaf_wf n' \<and> leaf_framed n n' \<and> leaf_entries n' = rec_put (is_base_page n) ?s val t (leaf_entries n) \<and>
    unat (remaining_size (lf_meta n')) + (length key - leaf_p n + length val + 8) \<ge>
      unat (remaining_size (lf_meta n))"
  proof (cases "leaf_has n key")
    case True
    note at = leaf_entry_at_spot [OF wf p True]
    obtain t0 v0 where e: "snd (leaf_entries n ! ?i) = (t0, v0)" by force
    have put: "rec_put (is_base_page n) ?s val t (leaf_entries n) =
        (leaf_entries n)[?i := (?s, if t = Delete then (Delete, v0) else (t, val))]"
      using at(3) e by (simp add: rec_put_def at(4))
    consider (del) "t = Delete" "n' = write_initial_kv_meta n (?f + ?i) (mark_as_deleted (leaf_recs n ! ?i))"
      | (over) "t \<noteq> Delete" "length val \<le> unat (value_len (leaf_recs n ! ?i))" "n' = leaf_overwrite n (?f + ?i) val t"
      | (move) "t \<noteq> Delete" "\<not> unat (remaining_size (lf_meta n)) < length ?s + length val"
          "n' = leaf_move n (?f + ?i) ?s val t"
      using cases ins True by (auto split: if_splits)
    then show ?thesis
    proof cases
      case del
      note w = leaf_write_slot [OF wf at(1), of "mark_as_deleted (leaf_recs n ! ?i)", folded del(2)]
      show ?thesis unfolding put using w by (simp add: mark_as_deleted_def del(1) at(2) e)
    next
      case over
      note w = leaf_overwrite_spec [OF wf at(1) over(2), of t, folded over(3)]
      show ?thesis using w over(1) by (simp add: put at(2))
    next
      case move
      note w = leaf_move_spec [OF wf at(1,2) _ klen(2), of t, folded move(3)]
      show ?thesis using w move(1,2) by (simp add: put)
    qed
  next
    case False
    note no = leaf_absent_spot [OF wf p False]
    consider (skip) "t = Delete \<and> is_base_page n" "n' = n"
      | (add) "\<not> (t = Delete \<and> is_base_page n)" "\<not> full_with_fences n (of_nat (length ?s + length val + 8)) F"
          "n' = leaf_add n (?f + ?i) key val t"
      using cases ins False by (auto split: if_splits)
    then show ?thesis
    proof cases
      case skip
      then show ?thesis using wf no(1) by (simp add: rec_put_def)
    next
      case add
      have room: "length key - leaf_p n + length val + 8 \<le> unat (remaining_size (lf_meta n))"
        using add(2) klen unat_of_nat_nowrap [where 'a = 16, of "length ?s + length val + 8"]
        by (auto simp: full_with_fences_def word_less_nat_alt split: if_splits simp del: of_nat_add)
      have i: "?i \<le> length (leaf_recs n)" using leaf_spot_spec(3) [OF wf p] by simp
      note w = leaf_add_spec [OF wf p klen room i, of t, folded add(3)]
      have ents: "leaf_entries n' = rec_put (is_base_page n) ?s val t (leaf_entries n)"
        using w(1) add(1) no by (auto simp: rec_put_def)
      moreover have "ascending (map fst (leaf_entries n'))"
        unfolding ents by (rule ascending_rec_put [OF leaf_wfD(5) [OF wf]])
      ultimately show ?thesis
        using w(2,3) leaf_add_shape(2) [OF wf p klen room, where t = t and pos = "?f + ?i", folded add(3)] by simp
    qed
  qed
  then show "leaf_wf n'" and fr: "leaf_framed n n'" and
    "unat (remaining_size (lf_meta n')) + (length key - leaf_p n + length val + 8) \<ge>
      unat (remaining_size (lf_meta n))"
    and "leaf_view n' = rec_put (is_base_page n) key val t (leaf_view n)"
    using leaf_key_okD(2) [OF wf ok] rec_put_prefix [of "is_base_page n" "get_prefix n" ?s val t "leaf_entries n"]
    by (auto simp: leaf_view_def leaf_framed_def)
qed

lemma leaf_insert_false:
  assumes "leaf_wf n" "leaf_key_ok n key" "length key < 16384" "length val < 32768"
    and "leaf_insert n key val t F = Some (n', False)"
  shows "n' = n"
  using leaf_insert_cases [OF assms(1) leaf_key_okD(1) [OF assms(1,2)] assms(3,4), of t F] assms(5)
  by (auto split: if_splits)

text \<open>With room for the record, and no fence reserve asked for, an insertion succeeds.\<close>

lemma leaf_insert_room:
  assumes wf: "leaf_wf n" and ok: "leaf_key_ok n key" and klen: "length key < 16384" "length val < 32768"
    and room: "length key - leaf_p n + length val + 8 \<le> unat (remaining_size (lf_meta n))"
    and cache: "t = Cache \<Longrightarrow> key \<notin> fst ` set (leaf_view n)"
  obtains n' where "leaf_insert n key val t 0 = Some (n', True)"
proof -
  let ?s = "drop (leaf_p n) key"
  note p = leaf_key_okD [OF wf ok]
  have "leaf_has n key \<Longrightarrow> key \<in> fst ` set (leaf_view n)"
    using p(2) by (force simp: leaf_has_def leaf_view_def)
  then have c: "leaf_has n key \<Longrightarrow> t \<noteq> Cache" using cache by blast
  have "\<not> full_with_fences n (of_nat (length ?s + length val + 8)) 0"
  proof -
    let ?l = "leaf_get_kv_meta n LOW_FENCE_IDX" and ?h = "leaf_get_kv_meta n HIGH_FENCE_IDX"
    have r: "unat (of_nat (length ?s + length val + 8) :: u16) = length ?s + length val + 8"
      using klen by (intro unat_of_nat_nowrap) simp
    have rem: "unat (remaining_size (lf_meta n)) \<le> 32736" using leaf_wfD(1,4) [OF wf] by simp
    have "unat (remaining_size (lf_meta n)) \<le> unat (remaining_size (lf_meta n) + get_key_len ?l)"
      "unat (remaining_size (lf_meta n)) \<le> unat (remaining_size (lf_meta n) + get_key_len ?h)"
      "unat (remaining_size (lf_meta n)) \<le> unat (remaining_size (lf_meta n) + get_key_len ?l + get_key_len ?h)"
      using rem packed_len_less(1) [of ?l] packed_len_less(1) [of ?h] by (simp_all add: unat_add_nowrap)
    with room r show ?thesis
      by (simp add: full_with_fences_def Let_def word_less_nat_alt word_le_nat_alt not_less del: of_nat_add)
  qed
  then show thesis
    using leaf_insert_cases [OF wf p(1) klen, of t 0] c room that by (auto split: if_splits)
qed

section \<open>Point reads\<close>

lemma mark_as_ref_laws [simp]:
  "lk_offset (mark_as_ref m) = lk_offset m" "get_key_len (mark_as_ref m) = get_key_len m"
  "preview_bytes (mark_as_ref m) = preview_bytes m" "meta_op_type (mark_as_ref m) = meta_op_type m"
  by (simp_all add: mark_as_ref_def get_key_len_def meta_op_type_def)

text \<open>Setting a reference bit is invisible in the contents.\<close>

lemma leaf_mark_ref:
  assumes wf: "leaf_wf n" and i: "i < length (leaf_recs n)"
  defines "n' \<equiv> write_initial_kv_meta n (first_meta_pos_after_fence n + i) (mark_as_ref (leaf_recs n ! i))"
  shows "leaf_wf n'" "leaf_framed n n'" "leaf_view n' = leaf_view n"
proof -
  note w = leaf_write_slot [OF wf i, of "mark_as_ref (leaf_recs n ! i)", folded n'_def]
  show "leaf_wf n'" "leaf_framed n n'" using w by (simp_all add: value_len_ref)
  have "meta_op_type (leaf_recs n ! i) = fst (snd (leaf_entries n ! i))"
    by (simp add: leaf_rec_at(3) [OF i refl] leaf_entry_in_def Let_def)
  then have "leaf_entries n' = leaf_entries n"
    using w(4) by (simp add: value_len_ref)
  then show "leaf_view n' = leaf_view n"
    using \<open>leaf_framed n n'\<close> by (simp add: leaf_view_def leaf_framed_def)
qed

definition leaf_read_outcome ::
  "(op_type \<times> bytes) option \<Rightarrow> bytes \<Rightarrow> (bytes \<times> leaf_read_result) option" where
  "leaf_read_outcome r out =
     (case r of
        None \<Rightarrow> Some (out, NotFound)
      | Some (t, v) \<Rightarrow>
          if is_absent t then Some (out, Deleted)
          else if length out < length v then None
          else Some (write_at 0 v out, Found (of_nat (length v))))"

lemma map_of_view:
  assumes "leaf_wf n" "leaf_key_ok n key"
  shows "map_of (leaf_view n) key = map_of (leaf_entries n) (drop (leaf_p n) key)"
  unfolding leaf_view_def by (subst leaf_key_okD(2) [OF assms, symmetric]) (rule map_of_prefix)

text \<open>Either search reads the record that the contents hold under the key.\<close>

lemma read_by_key_inner_spec:
  assumes wf: "leaf_wf n" and ok: "leaf_key_ok n key"
  shows "case leaf_read_outcome (map_of (leaf_view n) key) out of
      None \<Rightarrow> read_by_key_inner n key out binary = None
    | Some (out', res) \<Rightarrow> \<exists>n'. read_by_key_inner n key out binary = Some (n', out', res) \<and>
        leaf_wf n' \<and> leaf_framed n n' \<and> leaf_view n' = leaf_view n"
proof -
  let ?f = "first_meta_pos_after_fence n" and ?i = "leaf_spot n key" and ?s = "drop (leaf_p n) key"
  note p = leaf_key_okD(1) [OF wf ok] and mv = map_of_view [OF wf ok]
  have pos: "(if binary then leaf_lower_bound n key else linear_lower_bound n key) = Some (?f + ?i)"
    using leaf_spot_spec(1,2) [OF wf p] by simp
  note rd = read_by_key_inner_def [of n key out binary, unfolded pos Option.bind.simps(2)]
  have fc: "?f \<le> slot_count (lf_meta n)" by (rule leaf_wfD(2) [OF wf])
  show ?thesis
  proof (cases "?i < length (leaf_recs n)")
    case False
    then have "\<not> leaf_has n key" using leaf_has_spot [OF wf p] by simp
    then have "map_of (leaf_view n) key = None" using leaf_absent_spot(1) [OF wf p] mv by simp
    moreover have "slot_count (lf_meta n) \<le> ?f + ?i" using False fc by simp
    ultimately show ?thesis using wf by (simp add: leaf_read_outcome_def rd)
  next
    case True
    let ?m = "leaf_recs n ! ?i"
    define n1 where "n1 = (if \<not> is_referenced ?m then write_initial_kv_meta n (?f + ?i) (mark_as_ref ?m) else n)"
    note at = leaf_rec_at [OF True refl]
    note e = leaf_entry_eq [OF wf at(2)]
    have n1: "leaf_wf n1" "leaf_framed n n1" "leaf_view n1 = leaf_view n"
      using leaf_mark_ref [OF wf True] wf by (simp_all add: n1_def)
    have body: "read_by_key_inner n key out binary =
        (if get_remaining_key n ?m \<noteq> ?s then Some (n1, out, NotFound)
         else if is_absent (meta_op_type ?m) then Some (n1, out, Deleted)
         else if length out < length (leaf_get_value n ?m) then None
         else Some (n1, write_at 0 (leaf_get_value n ?m) out, Found (of_nat (length (leaf_get_value n ?m)))))"
      using at(4) by (simp add: rd at(1) Let_def n1_def e(3))
    show ?thesis
    proof (cases "leaf_has n key")
      case has: True
      note es = leaf_entry_at_spot [OF wf p has]
      have "get_remaining_key n ?m = ?s" "map_of (leaf_view n) key = Some (meta_op_type ?m, leaf_get_value n ?m)"
        using es(2,3) at(3) e(1) mv by simp_all
      then show ?thesis using n1 body by (simp add: leaf_read_outcome_def)
    next
      case no: False
      have "get_remaining_key n ?m \<noteq> ?s"
        using no True at(3) e(1) leaf_has_spot [OF wf p] by simp
      moreover have "map_of (leaf_view n) key = None" using leaf_absent_spot(1) [OF wf p no] mv by simp
      ultimately show ?thesis using n1 body by (simp add: leaf_read_outcome_def)
    qed
  qed
qed

lemma rec_put_lookup:
  "map_of (rec_put b k v t es) k' =
    (if k' = k then
       (case map_of es k of
          Some (t0, v0) \<Rightarrow> Some (if t = Delete then (Delete, v0) else (t, v))
        | None \<Rightarrow> if b \<and> t = Delete then None else Some (t, v))
     else map_of es k')"
  by (auto simp: rec_put_def map_of_upsert split: option.splits)

end
