(* ===== verification/Leaf_Init.thy ===== *)
theory Leaf_Init
  imports Leaf_Insert
begin

text \<open>
  Initialisation of a leaf: a mini-page without fences, or a base page whose two fence keys fix
  the prefix that its records share.
\<close>

section \<open>Initialisation\<close>

definition fence_meta_ok :: "bool \<Rightarrow> leaf_kv_meta \<Rightarrow> nat \<Rightarrow> bytes \<Rightarrow> bool" where
  "fence_meta_ok high m off key \<longleftrightarrow>
     (if key = [] then m = (if high then make_infinite_high_fence_key else make_infinite_low_fence_key)
      else unat (lk_offset m) = off \<and> unat (get_key_len m) = length key)"

lemma fence_meta_infinite:
  assumes "fence_meta_ok high m off key" "off \<le> 32736"
  shows "(if high then is_infinite_high_fence_key m else is_infinite_low_fence_key m) \<longleftrightarrow> key = []"
    and "key \<noteq> [] \<Longrightarrow> unat (lk_offset m) = off" "key \<noteq> [] \<Longrightarrow> unat (get_key_len m) = length key"
proof -
  show "(if high then is_infinite_high_fence_key m else is_infinite_low_fence_key m) \<longleftrightarrow> key = []"
  proof (cases "key = []")
    case True
    then show ?thesis
      using assms(1) by (simp add: fence_meta_ok_def is_infinite_high_fence_key_def is_infinite_low_fence_key_def
          make_infinite_high_fence_key_def make_infinite_low_fence_key_def)
  next
    case False
    then show ?thesis using assms finite_offset [of m] by (simp add: fence_meta_ok_def)
  qed
qed (use assms in \<open>auto simp: fence_meta_ok_def\<close>)

lemma install_fence_shape:
  assumes count: "slot_count (lf_meta n) = c" "c < 2" and D: "8 * c + unat (remaining_size (lf_meta n)) \<le> length (lf_data n)"
    "length (lf_data n) \<le> 32736" and klen: "length key < 16384"
    and p: "q = (if high then leaf_p n else 0)" "q \<le> length key" "key = [] \<Longrightarrow> q = 0"
    and room: "length key - q + 8 \<le> unat (remaining_size (lf_meta n))"
  defines "n' \<equiv> install_fence_key n key high"
    and "off \<equiv> 8 * c + unat (remaining_size (lf_meta n)) - (length key - q)"
  shows "slot_count (lf_meta n') = Suc c" "same_flags (lf_meta n) (lf_meta n')"
    and "node_size (lf_meta n') = node_size (lf_meta n)"
    and "unat (remaining_size (lf_meta n')) = unat (remaining_size (lf_meta n)) - (length key - q + 8)"
    and "prefix_len n' = prefix_len n" "next_level n' = next_level n" "lsn n' = lsn n"
    and "lf_snapshot_version n' = lf_snapshot_version n"
    and "\<exists>m. fence_meta_ok high m off key \<and>
      lf_data n' = add_entry c c (leaf_meta_enc m) off (drop q key) (lf_data n)"
proof -
  let ?m0 = "increment_value_count (lf_meta n)" and ?rem = "unat (remaining_size (lf_meta n))"
  note inc = increment_value_count_laws [of "lf_meta n", unfolded count(1)]
  have c': "c < 4095" using count(2) by simp
  have lo: "unat (leaf_current_lowest_offset n) = 8 * c + ?rem"
  proof -
    have "unat (meta_count_with_fence (lf_meta n) * 8) = 8 * c"
      using count by (subst unat_mult_nowrap) auto
    then show ?thesis using D by (simp add: leaf_current_lowest_offset_def unat_add_nowrap)
  qed
  have sh: "shift_slots c c d = d" for d by (simp add: shift_slots_def)
  have "remaining_size ?m0 = remaining_size (lf_meta n)" using inc(4) c' by simp
  note rm = this
  have u8: "unat (remaining_size (lf_meta n) - 8) = ?rem - 8" using room by (simp add: unat_sub_nowrap)
  define plen where "plen = (if high then prefix_len n else 0)"
  have up: "unat plen = q" using p(1) by (simp add: plen_def)
  define post where "post = (of_nat (length key) - plen :: u16)"
  have upost: "unat post = length key - q"
    using klen p(2) up by (simp add: post_def unat_sub_nowrap unat_of_nat_nowrap)
  define woff where "woff = leaf_current_lowest_offset n - post"
  have uoff: "unat woff = off" using room by (simp add: woff_def off_def unat_sub_nowrap lo upost)
  define m where "m = (if key = [] then if high then make_infinite_high_fence_key else make_infinite_low_fence_key
    else leaf_make_prefixed_meta woff 0 key plen Insert)"
  have drop: "read_at q (length key - q) key = drop q key" by (simp add: read_at_def)
  have pl: "(if high then prefix_len (n\<lparr>lf_meta := x\<rparr>) else 0) = plen" for x by (simp add: plen_def)
  have n': "n' = n\<lparr>lf_meta := ?m0\<lparr>remaining_size := remaining_size (lf_meta n) - 8 - (if key = [] then 0 else post)\<rparr>,
      lf_data := add_entry c c (leaf_meta_enc m) off (drop q key) (lf_data n)\<rparr>"
    unfolding n'_def install_fence_key_def Let_def pl add_0_right post_def [symmetric] woff_def [symmetric] count(1)
    by (cases "key = []") (simp_all add: write_initial_kv_meta_def m_def rm add_entry_def sh up upost uoff drop)
  then have meta': "lf_meta n' = ?m0\<lparr>remaining_size := remaining_size (lf_meta n) - 8 - (if key = [] then 0 else post)\<rparr>"
    and data': "lf_data n' = add_entry c c (leaf_meta_enc m) off (drop q key) (lf_data n)"
    by simp_all
  show "slot_count (lf_meta n') = Suc c" "same_flags (lf_meta n) (lf_meta n')"
    "node_size (lf_meta n') = node_size (lf_meta n)"
    using inc c' by (simp_all add: meta' meta_count_with_fence_def same_flags_def flag_bits)
  show "unat (remaining_size (lf_meta n')) = ?rem - (length key - q + 8)"
    using room u8 upost by (auto simp: meta' unat_sub_nowrap)
  show "prefix_len n' = prefix_len n" "next_level n' = next_level n" "lsn n' = lsn n"
    "lf_snapshot_version n' = lf_snapshot_version n"
    by (simp_all add: n')
  show "\<exists>m. fence_meta_ok high m off key \<and>
      lf_data n' = add_entry c c (leaf_meta_enc m) off (drop q key) (lf_data n)"
    using data' uoff leaf_make_prefixed_meta_laws [OF klen, where off = woff and v = 0 and p = plen and t = Insert]
    by (intro exI [of _ m]) (simp add: m_def fence_meta_ok_def)
qed

lemma common_prefix_len_le: "common_prefix_len a b \<le> length a" "common_prefix_len a b \<le> length b"
  by (induction a b rule: common_prefix_len.induct) auto

lemma common_prefix_take: "take (common_prefix_len a b) a = take (common_prefix_len a b) b"
  by (induction a b rule: common_prefix_len.induct) auto

text \<open>Keys between two fences share the fences' common prefix.\<close>

lemma common_prefix_between:
  assumes "a \<le> k" "k \<le> b"
  shows "take (common_prefix_len a b) k = take (common_prefix_len a b) a"
  using assms
proof (induction a b arbitrary: k rule: common_prefix_len.induct)
  case (1 x xs y ys)
  show ?case
  proof (cases "x = y")
    case True
    from 1(2) obtain z zs where k: "k = z # zs" by (cases k) auto
    with 1(2,3) True have "z = x" "xs \<le> zs" "zs \<le> ys" by auto
    then show ?thesis using 1(1) [of zs] True k by simp
  qed simp
qed simp_all

lemma leaf_initialize_plain:
  assumes D: "length (lf_data n) = nsize - 32" "32 \<le> nsize" "nsize \<le> 32768"
  obtains n' where "leaf_initialize n [] [] nsize next False cache_only v = Some n'"
    and "leaf_wf n'" "leaf_view n' = []" "unat (remaining_size (lf_meta n')) = nsize - 32" "leaf_p n' = 0"
    and "\<not> leaf_has_fence n'" "is_cache_only_leaf (lf_meta n') = cache_only" "next_level n' = next"
    and "unat (node_size (lf_meta n')) = nsize" "lf_snapshot_version n' = v AND LEAF_SNAPSHOT_VERSION_MASK"
proof -
  obtain m where m: "node_meta_new (of_nat (leaf_max_data_size nsize)) False False (of_nat nsize) cache_only = Some m"
    using node_meta_new_eq [of "of_nat (leaf_max_data_size nsize)" False False "of_nat nsize" cache_only] by auto
  note new = node_meta_new_laws [OF m]
  define n' where "n' = n\<lparr>lf_snapshot_version := v AND LEAF_SNAPSHOT_VERSION_MASK, lf_meta := m,
    prefix_len := 0, next_level := next\<rparr>"
  have ini: "leaf_initialize n [] [] nsize next False cache_only v = Some n'"
    unfolding leaf_initialize_def m by (simp add: n'_def Let_def)
  have rem: "unat (remaining_size m) = nsize - 32" and ns: "unat (node_size m) = nsize"
    using new(6,7) D unat_of_nat_nowrap [where 'a = 16, of "nsize - 32"] unat_of_nat_nowrap [where 'a = 16, of nsize]
    by (simp_all add: leaf_max_data_size_def del: of_nat_diff)
  have nf: "\<not> leaf_has_fence n'" using new(2) by (simp add: leaf_has_fence_def n'_def)
  then have f: "first_meta_pos_after_fence n' = 0" by (simp add: first_meta_pos_after_fence_def)
  have e: "leaf_metas n' = []" "leaf_recs n' = []" "leaf_entries n' = []" "leaf_regions n' = []" "leaf_view n' = []"
    using new(1) nf by (simp_all add: leaf_metas_def leaf_recs_def leaf_entries_def leaf_regions_def leaf_view_def
        fence_regions_def n'_def slot_metas_def)
  have "leaf_wf n'"
    using D new(1) nf e f by (simp add: leaf_wf_def Let_def fence_ok_def regions_ok_def) (simp add: n'_def rem ns)
  then show thesis
    using that [OF ini] new(4) rem ns nf e by (simp add: n'_def)
qed

text \<open>The two fences of a fresh page.\<close>

lemma install_fences_layout:
  fixes low high :: bytes
  assumes d: "length (lf_data n) = D" "slot_count (lf_meta n) = 0" "D \<le> 32736"
    and rem: "unat (remaining_size (lf_meta n)) = D"
    and klen: "length low < 16384" "length high < 16384" and p: "leaf_p n = common_prefix_len low high"
    and room: "length low + (length high - leaf_p n) + 16 \<le> D"
  defines "n' \<equiv> install_fence_key (install_fence_key n low False) high True"
  obtains ml mh where "leaf_get_kv_meta n' 0 = ml" "leaf_get_kv_meta n' 1 = mh" "leaf_metas n' = [ml, mh]"
    and "fence_meta_ok False ml (D - length low) low"
    and "fence_meta_ok True mh (D - length low - (length high - leaf_p n)) high"
    and "read_at (D - length low) (length low) (lf_data n') = low"
    and "read_at (D - length low - (length high - leaf_p n)) (length high - leaf_p n) (lf_data n') =
      drop (leaf_p n) high"
    and "length (lf_data n') = D" "slot_count (lf_meta n') = 2"
    and "unat (remaining_size (lf_meta n')) = D - (length low + (length high - leaf_p n) + 16)"
    and "same_flags (lf_meta n) (lf_meta n')" "node_size (lf_meta n') = node_size (lf_meta n)"
    and "prefix_len n' = prefix_len n" "next_level n' = next_level n"
    and "lf_snapshot_version n' = lf_snapshot_version n"
proof -
  define n2 where "n2 = install_fence_key n low False"
  let ?ol = "D - length low" and ?lh = "length high - leaf_p n"
  define oh where "oh = 8 + (D - (length low + 8)) - ?lh"
  have ple: "leaf_p n \<le> length low" "leaf_p n \<le> length high" by (simp_all add: p common_prefix_len_le)
  have a2: "8 * 0 + unat (remaining_size (lf_meta n)) \<le> length (lf_data n)" "length (lf_data n) \<le> 32736"
    "length low - 0 + 8 \<le> unat (remaining_size (lf_meta n))"
    using d rem room by simp_all
  note s2 = install_fence_shape [OF d(2) _ a2(1,2) klen(1) _ _ _ a2(3), of False, folded n2_def, simplified, unfolded rem d(1)]
  obtain ml where ml: "fence_meta_ok False ml ?ol low"
    "lf_data n2 = add_entry 0 0 (leaf_meta_enc ml) ?ol low (lf_data n)"
    using s2(9) by auto
  have d2: "length (lf_data n2) = D"
    unfolding ml(2) using d room by (subst leaf_slot.length_add_entry) simp_all
  have c2: "slot_count (lf_meta n2) = 1" and rem2: "unat (remaining_size (lf_meta n2)) = D - (length low + 8)"
    and p2: "leaf_p n2 = leaf_p n"
    using s2 room by simp_all
  have a3: "8 * 1 + unat (remaining_size (lf_meta n2)) \<le> length (lf_data n2)" "length (lf_data n2) \<le> 32736"
    "?lh + 8 \<le> unat (remaining_size (lf_meta n2))" "high = [] \<Longrightarrow> leaf_p n = 0"
    using d room d2 rem2 ple(2) by simp_all
  have n': "n' = install_fence_key n2 high True" by (simp add: n'_def n2_def)
  note s3 = install_fence_shape [OF c2 _ a3(1,2) klen(2), of "leaf_p n" True, folded n', unfolded rem2 p2,
      OF _ _ ple(2) a3(4) a3(3) [unfolded rem2], simplified]
  obtain mh where mh: "fence_meta_ok True mh oh high"
    "lf_data n' = add_entry 1 1 (leaf_meta_enc mh) oh (drop (leaf_p n) high) (lf_data n2)"
    using s3(9) by (auto simp: oh_def)
  have oh: "oh = ?ol - ?lh" "16 \<le> oh" "oh + ?lh = ?ol" "?ol \<le> D" using room by (auto simp: oh_def)
  have side2: "(0::nat) \<le> 0" "8 * (0 + 1) \<le> ?ol" "?ol + length low \<le> length (lf_data n)" using d room by auto
  have side3: "(1::nat) \<le> 1" "8 * (1 + 1) \<le> oh" "oh + length (drop (leaf_p n) high) \<le> length (lf_data n2)"
    using oh d2 room by auto
  have d': "length (lf_data n') = D" unfolding mh(2) using leaf_slot.length_add_entry [OF side3] d2 by simp
  have c': "slot_count (lf_meta n') = 2" using s3(1) by simp
  have metas: "leaf_metas n' = [ml, mh]"
  proof -
    have "slot_metas leaf_meta_dec 1 (lf_data n2) = [ml]"
      using leaf_slot.metas_add_entry [OF side2, of ml] by (simp add: ml(2) slot_metas_def ins_at_def)
    then show ?thesis
      using leaf_slot.metas_add_entry [OF side3, of mh]
      by (simp add: leaf_metas_def c' mh(2) ins_at_def numeral_2_eq_2)
  qed
  then have kv: "leaf_get_kv_meta n' 0 = ml" "leaf_get_kv_meta n' (Suc 0) = mh"
    using nth_slot_metas [of 0 2 leaf_meta_dec "lf_data n'"] nth_slot_metas [of "Suc 0" 2 leaf_meta_dec "lf_data n'"]
    by (simp_all add: leaf_metas_def c' leaf_get_kv_meta_def)
  have flags: "same_flags (lf_meta n) (lf_meta n')" using s2(2) s3(2) by (simp add: same_flags_def)
  have "read_at ?ol (length low) (lf_data n') = read_at ?ol (length low) (lf_data n2)"
    unfolding mh(2) by (rule leaf_slot.read_add_entry) (use side3 oh d2 room in auto)
  then have low: "read_at ?ol (length low) (lf_data n') = low"
    unfolding ml(2) using leaf_slot.read_added_entry [OF side2] by simp
  have high: "read_at oh ?lh (lf_data n') = drop (leaf_p n) high"
    unfolding mh(2) using leaf_slot.read_added_entry [OF side3] by simp
  have "unat (remaining_size (lf_meta n')) = D - (length low + ?lh + 16)" using s3(4) by simp
  then show thesis
    using that [of ml mh] kv metas ml(1) mh(1) low high d' c' flags s2 s3 oh(1) by simp
qed

lemma install_fences_spec:
  fixes low high :: bytes
  assumes d: "length (lf_data n) = D" "slot_count (lf_meta n) = 0" "D \<le> 32736"
    and rem: "unat (remaining_size (lf_meta n)) = D" and fence: "leaf_has_fence n"
    and ns: "unat (node_size (lf_meta n)) = D + 32"
    and klen: "length low < 16384" "length high < 16384" and p: "leaf_p n = common_prefix_len low high"
    and room: "length low + (length high - leaf_p n) + 16 \<le> D"
  defines "n' \<equiv> install_fence_key (install_fence_key n low False) high True"
  shows "leaf_wf n'" "leaf_view n' = []" "leaf_low n' = low" "leaf_high n' = high"
    and "get_prefix n' = take (leaf_p n) low"
    and "unat (remaining_size (lf_meta n')) = D - (length low + (length high - leaf_p n) + 16)"
    and "same_flags (lf_meta n) (lf_meta n')" "node_size (lf_meta n') = node_size (lf_meta n)"
    and "prefix_len n' = prefix_len n" "next_level n' = next_level n"
    and "lf_snapshot_version n' = lf_snapshot_version n"
proof -
  obtain ml mh where kv: "leaf_get_kv_meta n' 0 = ml" "leaf_get_kv_meta n' 1 = mh" and metas: "leaf_metas n' = [ml, mh]"
    and ml: "fence_meta_ok False ml (D - length low) low"
    and mh: "fence_meta_ok True mh (D - length low - (length high - leaf_p n)) high"
    and low: "read_at (D - length low) (length low) (lf_data n') = low"
    and high: "read_at (D - length low - (length high - leaf_p n)) (length high - leaf_p n) (lf_data n') =
      drop (leaf_p n) high"
    and d': "length (lf_data n') = D" and c': "slot_count (lf_meta n') = 2"
    and h: "unat (remaining_size (lf_meta n')) = D - (length low + (length high - leaf_p n) + 16)"
      "same_flags (lf_meta n) (lf_meta n')" "node_size (lf_meta n') = node_size (lf_meta n)"
      "prefix_len n' = prefix_len n" "next_level n' = next_level n"
      "lf_snapshot_version n' = lf_snapshot_version n"
    by (rule install_fences_layout [OF d rem klen p room, folded n'_def])
  show "unat (remaining_size (lf_meta n')) = D - (length low + (length high - leaf_p n) + 16)"
    "same_flags (lf_meta n) (lf_meta n')" "node_size (lf_meta n') = node_size (lf_meta n)"
    "prefix_len n' = prefix_len n" "next_level n' = next_level n"
    "lf_snapshot_version n' = lf_snapshot_version n"
    by (rule h)+
  let ?ol = "D - length low" and ?lh = "length high - leaf_p n"
  have ple: "leaf_p n \<le> length low" "leaf_p n \<le> length high" by (simp_all add: p common_prefix_len_le)
  have hf: "leaf_has_fence n'" using fence h(2) by (simp add: leaf_has_fence_def same_flags_def)
  then have f: "first_meta_pos_after_fence n' = 2" by (simp add: first_meta_pos_after_fence_def FENCE_KEY_CNT_def)
  have "?ol \<le> 32736" "?ol - ?lh \<le> 32736" using d(3) by auto
  note fl = fence_meta_infinite [OF ml this(1), simplified] and fh = fence_meta_infinite [OF mh this(2), simplified]
  show pre: "get_prefix n' = take (leaf_p n) low"
  proof (cases "low = []")
    case False
    then show ?thesis
      using low ple(1) fl(2,3) read_at_read_at [of 0 "leaf_p n" "length low" ?ol "lf_data n'"]
      by (simp add: get_prefix_def LOW_FENCE_IDX_def kv h(4)) (simp add: read_at_def)
  qed (use ple(1) in \<open>simp add: get_prefix_def h(4)\<close>)
  show "leaf_low n' = low"
    using fl low by (simp add: leaf_low_def kv get_low_fence_full_key_def LOW_FENCE_IDX_def)
  show "leaf_high n' = high"
  proof (cases "high = []")
    case False
    have "unat (get_key_len mh - prefix_len n) = ?lh" using fh(3) False ple(2) by (simp add: unat_sub_nowrap)
    then have "leaf_high n' = take (leaf_p n) low @ drop (leaf_p n) high"
      using fh False high by (simp add: leaf_high_def kv leaf_get_full_key_def pre get_remaining_key_def h(4) del: One_nat_def)
    then show ?thesis using common_prefix_take [of low high] by (simp add: p)
  qed (use fh in \<open>simp add: leaf_high_def kv del: One_nat_def\<close>)
  have recs: "leaf_recs n' = []" by (simp add: leaf_recs_def metas f)
  then show "leaf_view n' = []" by (simp add: leaf_view_def leaf_entries_def)
  have "regions_ok (16 + (D - (length low + ?lh + 16))) D (leaf_regions n')"
    "sum_list (map snd (leaf_regions n')) + 16 + (D - (length low + ?lh + 16)) \<le> D"
    using fl fh room ple
    by (auto simp: leaf_regions_def recs fence_regions_def hf kv d' h(4) regions_ok_def apart_def simp del: One_nat_def)
  moreover have "fence_ok n'"
    using fl fh ple by (auto simp: fence_ok_def hf kv h(4) simp del: One_nat_def)
  ultimately show "leaf_wf n'"
    using d(3) ns h(1,3) by (simp add: leaf_wf_def recs f c' d' leaf_entries_def)
qed

lemma leaf_initialize_fenced:
  fixes low high :: bytes
  defines "p \<equiv> common_prefix_len low high"
  assumes D: "length (lf_data n) = nsize - 32" "32 \<le> nsize" "nsize \<le> 32768"
    and klen: "length low < 16384" "length high < 16384"
    and room: "length low + (length high - p) + 16 \<le> nsize - 32"
  obtains n' where "leaf_initialize n low high nsize next True cache_only v = Some n'"
    and "leaf_wf n'" "leaf_view n' = []" "leaf_has_fence n'" "leaf_p n' = p" "get_prefix n' = take p low"
    and "unat (remaining_size (lf_meta n')) = nsize - 32 - (length low + (length high - p) + 16)"
    and "leaf_low n' = low" "leaf_high n' = high" "next_level n' = next"
    and "is_cache_only_leaf (lf_meta n') = cache_only" "unat (node_size (lf_meta n')) = nsize"
    and "lf_snapshot_version n' = v AND LEAF_SNAPSHOT_VERSION_MASK"
proof -
  obtain m where m: "node_meta_new (of_nat (leaf_max_data_size nsize)) False True (of_nat nsize) cache_only = Some m"
    using node_meta_new_eq [of "of_nat (leaf_max_data_size nsize)" False True "of_nat nsize" cache_only] by auto
  note new = node_meta_new_laws [OF m]
  define n1 where "n1 = n\<lparr>lf_snapshot_version := v AND LEAF_SNAPSHOT_VERSION_MASK, lf_meta := m,
    prefix_len := of_nat p, next_level := next\<rparr>"
  define n' where "n' = install_fence_key (install_fence_key n1 low False) high True"
  have ini: "leaf_initialize n low high nsize next True cache_only v = Some n'"
    unfolding leaf_initialize_def m by (simp add: n1_def n'_def p_def Let_def)
  have "p \<le> length low" by (simp add: p_def common_prefix_len_le)
  then have up: "leaf_p n1 = p" using klen(1) by (simp add: n1_def unat_of_nat_nowrap)
  have rem1: "unat (remaining_size (lf_meta n1)) = nsize - 32" and ns: "unat (node_size (lf_meta n1)) = nsize - 32 + 32"
    using new(6,7) D unat_of_nat_nowrap [where 'a = 16, of "nsize - 32"] unat_of_nat_nowrap [where 'a = 16, of nsize]
    by (simp_all add: leaf_max_data_size_def n1_def del: of_nat_diff)
  have d1: "length (lf_data n1) = nsize - 32" "slot_count (lf_meta n1) = 0" "nsize - 32 \<le> 32736" "leaf_has_fence n1"
    using D new(1,2) by (simp_all add: n1_def leaf_has_fence_def)
  note sp = install_fences_spec [OF d1(1-3) rem1 d1(4) ns klen up [unfolded p_def] room [folded up], folded n'_def]
  show thesis
  proof (rule that [OF ini])
    show "leaf_has_fence n'" "is_cache_only_leaf (lf_meta n') = cache_only"
      using sp(7) d1(4) new(4) by (simp_all add: leaf_has_fence_def same_flags_def n1_def)
  qed (use sp up ns D in \<open>simp_all add: n1_def\<close>)
qed

section \<open>Properties\<close>

text \<open>
  A base page for the witnesses: 512 bytes, fences \<open>apple\<close> and \<open>apricot\<close> in ASCII, one record.
\<close>

definition leaf_blank :: "nat \<Rightarrow> leaf_node" where
  "leaf_blank nsize = \<lparr>lf_meta = \<lparr>encoded = 0, node_size = 0, remaining_size = 0\<rparr>, prefix_len = 0,
     next_level = next_level_null, lsn = 0, lf_snapshot_version = 0, lf_data = replicate (nsize - 32) 0\<rparr>"

definition demo_low :: bytes where "demo_low = [97, 112, 112, 108, 101]"
definition demo_high :: bytes where "demo_high = [97, 112, 114, 105, 99, 111, 116]"
definition demo_key :: bytes where "demo_key = [97, 112, 112, 114, 111, 120]"

definition demo_base :: leaf_node where
  "demo_base = the (leaf_initialize (leaf_blank 512) demo_low demo_high 512 next_level_null True False 3)"

definition demo_one :: leaf_node where
  "demo_one = fst (the (leaf_insert demo_base demo_key [7, 8, 9] Insert 0))"

lemma demo_base_spec:
  "leaf_wf demo_base" "leaf_view demo_base = []" "leaf_p demo_base = 2" "get_prefix demo_base = [97, 112]"
  "unat (remaining_size (lf_meta demo_base)) = 454" "is_base_page demo_base" "leaf_has_fence demo_base"
  "leaf_low demo_base = demo_low" "leaf_high demo_base = demo_high"
proof -
  have p: "common_prefix_len demo_low demo_high = 2" by (simp add: demo_low_def demo_high_def)
  obtain n where "leaf_initialize (leaf_blank 512) demo_low demo_high 512 next_level_null True False 3 = Some n"
    "leaf_wf n" "leaf_view n = []" "leaf_has_fence n" "leaf_p n = 2" "get_prefix n = take 2 demo_low"
    "unat (remaining_size (lf_meta n)) = 512 - 32 - (length demo_low + (length demo_high - 2) + 16)"
    "leaf_low n = demo_low" "leaf_high n = demo_high" "next_level n = next_level_null" "\<not> is_cache_only_leaf (lf_meta n)"
    by (rule leaf_initialize_fenced [of "leaf_blank 512" 512 demo_low demo_high next_level_null False 3, unfolded p])
       (simp_all add: leaf_blank_def demo_low_def demo_high_def)
  then show "leaf_wf demo_base" "leaf_view demo_base = []" "leaf_p demo_base = 2" "get_prefix demo_base = [97, 112]"
    "unat (remaining_size (lf_meta demo_base)) = 454" "is_base_page demo_base" "leaf_has_fence demo_base"
    "leaf_low demo_base = demo_low" "leaf_high demo_base = demo_high"
    by (simp_all add: demo_base_def demo_low_def demo_high_def is_base_page_def next_level_null_def
        next_level_is_null_def)
qed

lemma demo_key_ok: "leaf_key_ok demo_base demo_key" "length demo_key = 6"
  by (simp_all add: leaf_key_ok_def demo_base_spec demo_key_def)

lemma demo_one_spec:
  "leaf_insert demo_base demo_key [7, 8, 9] Insert 0 = Some (demo_one, True)" "leaf_wf demo_one"
  "leaf_view demo_one = [(demo_key, Insert, [7, 8, 9])]" "leaf_framed demo_base demo_one"
  "leaf_key_ok demo_one demo_key"
proof -
  have k: "length demo_key < 16384" "length [7, 8, 9 :: u8] < 32768" by (simp_all add: demo_key_ok)
  obtain n where n: "leaf_insert demo_base demo_key [7, 8, 9] Insert 0 = Some (n, True)"
    by (rule leaf_insert_room [OF demo_base_spec(1) demo_key_ok(1) k, of Insert])
       (simp_all add: demo_key_ok demo_base_spec)
  then have eq: "demo_one = n" by (simp add: demo_one_def)
  show "leaf_insert demo_base demo_key [7, 8, 9] Insert 0 = Some (demo_one, True)" using n eq by simp
  note t = leaf_insert_true [OF demo_base_spec(1) demo_key_ok(1) k n, folded eq]
  show "leaf_wf demo_one" "leaf_framed demo_base demo_one" by (rule t)+
  show "leaf_view demo_one = [(demo_key, Insert, [7, 8, 9])]" using t(3) by (simp add: demo_base_spec rec_put_def)
  show "leaf_key_ok demo_one demo_key"
    using t(2) demo_key_ok(1) by (simp add: leaf_framed_def leaf_key_ok_def)
qed

text \<open>
  C3: \<^verbatim>\<open>LeafNode::insert\<close> on every branch. For a key with the page's prefix and within the length
  limits, an insertion that answers true leaves a well-formed page whose sorted contents are the
  old ones with the record put (an existing record replaced, moved or turned into a tombstone; a
  new one added; a deletion of an absent key ignored by a base page), with fences, prefix, flags
  and version untouched; one that answers false changes nothing; and it fails only for a \<open>Cache\<close>
  record that would outgrow an existing one.
\<close>

theorem leaf_insert_put:
  assumes "leaf_wf n" "leaf_key_ok n key" "length key \<le> MAX_KEY_LEN" "length val \<le> MAX_VALUE_LEN"
  shows "case leaf_insert n key val t F of
      None \<Rightarrow> t = Cache \<and> (\<exists>t0 v0. map_of (leaf_view n) key = Some (t0, v0) \<and> length v0 < length val)
    | Some (n', ok) \<Rightarrow>
        if ok then leaf_wf n' \<and> leaf_framed n n' \<and>
          leaf_view n' = rec_put (is_base_page n) key val t (leaf_view n)
        else n' = n"
proof -
  have k: "length key < 16384" "length val < 32768" using assms(3,4) by (simp_all add: size_consts)
  note p = leaf_key_okD(1) [OF assms(1,2)]
  show ?thesis
  proof (cases "leaf_insert n key val t F")
    case None
    then have c: "leaf_has n key" "t = Cache" "\<not> length val \<le> unat (value_len (leaf_recs n ! leaf_spot n key))"
      using leaf_insert_cases [OF assms(1) p k, of t F] by (auto split: if_splits)
    note at = leaf_entry_at_spot [OF assms(1) p c(1)]
    note r = leaf_rec_at [OF at(1) refl]
    have "map_of (leaf_view n) key = Some (meta_op_type (leaf_recs n ! leaf_spot n key),
        leaf_get_value n (leaf_recs n ! leaf_spot n key))"
      using at(3) r(3) leaf_entry_eq(1) [OF assms(1) r(2)] map_of_view [OF assms(1,2)] by simp
    then show ?thesis using None c(2,3) leaf_entry_eq(3) [OF assms(1) r(2)] by simp
  next
    case (Some r)
    then show ?thesis
      using leaf_insert_true [OF assms(1,2) k] leaf_insert_false [OF assms(1,2) k] by (cases r) auto
  qed
qed

theorem leaf_insert_put_witness:
  "leaf_wf demo_base \<and> leaf_key_ok demo_base demo_key \<and>
   (case leaf_insert demo_base demo_key [7, 8, 9] Insert 0 of
      None \<Rightarrow> False | Some (n', ok) \<Rightarrow> ok \<and> leaf_view n' = [(demo_key, Insert, [7, 8, 9])])"
  using leaf_insert_put [OF demo_base_spec(1) demo_key_ok(1), of "[7, 8, 9]" Insert 0]
  by (simp add: demo_one_spec(1) demo_key_ok demo_base_spec size_consts rec_put_def)

text \<open>
  C15: a point read returns exactly what the page holds. With the binary or the linear search, a
  present record is copied to the front of the buffer and its length reported, a tombstone reads
  as deleted, an absent key as not found; the read fails only when the buffer is too short; and
  apart from reference bits the page is unchanged.
\<close>

theorem leaf_read_contents:
  assumes "leaf_wf n" "leaf_key_ok n key"
  shows "case leaf_read_outcome (map_of (leaf_view n) key) out of
      None \<Rightarrow> read_by_key_inner n key out binary = None
    | Some (out', res) \<Rightarrow> \<exists>n'. read_by_key_inner n key out binary = Some (n', out', res) \<and>
        leaf_wf n' \<and> leaf_framed n n' \<and> leaf_view n' = leaf_view n"
  using read_by_key_inner_spec [OF assms] .

theorem leaf_read_contents_witness:
  "leaf_wf demo_one \<and> leaf_key_ok demo_one demo_key \<and>
   (\<exists>n'. read_by_key_inner demo_one demo_key [0, 0, 0, 5] False = Some (n', [7, 8, 9, 5], Found 3))"
  using leaf_read_contents [OF demo_one_spec(2,5), of "[0, 0, 0, 5]" False]
  by (auto simp: demo_one_spec leaf_read_outcome_def write_at_def)

text \<open>
  C34: reading back what was written. After a successful insertion of a record that is not a
  tombstone, reading its key finds the value, and reading any other key of the page's range gives
  the same result as before.
\<close>

theorem leaf_insert_read:
  assumes "leaf_wf n" "leaf_key_ok n key" "length key \<le> MAX_KEY_LEN" "length val \<le> MAX_VALUE_LEN"
    and "leaf_insert n key val t F = Some (n', True)" "\<not> is_absent t" "length val \<le> length out"
    and "leaf_key_ok n key2" "key2 \<noteq> key"
  shows "(\<exists>n''. read_by_key n' key out = Some (n'', write_at 0 val out, Found (of_nat (length val)))) \<and>
    map_option snd (read_by_key n' key2 out) = map_option snd (read_by_key n key2 out)"
proof -
  have k: "length key < 16384" "length val < 32768" using assms(3,4) by (simp_all add: size_consts)
  note t = leaf_insert_true [OF assms(1,2) k assms(5)]
  have ok': "leaf_key_ok n' key" "leaf_key_ok n' key2"
    using assms(2,8) t(2) by (simp_all add: leaf_key_ok_def leaf_framed_def)
  have "map_of (leaf_view n') key = Some (t, val)" "map_of (leaf_view n') key2 = map_of (leaf_view n) key2"
    using assms(6,9) by (auto simp: t(3) rec_put_lookup split: option.splits)
  then show ?thesis
    using read_by_key_inner_spec [OF t(1) ok'(1), of out True] read_by_key_inner_spec [OF t(1) ok'(2), of out True]
      read_by_key_inner_spec [OF assms(1,8), of out True] assms(6,7)
    by (auto simp: read_by_key_def leaf_read_outcome_def split: option.splits prod.splits if_splits)
qed

theorem leaf_insert_read_witness:
  "leaf_insert demo_base demo_key [7, 8, 9] Insert 0 = Some (demo_one, True) \<and>
   (\<exists>n''. read_by_key demo_one demo_key [0, 0, 0, 5] = Some (n'', [7, 8, 9, 5], Found 3)) \<and>
   map_option snd (read_by_key demo_one demo_low [0, 0, 0, 5]) =
   map_option snd (read_by_key demo_base demo_low [0, 0, 0, 5])"
proof -
  have "leaf_key_ok demo_base demo_low" "demo_low \<noteq> demo_key"
    by (simp_all add: leaf_key_ok_def demo_base_spec demo_low_def demo_key_def)
  then show ?thesis
    using leaf_insert_read [OF demo_base_spec(1) demo_key_ok(1) _ _ demo_one_spec(1), of "[0, 0, 0, 5]" demo_low]
    by (simp add: demo_key_ok size_consts write_at_def demo_one_spec(1))
qed

text \<open>
  C35: the binary search with two-byte previews and the linear search agree, and both return the
  number of slots before the first record that is not below the key.
\<close>

theorem leaf_searches_agree:
  assumes "leaf_wf n" "leaf_key_ok n key"
  shows "leaf_lower_bound n key = linear_lower_bound n key \<and>
    leaf_lower_bound n key =
      Some (first_meta_pos_after_fence n + length (filter (\<lambda>e. fst e < key) (leaf_view n)))"
proof -
  note p = leaf_key_okD [OF assms]
  let ?s = "drop (leaf_p n) key" and ?es = "leaf_entries n" and ?i = "leaf_spot n key"
  note sp = leaf_spot_spec [OF assms(1) p(1)]
  have "filter (\<lambda>e. fst e < ?s) ?es = take ?i ?es"
    by (rule filter_take) (use sp(3-5) in \<open>simp_all add: not_less\<close>)
  then have "length (filter (\<lambda>e. fst e < ?s) ?es) = ?i" using sp(3) by simp
  moreover have lt: "(get_prefix n @ s < key) = (s < ?s)" for s
    by (subst p(2) [symmetric]) (rule append_less_append)
  then have "length (filter (\<lambda>e. fst e < key) (leaf_view n)) = length (filter (\<lambda>e. fst e < ?s) ?es)"
    by (simp add: leaf_view_def filter_map comp_def case_prod_beta)
  ultimately show ?thesis using sp(1,2) by simp
qed

theorem leaf_searches_agree_witness:
  "leaf_wf demo_one \<and> leaf_key_ok demo_one demo_high \<and>
   leaf_lower_bound demo_one demo_high = Some 3 \<and> linear_lower_bound demo_one demo_high = Some 3"
proof -
  have "leaf_key_ok demo_one demo_high" "first_meta_pos_after_fence demo_one = 2"
    using demo_one_spec(4) demo_base_spec(3,4,7)
    by (simp_all add: leaf_key_ok_def leaf_framed_def demo_high_def first_meta_pos_after_fence_def
        leaf_has_fence_def same_flags_def FENCE_KEY_CNT_def)
  then show ?thesis
    using leaf_searches_agree [OF demo_one_spec(2), of demo_high]
    by (auto simp: demo_one_spec(2,3) demo_key_def demo_high_def)
qed

text \<open>
  C37: the fences of a fresh base page. Initialisation succeeds when the fences fit, the page is
  well-formed and empty, both fences read back, and every key from the low fence up to the high
  fence starts with the prefix that the page strips, so such keys may be searched and inserted.
\<close>

theorem leaf_fences_roundtrip:
  assumes "length (lf_data n) = nsize - 32" "32 \<le> nsize" "nsize \<le> MAX_LEAF_PAGE_SIZE"
    and "length low \<le> MAX_KEY_LEN" "length high \<le> MAX_KEY_LEN" "length low + length high + 48 \<le> nsize"
  shows "\<exists>n'. leaf_initialize n low high nsize next True cache_only v = Some n' \<and> leaf_wf n' \<and>
    leaf_view n' = [] \<and> get_low_fence_key n' = Some low \<and> get_high_fence_key n' = Some high \<and>
    (\<forall>key. low \<le> key \<and> key \<le> high \<longrightarrow> leaf_key_ok n' key)"
proof -
  have sz: "nsize \<le> 32768" "length low < 16384" "length high < 16384" using assms(3-5) by (simp_all add: size_consts)
  have room: "length low + (length high - common_prefix_len low high) + 16 \<le> nsize - 32" using assms(6) by simp
  obtain n' where n': "leaf_initialize n low high nsize next True cache_only v = Some n'" "leaf_wf n'"
    "leaf_view n' = []" "leaf_has_fence n'" "leaf_p n' = common_prefix_len low high"
    "get_prefix n' = take (common_prefix_len low high) low" "leaf_low n' = low" "leaf_high n' = high"
    by (rule leaf_initialize_fenced [OF assms(1,2) sz room])
  then have "get_low_fence_key n' = Some low" "get_high_fence_key n' = Some high"
    by (simp_all add: get_low_fence_key_def get_high_fence_key_def Let_def leaf_low_def leaf_high_def
        get_low_fence_full_key_def LOW_FENCE_IDX_def HIGH_FENCE_IDX_def split: if_splits)
  moreover have "leaf_key_ok n' key" if "low \<le> key" "key \<le> high" for key
    using common_prefix_between [OF that] n'(5,6) by (simp add: leaf_key_ok_def)
  ultimately show ?thesis using n'(1-3) by blast
qed

theorem leaf_fences_roundtrip_witness:
  "\<exists>n'. leaf_initialize (leaf_blank 512) demo_low demo_high 512 next_level_null True False 3 = Some n' \<and>
    get_low_fence_key n' = Some demo_low \<and> get_high_fence_key n' = Some demo_high \<and> leaf_key_ok n' demo_key"
  using leaf_fences_roundtrip [of "leaf_blank 512" 512 demo_low demo_high next_level_null False 3]
  by (auto simp: leaf_blank_def demo_low_def demo_high_def demo_key_def size_consts)

end
