(* ===== verification/Leaf_Ops.thy ===== *)
theory Leaf_Ops
  imports Leaf_Init
begin

text \<open>
  The operations that rebuild whole leaves (src/src/nodes/leaf_node.rs): consolidation, copying a
  mini-page to a larger one, merging a mini-page into its base page, converting between dirty and
  cached records, and the two kinds of split.
\<close>

section \<open>Rebuilding\<close>

text \<open>
  The loop shared by these operations: insert the records in order and assert that each went in.
  A record is its key, its value and its operation type.
\<close>

type_synonym triple = "bytes \<times> bytes \<times> op_type"

fun leaf_insert_all :: "leaf_node \<Rightarrow> triple list \<Rightarrow> leaf_node option" where
  "leaf_insert_all n [] = Some n"
| "leaf_insert_all n ((key, val, t) # rs) =
     (case leaf_insert n key val t 0 of
        Some (n', True) \<Rightarrow> leaf_insert_all n' rs
      | _ \<Rightarrow> None)"

definition leaf_triple :: "leaf_node \<Rightarrow> leaf_kv_meta \<Rightarrow> triple" where
  "leaf_triple n m = (leaf_get_full_key n m, leaf_get_value n m, meta_op_type m)"

definition consolidate_inner ::
  "leaf_node \<Rightarrow> op_type \<Rightarrow> bytes option \<Rightarrow> bool \<Rightarrow> bool \<Rightarrow> bytes option \<Rightarrow> u64 \<Rightarrow> leaf_node option" where
  "consolidate_inner n new_optype new_high_fence skip_tombstone cache_only skip_key snapshot_version =
     do {
       let pairs = filter (\<lambda>(k, v, t). \<not> (skip_tombstone \<and> t = Delete) \<and> skip_key \<noteq> Some k)
                     (map (leaf_triple n) (leaf_meta_iter n));
       high_fence \<leftarrow> (if leaf_has_fence n then
                        case new_high_fence of None \<Rightarrow> get_high_fence_key n | Some key \<Rightarrow> Some key
                      else Some []);
       low_fence \<leftarrow> (if leaf_has_fence n then get_low_fence_key n else Some []);
       n1 \<leftarrow> leaf_initialize n low_fence high_fence (unat (node_size (lf_meta n))) (next_level n)
               (leaf_has_fence n) cache_only snapshot_version;
       leaf_insert_all n1 (map (\<lambda>(k, v, t). (k, v, if t = Delete then Delete else new_optype)) pairs)
     }"

definition leaf_consolidate :: "leaf_node \<Rightarrow> u64 \<Rightarrow> leaf_node option" where
  "leaf_consolidate n v =
     consolidate_inner n Insert None True (is_cache_only_leaf (lf_meta n)) None v"

text \<open>\<open>None\<close> at the head of the following operations: the assertion on the kind of page.\<close>

definition consolidate_after_merge :: "leaf_node \<Rightarrow> u64 \<Rightarrow> leaf_node option" where
  "consolidate_after_merge n v =
     (if is_base_page n then None
      else consolidate_inner n Cache None False (is_cache_only_leaf (lf_meta n)) None v)"

definition consolidate_after_split :: "leaf_node \<Rightarrow> bytes \<Rightarrow> u64 \<Rightarrow> leaf_node option" where
  "consolidate_after_split n high_fence v =
     (if \<not> (is_cache_only_leaf (lf_meta n) \<or> is_base_page n) then None
      else consolidate_inner n Insert (Some high_fence) True (is_cache_only_leaf (lf_meta n)) None v)"

definition consolidate_skip_key :: "leaf_node \<Rightarrow> bytes \<Rightarrow> u64 \<Rightarrow> leaf_node option" where
  "consolidate_skip_key n key v =
     (if is_base_page n \<or> \<not> is_cache_only_leaf (lf_meta n) then None
      else consolidate_inner n Insert None True (is_cache_only_leaf (lf_meta n)) (Some key) v)"

definition copy_initialize_to :: "leaf_node \<Rightarrow> leaf_node \<Rightarrow> nat \<Rightarrow> bool \<Rightarrow> u64 \<Rightarrow> leaf_node option" where
  "copy_initialize_to n dst dst_size discard_cold_cache snapshot_version =
     (if is_base_page n \<or> \<not> unat (node_size (lf_meta n)) \<le> dst_size then None
      else do {
        d1 \<leftarrow> leaf_initialize dst [] [] dst_size (next_level n) False (is_cache_only_leaf (lf_meta n))
                snapshot_version;
        leaf_insert_all d1
          (map (leaf_triple n)
            (filter (\<lambda>m. \<not> (discard_cold_cache \<and> is_cache (meta_op_type m) \<and> \<not> is_referenced m))
              (leaf_meta_iter n)))
      })"

section \<open>Merging a mini-page into a base page\<close>

definition need_actually_merge_to_disk :: "leaf_node \<Rightarrow> bool" where
  "need_actually_merge_to_disk n = list_ex (\<lambda>m. is_dirty (meta_op_type m)) (leaf_meta_iter n)"

definition estimate_merge_size :: "leaf_node \<Rightarrow> nat" where
  "estimate_merge_size n =
     sum_list (map (\<lambda>m. unat (get_key_len m + value_len m) + 8)
       (filter (\<lambda>m. meta_op_type m = Insert) (leaf_meta_iter n)))"

definition leaf_get_clean_snapshot_version :: "leaf_node \<Rightarrow> u64" where
  "leaf_get_clean_snapshot_version n = lf_snapshot_version n AND LEAF_SNAPSHOT_VERSION_MASK"

definition merge_mini_page :: "leaf_node \<Rightarrow> leaf_node \<Rightarrow> nat \<Rightarrow> (leaf_node \<times> bool) option" where
  "merge_mini_page n mini_page max_fence_len =
     (if full_with_fences n (of_nat (estimate_merge_size mini_page)) max_fence_len then Some (n, False)
      else do {
        n' \<leftarrow> leaf_insert_all (n\<lparr>lf_snapshot_version := leaf_get_clean_snapshot_version mini_page\<rparr>)
                (filter (\<lambda>(k, v, t). is_dirty t) (map (leaf_triple mini_page) (leaf_meta_iter mini_page)));
        Some (n', True)
      })"

section \<open>Converting records between dirty and cached\<close>

text \<open>The body of a conversion loop, over the slots from \<open>cur\<close> on; \<open>None\<close> is \<^verbatim>\<open>unreachable!\<close>.\<close>

fun convert_slots :: "(op_type \<Rightarrow> op_type option) \<Rightarrow> leaf_node \<Rightarrow> nat list \<Rightarrow> leaf_node option" where
  "convert_slots f n [] = Some n"
| "convert_slots f n (cur # rest) =
     (let m = leaf_get_kv_meta n cur in
      case f (meta_op_type m) of
        None \<Rightarrow> None
      | Some t \<Rightarrow>
          convert_slots f
            (if t = meta_op_type m then n else write_initial_kv_meta n cur (set_op_type m t)) rest)"

fun to_cache :: "op_type \<Rightarrow> op_type option" where
  "to_cache Insert = Some Cache"
| "to_cache Delete = Some PhantomOp"
| "to_cache Cache = None"
| "to_cache PhantomOp = None"

fun to_insert :: "op_type \<Rightarrow> op_type option" where
  "to_insert Cache = Some Insert"
| "to_insert PhantomOp = Some Delete"
| "to_insert Insert = Some Insert"
| "to_insert Delete = Some Delete"

definition covert_insert_records_to_cache :: "leaf_node \<Rightarrow> leaf_node option" where
  "covert_insert_records_to_cache n =
     convert_slots to_cache n [first_meta_pos_after_fence n..<slot_count (lf_meta n)]"

definition convert_cache_records_to_insert :: "leaf_node \<Rightarrow> leaf_node option" where
  "convert_cache_records_to_insert n =
     convert_slots to_insert n [first_meta_pos_after_fence n..<slot_count (lf_meta n)]"

section \<open>Splitting\<close>

text \<open>The size counted for a record by the split-key searches, in wrapping 16-bit arithmetic.\<close>

definition meta_size :: "leaf_kv_meta \<Rightarrow> u16" where
  "meta_size m = get_key_len m + value_len m + 8"

fun split_key_from :: "leaf_node \<Rightarrow> bool \<Rightarrow> u16 \<Rightarrow> u16 \<Rightarrow> nat \<Rightarrow> leaf_kv_meta list \<Rightarrow> (bytes \<times> nat) option" where
  "split_key_from n cache_only target cur i [] = None"
| "split_key_from n cache_only target cur i (m # ms) =
     (let cur' = cur + meta_size m in
      if cache_only \<and> i = 0 then split_key_from n cache_only target cur' (i + 1) ms
      else if cur' \<ge> target then Some (leaf_get_full_key n m, i)
      else split_key_from n cache_only target cur' (i + 1) ms)"

definition leaf_get_split_key :: "leaf_node \<Rightarrow> bool \<Rightarrow> (bytes \<times> nat) option" where
  "leaf_get_split_key n cache_only =
     (let data_size = fold (\<lambda>m s. s + meta_size m) (leaf_meta_iter n) 0
      in split_key_from n cache_only (data_size div 2) 0 0 (leaf_meta_iter n))"

definition get_kv_num_below_key :: "leaf_node \<Rightarrow> bytes \<Rightarrow> nat" where
  "get_kv_num_below_key n key =
     length (takeWhile (\<lambda>m. bytes_cmp (leaf_get_full_key n m) key = Less) (leaf_meta_iter n))"

text \<open>
  The part the two splits share: the sibling takes the live records from position \<open>cnt\<close> on,
  between the separator and the old high fence; this node keeps the others and is consolidated.
\<close>

definition split_at_count ::
  "leaf_node \<Rightarrow> leaf_node \<Rightarrow> bytes \<Rightarrow> nat \<Rightarrow> bool \<Rightarrow> u64 \<Rightarrow> (leaf_node \<times> leaf_node) option" where
  "split_at_count n sibling splitting_key cnt cache_only snapshot_version =
     do {
       sib1 \<leftarrow> (if \<not> cache_only then
                  leaf_initialize sibling splitting_key
                    (if is_infinite_high_fence_key (leaf_get_kv_meta n HIGH_FENCE_IDX) then []
                     else leaf_get_full_key n (leaf_get_kv_meta n HIGH_FENCE_IDX))
                    (unat (node_size (lf_meta sibling))) next_level_null True cache_only snapshot_version
                else
                  leaf_initialize sibling [] [] (unat (node_size (lf_meta sibling))) next_level_null False
                    cache_only snapshot_version);
       let moved = filter (\<lambda>(k, v, t). t \<noteq> Delete)
                     (map (\<lambda>i. leaf_triple n (leaf_get_kv_meta n (cnt + i + (if cache_only then 0 else FENCE_KEY_CNT))))
                       [0..<unat (meta_count_without_fence (lf_meta n)) - cnt]);
       sib2 \<leftarrow> leaf_insert_all sib1 (map (\<lambda>(k, v, t). (k, v, Insert)) moved);
       let n1 = n\<lparr>lf_meta := set_value_count (lf_meta n)
                    (of_nat (if cache_only then cnt else cnt + FENCE_KEY_CNT))\<rparr>;
       n2 \<leftarrow> consolidate_after_split n1 splitting_key snapshot_version;
       Some (n2, sib2)
     }"

definition split_kind_ok :: "leaf_node \<Rightarrow> bool \<Rightarrow> bool" where
  "split_kind_ok n cache_only =
     (if cache_only then is_cache_only_leaf (lf_meta n) \<and> \<not> leaf_has_fence n
      else is_base_page n \<and> leaf_has_fence n)"

definition leaf_split :: "leaf_node \<Rightarrow> leaf_node \<Rightarrow> bool \<Rightarrow> u64 \<Rightarrow> (leaf_node \<times> leaf_node \<times> bytes) option" where
  "leaf_split n sibling cache_only snapshot_version =
     (if \<not> split_kind_ok n cache_only then None
      else do {
        (splitting_key, new_cur_count) \<leftarrow> leaf_get_split_key n cache_only;
        if \<not> cache_only \<and> is_infinite_low_fence_key (leaf_get_kv_meta n (FENCE_KEY_CNT + new_cur_count))
        then None
        else do {
          (n', sib') \<leftarrow> split_at_count n sibling splitting_key new_cur_count cache_only snapshot_version;
          Some (n', sib', splitting_key)
        }
      })"

definition split_with_key ::
  "leaf_node \<Rightarrow> leaf_node \<Rightarrow> bytes \<Rightarrow> bool \<Rightarrow> u64 \<Rightarrow> (leaf_node \<times> leaf_node) option" where
  "split_with_key n sibling merge_split_key cache_only snapshot_version =
     (if \<not> split_kind_ok n cache_only then None
      else do {
        (n', sib') \<leftarrow> split_at_count n sibling merge_split_key (get_kv_num_below_key n merge_split_key)
                        cache_only snapshot_version;
        if \<not> cache_only \<and>
           \<not> (leaf_get_full_key n' (leaf_get_kv_meta n' HIGH_FENCE_IDX) = merge_split_key \<and>
              get_low_fence_full_key sib' = merge_split_key)
        then None else Some (n', sib')
      })"

section \<open>The insertion loop\<close>

text \<open>
  The space a record takes in a page with prefix length \<open>p\<close>, its slot included. A deletion in a
  base page only marks an existing record, or does nothing.
\<close>

definition rec_cost :: "bool \<Rightarrow> nat \<Rightarrow> triple \<Rightarrow> nat" where
  "rec_cost base p r =
     (if base \<and> snd (snd r) = Delete then 0 else (length (fst r) - p) + length (fst (snd r)) + 8)"

definition leaf_cost :: "bool \<Rightarrow> nat \<Rightarrow> triple list \<Rightarrow> nat" where
  "leaf_cost base p rs = sum_list (map (rec_cost base p) rs)"

lemma leaf_cost_simps [simp]:
  "leaf_cost b p [] = 0" "leaf_cost b p (r # rs) = rec_cost b p r + leaf_cost b p rs"
  "leaf_cost b p (rs @ rs') = leaf_cost b p rs + leaf_cost b p rs'"
  by (simp_all add: leaf_cost_def)

definition triple_ok :: "leaf_node \<Rightarrow> triple \<Rightarrow> bool" where
  "triple_ok n r \<longleftrightarrow> leaf_key_ok n (fst r) \<and> length (fst r) < 16384 \<and> length (fst (snd r)) < 32768"

definition put_all :: "bool \<Rightarrow> triple list \<Rightarrow> (bytes \<times> op_type \<times> bytes) list \<Rightarrow> (bytes \<times> op_type \<times> bytes) list" where
  "put_all base rs es = fold (\<lambda>(k, v, t). rec_put base k v t) rs es"

lemma put_all_simps [simp]:
  "put_all b [] es = es" "put_all b ((k, v, t) # rs) es = put_all b rs (rec_put b k v t es)"
  by (simp_all add: put_all_def)

lemma rec_put_keys: "fst ` set (rec_put b k v t es) \<subseteq> insert k (fst ` set es)"
  by (auto simp: rec_put_def split: option.splits if_splits)

lemma leaf_insert_one:
  assumes wf: "leaf_wf n" and ok: "triple_ok n (k, v, t)"
    and room: "rec_cost (is_base_page n) (leaf_p n) (k, v, t) \<le> unat (remaining_size (lf_meta n))"
    and cache: "t = Cache \<Longrightarrow> k \<notin> fst ` set (leaf_view n)"
  obtains n' where "leaf_insert n k v t 0 = Some (n', True)"
    "unat (remaining_size (lf_meta n)) \<le>
      unat (remaining_size (lf_meta n')) + rec_cost (is_base_page n) (leaf_p n) (k, v, t)"
proof (cases "is_base_page n \<and> t = Delete")
  case True
  have k: "leaf_key_ok n k" "length k < 16384" "length v < 32768" using ok by (simp_all add: triple_ok_def)
  show ?thesis
    using that True leaf_insert_cases [OF wf leaf_key_okD(1) [OF wf k(1)] k(2,3), of Delete 0]
    by (cases "leaf_has n k") (auto simp: write_initial_kv_meta_def)
next
  case False
  then have k: "leaf_key_ok n k" "length k < 16384" "length v < 32768"
    and c: "rec_cost (is_base_page n) (leaf_p n) (k, v, t) = length k - leaf_p n + length v + 8"
    using ok by (auto simp: triple_ok_def rec_cost_def)
  obtain n' where n': "leaf_insert n k v t 0 = Some (n', True)"
    using leaf_insert_room [OF wf k, of t] room c cache by auto
  show ?thesis by (rule that [OF n']) (use leaf_insert_true(4) [OF wf k n'] c in simp)
qed

lemma leaf_insert_all_spec:
  assumes "leaf_wf n" "\<forall>r\<in>set rs. triple_ok n r"
    and "leaf_cost (is_base_page n) (leaf_p n) rs \<le> unat (remaining_size (lf_meta n))"
    and "distinct (map fst rs)" "\<forall>r\<in>set rs. snd (snd r) = Cache \<longrightarrow> fst r \<notin> fst ` set (leaf_view n)"
  shows "\<exists>n'. leaf_insert_all n rs = Some n' \<and> leaf_wf n' \<and> leaf_framed n n' \<and>
    leaf_view n' = put_all (is_base_page n) rs (leaf_view n) \<and>
    unat (remaining_size (lf_meta n)) \<le>
      unat (remaining_size (lf_meta n')) + leaf_cost (is_base_page n) (leaf_p n) rs"
  using assms
proof (induction rs arbitrary: n)
  case (Cons r rs)
  obtain k v t where r: "r = (k, v, t)" by (cases r) auto
  have ok: "triple_ok n (k, v, t)" and "rec_cost (is_base_page n) (leaf_p n) (k, v, t) \<le> unat (remaining_size (lf_meta n))"
    and "t = Cache \<Longrightarrow> k \<notin> fst ` set (leaf_view n)"
    using Cons.prems by (simp_all add: r)
  then obtain n1 where n1: "leaf_insert n k v t 0 = Some (n1, True)" and
    rem: "unat (remaining_size (lf_meta n)) \<le>
      unat (remaining_size (lf_meta n1)) + rec_cost (is_base_page n) (leaf_p n) (k, v, t)"
    by (rule leaf_insert_one [OF Cons.prems(1)])
  have k: "leaf_key_ok n k" "length k < 16384" "length v < 32768" using ok by (simp_all add: triple_ok_def)
  note t = leaf_insert_true(1-3) [OF Cons.prems(1) k n1]
  have fr: "leaf_p n1 = leaf_p n" "is_base_page n1 = is_base_page n" "get_prefix n1 = get_prefix n"
    using t(2) leaf_framed_base by (auto simp: leaf_framed_def)
  have "\<exists>n'. leaf_insert_all n1 rs = Some n' \<and> leaf_wf n' \<and> leaf_framed n1 n' \<and>
      leaf_view n' = put_all (is_base_page n1) rs (leaf_view n1) \<and>
      unat (remaining_size (lf_meta n1)) \<le>
        unat (remaining_size (lf_meta n')) + leaf_cost (is_base_page n1) (leaf_p n1) rs"
  proof (rule Cons.IH)
    show "leaf_wf n1" by (rule t(1))
    show "\<forall>r\<in>set rs. triple_ok n1 r"
      using Cons.prems(2) by (simp add: triple_ok_def leaf_key_ok_def fr)
    show "leaf_cost (is_base_page n1) (leaf_p n1) rs \<le> unat (remaining_size (lf_meta n1))"
      using Cons.prems(3) rem by (simp add: fr r)
    show "distinct (map fst rs)" using Cons.prems(4) by simp
    show "\<forall>r\<in>set rs. snd (snd r) = Cache \<longrightarrow> fst r \<notin> fst ` set (leaf_view n1)"
    proof (intro ballI impI)
      fix q assume "q \<in> set rs" "snd (snd q) = Cache"
      then have "fst q \<notin> insert k (fst ` set (leaf_view n))" using Cons.prems(4,5) by (auto simp: r)
      then show "fst q \<notin> fst ` set (leaf_view n1)" using rec_put_keys unfolding t(3) by blast
    qed
  qed
  then obtain n' where n': "leaf_insert_all n1 rs = Some n'" "leaf_wf n'" "leaf_framed n1 n'"
    "leaf_view n' = put_all (is_base_page n) rs (leaf_view n1)"
    "unat (remaining_size (lf_meta n1)) \<le>
        unat (remaining_size (lf_meta n')) + leaf_cost (is_base_page n) (leaf_p n) rs"
    unfolding fr by blast
  show ?case
    using n1 n' rem t(3) leaf_framed_trans [OF t(2) n'(3)] by (intro exI [of _ n']) (simp add: r)
qed simp

text \<open>Appending records in ascending order; a base page drops the tombstones.\<close>

definition live_view :: "bool \<Rightarrow> triple list \<Rightarrow> (bytes \<times> op_type \<times> bytes) list" where
  "live_view base rs = map (\<lambda>(k, v, t). (k, t, v)) (filter (\<lambda>(k, v, t). \<not> (base \<and> t = Delete)) rs)"

lemma put_all_ascending:
  assumes "ascending (map fst es @ map fst rs)"
  shows "put_all base rs es = es @ live_view base rs"
  using assms
proof (induction rs arbitrary: es)
  case (Cons r rs)
  obtain k v t where r: "r = (k, v, t)" by (cases r) auto
  have "map_of es k = None" using Cons(2) by (auto simp: r sorted_wrt_append map_of_eq_None_iff)
  moreover have "upsert k x es = es @ [(k, x)]" for x
    using Cons(2) by (intro upsert_append_last) (auto simp: r sorted_wrt_append)
  ultimately have put: "rec_put base k v t es = es @ live_view base [r]"
    by (simp add: rec_put_def live_view_def r)
  have "ascending (map fst (es @ live_view base [r]) @ map fst rs)"
    using Cons(2) by (auto simp: r live_view_def sorted_wrt_append)
  then show ?case
    using Cons(1) [of "es @ live_view base [r]"] put by (simp add: put_all_def r live_view_def)
qed (simp add: put_all_def live_view_def)

text \<open>
  Initialise a page and fill it with ascending records: it succeeds whenever the fences and the
  records fit, and the page then holds exactly these records.
\<close>

definition fence_cost :: "bool \<Rightarrow> bytes \<Rightarrow> bytes \<Rightarrow> nat" where
  "fence_cost fence low high = (if fence then length low + (length high - common_prefix_len low high) + 16 else 0)"

lemma leaf_initialize_any:
  fixes low high :: bytes
  assumes D: "length (lf_data n) = nsize - 32" "32 \<le> nsize" "nsize \<le> 32768"
    and klen: "length low < 16384" "length high < 16384" and plain: "fence \<or> low = [] \<and> high = []"
    and room: "fence_cost fence low high \<le> nsize - 32"
  obtains n1 where "leaf_initialize n low high nsize nl fence cache_only v = Some n1"
    and "leaf_wf n1" "leaf_view n1 = []" "leaf_has_fence n1 = fence"
    and "leaf_p n1 = common_prefix_len low high" "get_prefix n1 = take (common_prefix_len low high) low"
    and "unat (remaining_size (lf_meta n1)) = nsize - 32 - fence_cost fence low high"
    and "fence \<longrightarrow> leaf_low n1 = low \<and> leaf_high n1 = high" "next_level n1 = nl"
    and "is_cache_only_leaf (lf_meta n1) = cache_only" "unat (node_size (lf_meta n1)) = nsize"
    and "lf_snapshot_version n1 = v AND LEAF_SNAPSHOT_VERSION_MASK"
proof (cases fence)
  case True
  have "length low + (length high - common_prefix_len low high) + 16 \<le> nsize - 32"
    using room True by (simp add: fence_cost_def)
  from leaf_initialize_fenced [OF D klen this, of nl cache_only v] obtain n' where
    "leaf_initialize n low high nsize nl True cache_only v = Some n'"
    "leaf_wf n'" "leaf_view n' = []" "leaf_has_fence n'" "leaf_p n' = common_prefix_len low high"
    "get_prefix n' = take (common_prefix_len low high) low"
    "unat (remaining_size (lf_meta n')) = nsize - 32 - (length low + (length high - common_prefix_len low high) + 16)"
    "leaf_low n' = low" "leaf_high n' = high" "next_level n' = nl"
    "is_cache_only_leaf (lf_meta n') = cache_only" "unat (node_size (lf_meta n')) = nsize"
    "lf_snapshot_version n' = v AND LEAF_SNAPSHOT_VERSION_MASK" .
  then show ?thesis using True by (intro that [of n']) (simp_all add: fence_cost_def)
next
  case False
  then have e: "low = []" "high = []" using plain by auto
  from leaf_initialize_plain [OF D, of nl cache_only v] obtain n' where
    "leaf_initialize n [] [] nsize nl False cache_only v = Some n'"
    "leaf_wf n'" "leaf_view n' = []" "unat (remaining_size (lf_meta n')) = nsize - 32" "leaf_p n' = 0"
    "\<not> leaf_has_fence n'" "is_cache_only_leaf (lf_meta n') = cache_only" "next_level n' = nl"
    "unat (node_size (lf_meta n')) = nsize" "lf_snapshot_version n' = v AND LEAF_SNAPSHOT_VERSION_MASK" .
  then show ?thesis using False e length_get_prefix [of n'] by (intro that [of n']) (simp_all add: fence_cost_def)
qed

lemma leaf_rebuild:
  fixes low high :: bytes
  assumes D: "length (lf_data n) = nsize - 32" "32 \<le> nsize" "nsize \<le> 32768"
    and klen: "length low < 16384" "length high < 16384" and plain: "fence \<or> low = [] \<and> high = []"
    and asc: "ascending (map fst rs)"
    and between: "\<forall>r\<in>set rs. fence \<and> high \<noteq> [] \<longrightarrow> low \<le> fst r \<and> fst r \<le> high"
    and lens: "\<forall>r\<in>set rs. length (fst r) < 16384 \<and> length (fst (snd r)) < 32768"
    and base: "base = (\<not> cache_only \<and> next_level_is_null nl)"
    and room: "fence_cost fence low high + leaf_cost base (common_prefix_len low high) rs \<le> nsize - 32"
  obtains n1 n' where "leaf_initialize n low high nsize nl fence cache_only v = Some n1"
    and "leaf_insert_all n1 rs = Some n'" "leaf_wf n'" "leaf_view n' = live_view base rs"
    and "leaf_has_fence n' = fence" "fence \<longrightarrow> leaf_low n' = low \<and> leaf_high n' = high"
    and "leaf_p n' = common_prefix_len low high" "next_level n' = nl"
    and "is_cache_only_leaf (lf_meta n') = cache_only" "unat (node_size (lf_meta n')) = nsize"
    and "lf_snapshot_version n' = v AND LEAF_SNAPSHOT_VERSION_MASK"
    and "nsize - 32 \<le> unat (remaining_size (lf_meta n')) +
      (fence_cost fence low high + leaf_cost base (common_prefix_len low high) rs)"
proof -
  let ?p = "common_prefix_len low high"
  have r0: "fence_cost fence low high \<le> nsize - 32" using room by simp
  obtain n1 where n1: "leaf_initialize n low high nsize nl fence cache_only v = Some n1"
    "leaf_wf n1" "leaf_view n1 = []" "leaf_has_fence n1 = fence" "leaf_p n1 = ?p" "get_prefix n1 = take ?p low"
    "unat (remaining_size (lf_meta n1)) = nsize - 32 - fence_cost fence low high"
    "fence \<longrightarrow> leaf_low n1 = low \<and> leaf_high n1 = high" "next_level n1 = nl"
    "is_cache_only_leaf (lf_meta n1) = cache_only" "unat (node_size (lf_meta n1)) = nsize"
    "lf_snapshot_version n1 = v AND LEAF_SNAPSHOT_VERSION_MASK"
    by (rule leaf_initialize_any [OF D klen plain r0, of nl cache_only v])
  have b1: "is_base_page n1 = base" using n1(9,10) base by (simp add: is_base_page_def)
  have ok: "leaf_key_ok n1 (fst r)" if "r \<in> set rs" for r
  proof (cases "fence \<and> high \<noteq> []")
    case True
    then have "low \<le> fst r" "fst r \<le> high" using between that by auto
    then show ?thesis unfolding leaf_key_ok_def n1(5,6) by (rule common_prefix_between)
  next
    case False
    then have "?p = 0" using plain common_prefix_len_le(2) [of low high] by auto
    then show ?thesis unfolding leaf_key_ok_def n1(5,6) by simp
  qed
  have dis: "distinct (map fst rs)" using asc strict_sorted_iff by blast
  have "\<exists>n'. leaf_insert_all n1 rs = Some n' \<and> leaf_wf n' \<and> leaf_framed n1 n' \<and>
    leaf_view n' = put_all (is_base_page n1) rs (leaf_view n1) \<and>
    unat (remaining_size (lf_meta n1)) \<le>
      unat (remaining_size (lf_meta n')) + leaf_cost (is_base_page n1) (leaf_p n1) rs"
  proof (rule leaf_insert_all_spec [OF n1(2) _ _ dis])
    show "\<forall>r\<in>set rs. triple_ok n1 r" using lens ok by (simp add: triple_ok_def)
    show "leaf_cost (is_base_page n1) (leaf_p n1) rs \<le> unat (remaining_size (lf_meta n1))"
      unfolding b1 n1(5,7) using room by simp
  qed (simp add: n1(3))
  then obtain n' where n': "leaf_insert_all n1 rs = Some n'" "leaf_wf n'" "leaf_framed n1 n'"
    "leaf_view n' = put_all base rs []"
    "unat (remaining_size (lf_meta n1)) \<le> unat (remaining_size (lf_meta n')) + leaf_cost base ?p rs"
    unfolding b1 n1(3,5) by blast
  have fr: "leaf_has_fence n' = leaf_has_fence n1" "leaf_p n' = leaf_p n1" "next_level n' = next_level n1"
    "is_cache_only_leaf (lf_meta n') = is_cache_only_leaf (lf_meta n1)" "node_size (lf_meta n') = node_size (lf_meta n1)"
    "lf_snapshot_version n' = lf_snapshot_version n1"
    "leaf_has_fence n1 \<longrightarrow> leaf_low n' = leaf_low n1 \<and> leaf_high n' = leaf_high n1"
    using n'(3) by (simp_all add: leaf_framed_def leaf_has_fence_def same_flags_def)
  have "leaf_view n' = live_view base rs"
    using n'(4) put_all_ascending [of "[]" rs base] asc by simp
  then show thesis
    by (rule that [OF n1(1) n'(1,2)]) (use n'(5) n1(7,8) room in \<open>simp_all add: fr n1(4,5,9-12)\<close>)
qed

end
