(* ===== verification/Leaf_Rebuild.thy ===== *)
theory Leaf_Rebuild
  imports Leaf_Ops
begin

text \<open>
  The theorems on the operations of Leaf_Ops: consolidation, copying and merging keep the contents
  of the page and never hit one of their assertions, and a split divides the contents at its key.
\<close>

section \<open>The records of a page and the space they take\<close>

definition view_triples :: "(bytes \<times> op_type \<times> bytes) list \<Rightarrow> triple list" where
  "view_triples es = map (\<lambda>(k, t, v). (k, v, t)) es"

lemma leaf_triples: "leaf_wf n \<Longrightarrow> map (leaf_triple n) (leaf_meta_iter n) = view_triples (leaf_view n)"
  unfolding leaf_meta_iter_recs
  by (simp add: view_triples_def leaf_view_def leaf_entries_def leaf_triple_def leaf_entry_eq leaf_get_full_key_def)

lemma leaf_view_ascending: "leaf_wf n \<Longrightarrow> ascending (map fst (leaf_view n))"
  using leaf_wfD(5) [of n]
  by (simp add: leaf_view_def sorted_wrt_map case_prod_unfold)

lemma view_triples_fst [simp]: "map fst (view_triples es) = map fst es"
  by (simp add: view_triples_def case_prod_unfold)

text \<open>Lengths of what a well-formed page holds.\<close>

lemma leaf_view_lengths:
  assumes "leaf_wf n" "r \<in> set (leaf_view n)"
  shows "leaf_p n \<le> length (fst r)" "length (fst r) < 16384" "length (snd (snd r)) < 32768"
    and "leaf_key_ok n (fst r)"
proof -
  obtain m where m: "m \<in> set (leaf_recs n)"
    "r = (get_prefix n @ get_remaining_key n m, meta_op_type m, leaf_get_value n m)"
    using assms leaf_entry_eq(1) [OF assms(1)] by (auto simp: leaf_view_def leaf_entries_def)
  note e = leaf_entry_eq(2,3) [OF assms(1) m(1)] and b = rec_in_bounds(3) [OF assms(1) m(1)]
  show "leaf_p n \<le> length (fst r)" "length (fst r) < 16384" "length (snd (snd r)) < 32768" "leaf_key_ok n (fst r)"
    using e b packed_len_less [of m] length_get_prefix [OF assms(1)] by (simp_all add: m(2) leaf_key_ok_def)
qed

lemma leaf_fence_lengths:
  assumes wf: "leaf_wf n" and f: "leaf_has_fence n"
  shows "sum_list (map snd (fence_regions n)) = length (leaf_low n) + (length (leaf_high n) - leaf_p n)"
    and "length (leaf_low n) < 16384" "length (leaf_high n) < 16384"
    and "take (leaf_p n) (leaf_low n) = get_prefix n" "take (leaf_p n) (leaf_high n) = get_prefix n"
    and "get_low_fence_key n = Some (leaf_low n)" "get_high_fence_key n = Some (leaf_high n)"
    and "length (leaf_low n) =
      (if is_infinite_low_fence_key (leaf_get_kv_meta n 0) then 0 else unat (get_key_len (leaf_get_kv_meta n 0)))"
    and "length (leaf_high n) =
      (if is_infinite_high_fence_key (leaf_get_kv_meta n 1) then 0 else unat (get_key_len (leaf_get_kv_meta n 1)))"
proof -
  let ?l = "leaf_get_kv_meta n 0" and ?h = "leaf_get_kv_meta n 1"
  note fo = leaf_wfD(6) [OF wf, unfolded fence_ok_def if_P [OF f] Let_def]
  have reg: "o' + s \<le> length (lf_data n)" if "(o', s) \<in> set (fence_regions n)" for o' s
    using leaf_wfD(3) [OF wf] that by (force simp: regions_ok_def leaf_regions_def)
  note fr = fence_regions_def [of n, unfolded if_P [OF f] Let_def]
  show l: "length (leaf_low n) = (if is_infinite_low_fence_key ?l then 0 else unat (get_key_len ?l))"
    using reg [of "unat (lk_offset ?l)" "unat (get_key_len ?l)"]
    by (simp add: fr leaf_low_def get_low_fence_full_key_def LOW_FENCE_IDX_def Let_def)
  show h: "length (leaf_high n) = (if is_infinite_high_fence_key ?h then 0 else unat (get_key_len ?h))"
  proof (cases "is_infinite_high_fence_key ?h")
    case False
    then have p: "leaf_p n \<le> unat (get_key_len ?h)" using fo by simp
    then have "unat (get_key_len ?h - prefix_len n) = unat (get_key_len ?h) - leaf_p n"
      by (simp add: unat_sub_nowrap)
    then show ?thesis
      using False p reg [of "unat (lk_offset ?h)" "unat (get_key_len ?h) - leaf_p n"] length_get_prefix [OF wf]
      by (simp add: fr leaf_high_def leaf_get_full_key_def get_remaining_key_def)
  qed (simp add: leaf_high_def)
  show "sum_list (map snd (fence_regions n)) = length (leaf_low n) + (length (leaf_high n) - leaf_p n)"
    using fo by (auto simp: fr l h simp del: One_nat_def split: if_splits)
  show "length (leaf_low n) < 16384" "length (leaf_high n) < 16384"
    using packed_len_less(1) [of ?l] packed_len_less(1) [of ?h] by (simp_all add: l h)
  show "take (leaf_p n) (leaf_low n) = get_prefix n"
    using fo length_get_prefix [OF wf]
    by (auto simp: leaf_low_def get_low_fence_full_key_def get_prefix_def LOW_FENCE_IDX_def Let_def read_at_def
        min_def split: if_splits)
  show "take (leaf_p n) (leaf_high n) = get_prefix n"
    using fo length_get_prefix [OF wf] by (auto simp: leaf_high_def leaf_get_full_key_def split: if_splits)
  show "get_low_fence_key n = Some (leaf_low n)" "get_high_fence_key n = Some (leaf_high n)"
    using f by (simp_all add: get_low_fence_key_def get_high_fence_key_def leaf_low_def leaf_high_def
        get_low_fence_full_key_def LOW_FENCE_IDX_def HIGH_FENCE_IDX_def Let_def)
qed

text \<open>The fences, the records and the free space fill at most the page.\<close>

definition fence_space :: "leaf_node \<Rightarrow> nat" where
  "fence_space n =
     (if leaf_has_fence n then length (leaf_low n) + (length (leaf_high n) - leaf_p n) + 16 else 0)"

lemma leaf_accounting:
  assumes wf: "leaf_wf n"
  shows "fence_space n + leaf_cost False (leaf_p n) (view_triples (leaf_view n)) + unat (remaining_size (lf_meta n))
    \<le> length (lf_data n)"
proof -
  have len: "rec_cost False (leaf_p n) (leaf_triple n m) = snd (rec_region (leaf_p n) m) + 8"
    if "m \<in> set (leaf_recs n)" for m
    using leaf_entry_eq(2,3) [OF wf that] rec_in_bounds(3) [OF wf that] length_get_prefix [OF wf]
    by (simp add: rec_cost_def leaf_triple_def leaf_get_full_key_def rec_region_def)
  have cost: "leaf_cost False (leaf_p n) (view_triples (leaf_view n)) =
      sum_list (map snd (map (rec_region (leaf_p n)) (leaf_recs n))) + 8 * length (leaf_recs n)"
    unfolding leaf_triples [OF wf, symmetric] leaf_meta_iter_recs leaf_cost_def
    by (simp add: comp_def len sum_list_addf sum_list_triv cong: map_cong)
  have fence: "fence_space n = sum_list (map snd (fence_regions n)) + 8 * first_meta_pos_after_fence n"
    using leaf_fence_lengths(1) [OF wf]
    by (simp add: fence_space_def fence_regions_def first_meta_pos_after_fence_def FENCE_KEY_CNT_def)
  show ?thesis
    using leaf_wfD(2,4) [OF wf] by (simp add: cost fence leaf_regions_def)
qed

lemma leaf_cost_mono: "p \<le> p' \<Longrightarrow> leaf_cost b p' rs \<le> leaf_cost False p rs"
  by (induction rs) (auto simp: rec_cost_def)

lemma leaf_cost_filter: "leaf_cost b p (filter P rs) \<le> leaf_cost b p rs"
  by (induction rs) auto

lemma common_prefix_len_ge:
  "take p a = take p b \<Longrightarrow> p \<le> length a \<Longrightarrow> p \<le> length b \<Longrightarrow> p \<le> common_prefix_len a b"
proof (induction a b arbitrary: p rule: common_prefix_len.induct)
  case (1 x xs y ys)
  then show ?case by (cases p) auto
qed auto

lemma common_prefix_len_shared:
  "take p a = q \<Longrightarrow> take p b = q \<Longrightarrow> length q = p \<Longrightarrow> p \<le> common_prefix_len a b"
  using common_prefix_len_ge [of p a b] by (metis length_take min.cobounded1)

section \<open>Consolidation\<close>

text \<open>The keys of a page with fences lie between them.\<close>

definition leaf_covers :: "leaf_node \<Rightarrow> bytes \<Rightarrow> bool" where
  "leaf_covers n k \<longleftrightarrow> (leaf_has_fence n \<longrightarrow> leaf_low n \<le> k \<and> (leaf_high n \<noteq> [] \<longrightarrow> k < leaf_high n))"

definition leaf_ranged :: "leaf_node \<Rightarrow> bool" where
  "leaf_ranged n \<longleftrightarrow> (\<forall>k\<in>fst ` set (leaf_view n). leaf_covers n k)"

lemma leaf_covers_key_ok:
  assumes wf: "leaf_wf n" and k: "leaf_covers n k"
  shows "leaf_key_ok n k"
proof (cases "leaf_has_fence n \<and> leaf_high n \<noteq> []")
  case True
  then have f: "leaf_has_fence n" and lk: "leaf_low n \<le> k" "k \<le> leaf_high n" using k by (auto simp: leaf_covers_def)
  note fl = leaf_fence_lengths(4,5) [OF wf f]
  have "leaf_p n \<le> common_prefix_len (leaf_low n) (leaf_high n)"
    using fl length_get_prefix [OF wf] by (rule common_prefix_len_shared)
  then show ?thesis
    using arg_cong [OF common_prefix_between [OF lk], of "take (leaf_p n)"] fl(1) by (simp add: leaf_key_ok_def min_def)
next
  case False
  then have "leaf_p n = 0"
    using leaf_wfD(6) [OF wf] leaf_fence_lengths(5) [OF wf] length_get_prefix [OF wf] by (cases "leaf_has_fence n") (auto simp: fence_ok_def)
  then show ?thesis using length_get_prefix [OF wf] by (simp add: leaf_key_ok_def)
qed

definition kept_triples :: "bool \<Rightarrow> bytes option \<Rightarrow> leaf_node \<Rightarrow> triple list" where
  "kept_triples skip_tombstone skip_key n =
     filter (\<lambda>(k, v, t). \<not> (skip_tombstone \<and> t = Delete) \<and> skip_key \<noteq> Some k) (view_triples (leaf_view n))"

definition retype :: "op_type \<Rightarrow> triple list \<Rightarrow> triple list" where
  "retype t' rs = map (\<lambda>(k, v, t). (k, v, if t = Delete then Delete else t')) rs"

lemma retype_laws [simp]:
  "map fst (retype t rs) = map fst rs" "leaf_cost False p (retype t rs) = leaf_cost False p rs"
  by (induction rs) (auto simp: retype_def rec_cost_def)

lemma ascending_filter: "ascending (map f xs) \<Longrightarrow> ascending (map f (filter P xs))"
  by (simp add: sorted_wrt_map sorted_wrt_filter)

lemma retype_bounds:
  "(\<forall>r\<in>set (retype t rs). P (fst r) (fst (snd r))) = (\<forall>r\<in>set rs. P (fst r) (fst (snd r)))"
  by (auto simp: retype_def)

lemma kept_triples_props:
  assumes "leaf_wf n"
  shows "ascending (map fst (kept_triples s k n))"
    and "\<forall>r\<in>set (kept_triples s k n). length (fst r) < 16384 \<and> length (fst (snd r)) < 32768"
    and "leaf_cost False p (kept_triples s k n) \<le> leaf_cost False p (view_triples (leaf_view n))"
proof -
  show "ascending (map fst (kept_triples s k n))"
    unfolding kept_triples_def
    by (rule ascending_filter) (simp add: leaf_view_ascending [OF assms])
  show "\<forall>r\<in>set (kept_triples s k n). length (fst r) < 16384 \<and> length (fst (snd r)) < 32768"
    using leaf_view_lengths(2,3) [OF assms] by (fastforce simp: kept_triples_def view_triples_def)
  show "leaf_cost False p (kept_triples s k n) \<le> leaf_cost False p (view_triples (leaf_view n))"
    unfolding kept_triples_def by (rule leaf_cost_filter)
qed

lemma consolidate_inner_spec:
  assumes wf: "leaf_wf n" and hi: "hi = (case new_high of None \<Rightarrow> leaf_high n | Some h \<Rightarrow> h)"
    and fence: "leaf_has_fence n \<Longrightarrow> length hi < 16384 \<and> take (leaf_p n) hi = get_prefix n \<and>
        (\<forall>r\<in>set (kept_triples skip skip_key n). hi \<noteq> [] \<longrightarrow> leaf_low n \<le> fst r \<and> fst r \<le> hi)"
    and room: "(if leaf_has_fence n then length (leaf_low n) + (length hi - leaf_p n) + 16 else 0) +
        leaf_cost False (leaf_p n) (kept_triples skip skip_key n) \<le> length (lf_data n)"
  shows "\<exists>n'. consolidate_inner n t' new_high skip co skip_key v = Some n' \<and> leaf_wf n' \<and>
    leaf_view n' = live_view (\<not> co \<and> next_level_is_null (next_level n)) (retype t' (kept_triples skip skip_key n)) \<and>
    leaf_has_fence n' = leaf_has_fence n \<and> (leaf_has_fence n \<longrightarrow> leaf_low n' = leaf_low n \<and> leaf_high n' = hi) \<and>
    next_level n' = next_level n \<and> is_cache_only_leaf (lf_meta n') = co \<and>
    node_size (lf_meta n') = node_size (lf_meta n)"
proof -
  define low where "low = (if leaf_has_fence n then leaf_low n else [])"
  define high where "high = (if leaf_has_fence n then hi else [])"
  let ?base = "\<not> co \<and> next_level_is_null (next_level n)"
  let ?rs = "retype t' (kept_triples skip skip_key n)"
  note kp = kept_triples_props [OF wf, where s = skip and k = skip_key] and D = leaf_wfD(1,8) [OF wf]
  have klen: "length low < 16384" "length high < 16384"
    using fence leaf_fence_lengths(2) [OF wf] by (auto simp: low_def high_def)
  have p: "leaf_p n \<le> common_prefix_len low high"
  proof (cases "leaf_has_fence n")
    case True
    have "take (leaf_p n) low = get_prefix n" "take (leaf_p n) high = get_prefix n"
      using fence [OF True] leaf_fence_lengths(4) [OF wf True] True by (simp_all add: low_def high_def)
    then show ?thesis using length_get_prefix [OF wf] by (rule common_prefix_len_shared)
  next
    case False
    then show ?thesis using leaf_wfD(6) [OF wf] by (simp add: fence_ok_def)
  qed
  have "fence_cost (leaf_has_fence n) low high \<le>
      (if leaf_has_fence n then length (leaf_low n) + (length hi - leaf_p n) + 16 else 0)"
    using p by (cases "leaf_has_fence n") (auto simp: fence_cost_def low_def high_def)
  then have room': "fence_cost (leaf_has_fence n) low high + leaf_cost ?base (common_prefix_len low high) ?rs
      \<le> unat (node_size (lf_meta n)) - 32"
    using room leaf_cost_mono [OF p, of ?base ?rs] D(2) by simp
  obtain n1 n' where n': "leaf_initialize n low high (unat (node_size (lf_meta n))) (next_level n) (leaf_has_fence n) co v = Some n1"
    "leaf_insert_all n1 ?rs = Some n'" "leaf_wf n'" "leaf_view n' = live_view ?base ?rs"
    "leaf_has_fence n' = leaf_has_fence n" "leaf_has_fence n \<longrightarrow> leaf_low n' = low \<and> leaf_high n' = high"
    "next_level n' = next_level n" "is_cache_only_leaf (lf_meta n') = co"
    "unat (node_size (lf_meta n')) = unat (node_size (lf_meta n))"
  proof (rule leaf_rebuild [of n "unat (node_size (lf_meta n))" low high "leaf_has_fence n" ?rs ?base co "next_level n" v])
    show "\<forall>r\<in>set ?rs. leaf_has_fence n \<and> high \<noteq> [] \<longrightarrow> low \<le> fst r \<and> fst r \<le> high"
      using fence by (subst retype_bounds) (auto simp: low_def high_def)
    show "\<forall>r\<in>set ?rs. length (fst r) < 16384 \<and> length (fst (snd r)) < 32768"
      using kp(2) by (subst retype_bounds)
  qed (use D klen kp(1) room' in \<open>simp_all add: low_def high_def\<close>)
  have "(if leaf_has_fence n then case new_high of None \<Rightarrow> get_high_fence_key n | Some key \<Rightarrow> Some key else Some []) = Some high"
    "(if leaf_has_fence n then get_low_fence_key n else Some []) = Some low"
    using leaf_fence_lengths(6,7) [OF wf] by (auto simp: low_def high_def hi split: option.splits)
  then have "consolidate_inner n t' new_high skip co skip_key v = Some n'"
    using n'(1,2) unfolding consolidate_inner_def leaf_triples [OF wf]
    by (simp add: kept_triples_def retype_def)
  then show ?thesis using n' by (intro exI [of _ n']) (simp add: low_def high_def word_unat_eq_iff)
qed

text \<open>Room is no issue when the fences stay.\<close>

lemma consolidate_in_place:
  assumes wf: "leaf_wf n" and rng: "leaf_ranged n"
  shows "\<exists>n'. consolidate_inner n t' None skip co skip_key v = Some n' \<and> leaf_wf n' \<and>
    leaf_view n' = live_view (\<not> co \<and> next_level_is_null (next_level n)) (retype t' (kept_triples skip skip_key n)) \<and>
    leaf_has_fence n' = leaf_has_fence n \<and> (leaf_has_fence n \<longrightarrow> leaf_low n' = leaf_low n \<and> leaf_high n' = leaf_high n) \<and>
    next_level n' = next_level n \<and> is_cache_only_leaf (lf_meta n') = co \<and>
    node_size (lf_meta n') = node_size (lf_meta n)"
proof (rule consolidate_inner_spec [OF wf])
  show "(if leaf_has_fence n then length (leaf_low n) + (length (leaf_high n) - leaf_p n) + 16 else 0) +
      leaf_cost False (leaf_p n) (kept_triples skip skip_key n) \<le> length (lf_data n)"
    using leaf_accounting [OF wf] kept_triples_props(3) [OF wf, of "leaf_p n" skip skip_key]
    by (simp add: fence_space_def)
  assume f: "leaf_has_fence n"
  have "fst ` set (kept_triples skip skip_key n) \<subseteq> fst ` set (leaf_view n)"
    by (force simp: kept_triples_def view_triples_def)
  then have "\<forall>r\<in>set (kept_triples skip skip_key n). leaf_high n \<noteq> [] \<longrightarrow> leaf_low n \<le> fst r \<and> fst r \<le> leaf_high n"
    using rng f unfolding leaf_ranged_def leaf_covers_def by (meson imageI less_imp_le subsetD)
  then show "length (leaf_high n) < 16384 \<and> take (leaf_p n) (leaf_high n) = get_prefix n \<and>
      (\<forall>r\<in>set (kept_triples skip skip_key n). leaf_high n \<noteq> [] \<longrightarrow> leaf_low n \<le> fst r \<and> fst r \<le> leaf_high n)"
    using leaf_fence_lengths(3,5) [OF wf f] by blast
qed simp

lemma live_view_retype:
  "t' \<noteq> Delete \<Longrightarrow> live_view b (retype t' (filter (\<lambda>(k, v, t). t \<noteq> Delete \<and> P k) (view_triples es))) =
    map (\<lambda>(k, t, v). (k, t', v)) (filter (\<lambda>(k, t, v). t \<noteq> Delete \<and> P k) es)"
  by (induction es) (auto simp: live_view_def retype_def view_triples_def)

lemma live_view_kept:
  "t' \<noteq> Delete \<Longrightarrow> live_view b (retype t' (kept_triples True sk n)) =
    map (\<lambda>(k, t, v). (k, t', v)) (filter (\<lambda>(k, t, v). t \<noteq> Delete \<and> sk \<noteq> Some k) (leaf_view n))"
  using live_view_retype [of t' b "\<lambda>k. sk \<noteq> Some k" "leaf_view n"] by (simp add: kept_triples_def)

lemma leaf_ranged_sub:
  assumes "leaf_ranged n" "leaf_has_fence n' = leaf_has_fence n"
    and "leaf_has_fence n \<longrightarrow> leaf_low n' = leaf_low n \<and> leaf_high n' = leaf_high n"
    and "fst ` set (leaf_view n') \<subseteq> fst ` set (leaf_view n)"
  shows "leaf_ranged n'"
proof -
  have c: "leaf_covers n' k = leaf_covers n k" for k using assms(2,3) by (cases "leaf_has_fence n") (simp_all add: leaf_covers_def)
  show ?thesis unfolding leaf_ranged_def c 
    by (intro ballI bspec [OF assms(1) [unfolded leaf_ranged_def]] subsetD [OF assms(4)])
qed

text \<open>
  C17. Consolidating a page never fails one of its assertions: it drops the tombstones, keeps every
  other record under its key and with its value, and keeps the fences; for a mini-page of a
  cache-only tree, \<^verbatim>\<open>consolidate_skip_key\<close> drops the given key as well.
\<close>

theorem leaf_consolidate_contents:
  assumes "leaf_wf n" "leaf_ranged n"
  shows "(\<exists>n'. leaf_consolidate n v = Some n' \<and> leaf_wf n' \<and> leaf_ranged n' \<and>
      leaf_view n' = map (\<lambda>(k, t, w). (k, Insert, w)) (filter (\<lambda>(k, t, w). t \<noteq> Delete) (leaf_view n)) \<and>
      leaf_has_fence n' = leaf_has_fence n \<and>
      (leaf_has_fence n \<longrightarrow> leaf_low n' = leaf_low n \<and> leaf_high n' = leaf_high n)) \<and>
    (is_cache_only_leaf (lf_meta n) \<longrightarrow> (\<exists>n'. consolidate_skip_key n key v = Some n' \<and> leaf_wf n' \<and>
      leaf_view n' = map (\<lambda>(k, t, w). (k, Insert, w))
        (filter (\<lambda>(k, t, w). t \<noteq> Delete \<and> k \<noteq> key) (leaf_view n))))"
proof (intro conjI impI)
  obtain n' where n': "leaf_consolidate n v = Some n'" "leaf_wf n'"
    "leaf_view n' = map (\<lambda>(k, t, w). (k, Insert, w)) (filter (\<lambda>(k, t, w). t \<noteq> Delete) (leaf_view n))"
    "leaf_has_fence n' = leaf_has_fence n"
    "leaf_has_fence n \<longrightarrow> leaf_low n' = leaf_low n \<and> leaf_high n' = leaf_high n"
    using consolidate_in_place [OF assms, of Insert True "is_cache_only_leaf (lf_meta n)" None v]
    by (auto simp: live_view_kept leaf_consolidate_def)
  have "leaf_ranged n'" using assms(2) n'(4,5) by (rule leaf_ranged_sub) (force simp: n'(3))
  with n' show "\<exists>n'. leaf_consolidate n v = Some n' \<and> leaf_wf n' \<and> leaf_ranged n' \<and>
      leaf_view n' = map (\<lambda>(k, t, w). (k, Insert, w)) (filter (\<lambda>(k, t, w). t \<noteq> Delete) (leaf_view n)) \<and>
      leaf_has_fence n' = leaf_has_fence n \<and>
      (leaf_has_fence n \<longrightarrow> leaf_low n' = leaf_low n \<and> leaf_high n' = leaf_high n)" by blast
  assume co: "is_cache_only_leaf (lf_meta n)"
  then show "\<exists>n'. consolidate_skip_key n key v = Some n' \<and> leaf_wf n' \<and>
      leaf_view n' = map (\<lambda>(k, t, w). (k, Insert, w))
        (filter (\<lambda>(k, t, w). t \<noteq> Delete \<and> k \<noteq> key) (leaf_view n))"
    using consolidate_in_place [OF assms, of Insert True True "Some key" v]
    by (auto simp: live_view_kept consolidate_skip_key_def is_base_page_def eq_commute)
qed

text \<open>A page for the witnesses: base page or mini-page, with three records.\<close>

definition demo_keys :: "triple list" where
  "demo_keys = [([97, 112, 112, 108, 101], [1, 2], Insert), ([97, 112, 112, 114], [3], Delete),
     ([97, 112, 113], [4, 5, 6], Insert)]"

definition demo_page :: "mini_page_next_level \<Rightarrow> bool \<Rightarrow> bool \<Rightarrow> leaf_node" where
  "demo_page nl fence co =
     the (do { n \<leftarrow> leaf_initialize (leaf_blank 512) (if fence then demo_low else []) (if fence then demo_high else [])
                 512 nl fence co 3;
               leaf_insert_all n demo_keys })"

lemma demo_page_spec:
  fixes nl fence co
  defines "n \<equiv> demo_page nl fence co"
  shows "leaf_wf n" "leaf_view n = live_view (\<not> co \<and> next_level_is_null nl) demo_keys"
    and "leaf_has_fence n = fence" "fence \<longrightarrow> leaf_low n = demo_low \<and> leaf_high n = demo_high"
    and "next_level n = nl" "is_cache_only_leaf (lf_meta n) = co" "unat (node_size (lf_meta n)) = 512"
    and "leaf_ranged n" "leaf_p n = (if fence then 2 else 0)" "200 \<le> unat (remaining_size (lf_meta n))"
proof -
  let ?l = "if fence then demo_low else []" and ?h = "if fence then demo_high else []"
  let ?base = "\<not> co \<and> next_level_is_null nl"
  have d: "length (lf_data (leaf_blank 512)) = 512 - 32" by (simp add: leaf_blank_def)
  have p: "common_prefix_len ?l ?h = (if fence then 2 else 0)" by (simp add: demo_low_def demo_high_def)
  have small: "fence_cost fence ?l ?h \<le> 26" "leaf_cost ?base (common_prefix_len ?l ?h) demo_keys \<le> 60"
    unfolding p by (simp_all add: fence_cost_def demo_low_def demo_high_def demo_keys_def rec_cost_def)
  obtain n1 n' where n': "leaf_initialize (leaf_blank 512) ?l ?h 512 nl fence co 3 = Some n1"
    "leaf_insert_all n1 demo_keys = Some n'" "leaf_wf n'" "leaf_view n' = live_view ?base demo_keys"
    "leaf_has_fence n' = fence" "fence \<longrightarrow> leaf_low n' = ?l \<and> leaf_high n' = ?h"
    "leaf_p n' = common_prefix_len ?l ?h" "next_level n' = nl" "is_cache_only_leaf (lf_meta n') = co"
    "unat (node_size (lf_meta n')) = 512"
    "512 - 32 \<le> unat (remaining_size (lf_meta n')) +
      (fence_cost fence ?l ?h + leaf_cost ?base (common_prefix_len ?l ?h) demo_keys)"
    by (rule leaf_rebuild [OF d, of ?l ?h fence demo_keys ?base co nl 3])
       (use small in \<open>simp_all add: demo_low_def demo_high_def demo_keys_def\<close>)
  have n: "n = n'" using n'(1,2) by (simp add: n_def demo_page_def)
  show "leaf_wf n" "leaf_view n = live_view ?base demo_keys" "leaf_has_fence n = fence"
    "fence \<longrightarrow> leaf_low n = demo_low \<and> leaf_high n = demo_high" "next_level n = nl"
    "is_cache_only_leaf (lf_meta n) = co" "unat (node_size (lf_meta n)) = 512" "leaf_p n = (if fence then 2 else 0)"
    "200 \<le> unat (remaining_size (lf_meta n))"
    using n' small by (simp_all add: n p)
  show "leaf_ranged n"
    using n'(4-6) by (auto simp: n leaf_ranged_def leaf_covers_def live_view_def demo_keys_def demo_low_def demo_high_def split: if_splits)
qed

theorem leaf_consolidate_contents_witness:
  "\<exists>n n'. leaf_consolidate n 9 = Some n' \<and> length (leaf_view n) = 3 \<and>
    leaf_view n' = [([97, 112, 112, 108, 101], Insert, [1, 2]), ([97, 112, 113], Insert, [4, 5, 6])]"
proof -
  let ?n = "demo_page (MiniPageNextLevel 4096) False False"
  have "leaf_view ?n = map (\<lambda>(k, v, t). (k, t, v)) demo_keys"
    by (simp add: demo_page_spec next_level_is_null_def live_view_def demo_keys_def)
  moreover obtain n' where "leaf_consolidate ?n 9 = Some n'"
    "leaf_view n' = map (\<lambda>(k, t, w). (k, Insert, w)) (filter (\<lambda>(k, t, w). t \<noteq> Delete) (leaf_view ?n))"
    using leaf_consolidate_contents [OF demo_page_spec(1,8), of "MiniPageNextLevel 4096" False False 9 "[]"] by blast
  ultimately show ?thesis by (intro exI [of _ ?n] exI [of _ n']) (simp add: demo_keys_def)
qed

end
