(* ===== verification/Leaf_Merge.thy ===== *)
theory Leaf_Merge
  imports Leaf_Rebuild
begin

text \<open>
  Copying a mini-page to a larger one, merging it into its base page, and converting its records
  between dirty and cached.
\<close>

section \<open>Copying to another page\<close>









section \<open>Merging\<close>

text \<open>What a reader of the contents finds: tombstones are absent.\<close>

definition live :: "(bytes \<times> op_type \<times> bytes) list \<Rightarrow> bytes \<Rightarrow> bytes option" where
  "live es k = (case map_of es k of Some (t, v) \<Rightarrow> if is_absent t then None else Some v | None \<Rightarrow> None)"

definition dirty_triples :: "leaf_node \<Rightarrow> triple list" where
  "dirty_triples n = filter (\<lambda>(k, v, t). is_dirty t) (view_triples (leaf_view n))"

lemma put_all_lookup:
  "distinct (map fst rs) \<Longrightarrow> map_of (put_all b rs es) k =
     (case map_of rs k of None \<Rightarrow> map_of es k | Some (v, t) \<Rightarrow> map_of (rec_put b k v t es) k)"
proof (induction rs arbitrary: es)
  case (Cons r rs)
  obtain k0 v0 t0 where r: "r = (k0, v0, t0)" by (cases r) auto
  have "k = k0 \<Longrightarrow> map_of rs k = None" using Cons.prems by (auto simp: r map_of_eq_None_iff)
  moreover have "map_of (rec_put b k v t (rec_put b k0 v0 t0 es)) k = map_of (rec_put b k v t es) k" if "k \<noteq> k0" for v t
    using that by (simp add: rec_put_lookup)
  ultimately show ?case using Cons by (auto simp: r rec_put_lookup [of b k0] split: option.splits)
qed simp

lemma map_of_view_triples: "map_of (view_triples es) k = map_option (\<lambda>(t, v). (v, t)) (map_of es k)"
  by (induction es) (auto simp: view_triples_def)

lemma map_of_filter_triples:
  "distinct (map fst rs) \<Longrightarrow> map_of (filter (\<lambda>(k, v, t). P t) rs) k =
    (case map_of rs k of Some (v, t) \<Rightarrow> if P t then Some (v, t) else None | None \<Rightarrow> None)"
  by (induction rs) (auto simp: map_of_eq_None_iff image_iff split: option.splits)

lemma view_distinct: "leaf_wf n \<Longrightarrow> distinct (map fst (leaf_view n))"
  using leaf_view_ascending strict_sorted_iff by blast

lemma map_of_dirty:
  "leaf_wf n \<Longrightarrow> map_of (dirty_triples n) k =
    (case map_of (leaf_view n) k of Some (t, v) \<Rightarrow> if is_dirty t then Some (v, t) else None | None \<Rightarrow> None)"
  unfolding dirty_triples_def
  by (subst map_of_filter_triples) (auto simp: view_distinct map_of_view_triples split: option.splits)

lemma leaf_cost_dirty:
  assumes "\<forall>m\<in>set ms. rec_cost False 0 (leaf_triple n m) = unat (get_key_len m + value_len m) + 8"
  shows "leaf_cost True 0 (filter (\<lambda>(k, v, t). is_dirty t) (map (leaf_triple n) ms)) =
    sum_list (map (\<lambda>m. unat (get_key_len m + value_len m) + 8) (filter (\<lambda>m. meta_op_type m = Insert) ms))"
  using assms
proof (induction ms)
  case (Cons m ms)
  then show ?case by (cases "meta_op_type m") (simp_all add: leaf_triple_def rec_cost_def)
qed simp

lemma estimate_merge_size_eq:
  assumes wf: "leaf_wf n" and p: "leaf_p n = 0"
  shows "estimate_merge_size n = leaf_cost True 0 (dirty_triples n)" "estimate_merge_size n \<le> 32736"
proof -
  have "rec_cost False 0 (leaf_triple n m) = unat (get_key_len m + value_len m) + 8" if "m \<in> set (leaf_recs n)" for m
  proof -
    have "unat (get_key_len m + value_len m) = unat (get_key_len m) + unat (value_len m)"
      using packed_len_less [of m] by (intro unat_add_nowrap) simp
    then show ?thesis
      using leaf_entry_eq(2,3) [OF wf that] length_get_prefix [OF wf] p
      by (simp add: rec_cost_def leaf_triple_def leaf_get_full_key_def)
  qed
  then show eq: "estimate_merge_size n = leaf_cost True 0 (dirty_triples n)"
    using leaf_cost_dirty [of "leaf_recs n" n]
    by (simp add: estimate_merge_size_def dirty_triples_def leaf_triples [OF wf, symmetric] leaf_meta_iter_recs)
  have "leaf_cost True 0 (dirty_triples n) \<le> leaf_cost False 0 (view_triples (leaf_view n))"
    unfolding dirty_triples_def
    by (rule order_trans [OF leaf_cost_filter leaf_cost_mono]) simp
  then show "estimate_merge_size n \<le> 32736"
    using leaf_accounting [OF wf] leaf_wfD(1) [OF wf] p by (simp add: eq)
qed

text \<open>Changing the snapshot version leaves everything else alone.\<close>

lemma leaf_version_irrelevant [simp]:
  "leaf_wf (n\<lparr>lf_snapshot_version := x\<rparr>) = leaf_wf n" "leaf_view (n\<lparr>lf_snapshot_version := x\<rparr>) = leaf_view n"
  "is_base_page (n\<lparr>lf_snapshot_version := x\<rparr>) = is_base_page n" "leaf_key_ok (n\<lparr>lf_snapshot_version := x\<rparr>) k = leaf_key_ok n k"
  "leaf_has_fence (n\<lparr>lf_snapshot_version := x\<rparr>) = leaf_has_fence n"
  "leaf_low (n\<lparr>lf_snapshot_version := x\<rparr>) = leaf_low n" "leaf_high (n\<lparr>lf_snapshot_version := x\<rparr>) = leaf_high n"
  by (simp_all add: leaf_wf_def leaf_view_def leaf_entries_def leaf_recs_def leaf_metas_def leaf_regions_def
      fence_regions_def fence_ok_def first_meta_pos_after_fence_def leaf_has_fence_def leaf_get_kv_meta_def
      get_prefix_def is_base_page_def leaf_key_ok_def leaf_low_def leaf_high_def get_low_fence_full_key_def
      leaf_get_full_key_def get_remaining_key_def Let_def)

text \<open>The space kept free for the longer fences of a future split.\<close>

definition leaf_reserve :: "nat \<Rightarrow> leaf_node \<Rightarrow> bool" where
  "leaf_reserve F n \<longleftrightarrow>
     (leaf_has_fence n \<longrightarrow> F \<le> unat (remaining_size (lf_meta n)) + length (leaf_low n) + length (leaf_high n))"

lemma full_with_fences_nat:
  assumes wf: "leaf_wf n" and size: "r \<le> 32736" "F \<le> 32767"
  shows "\<not> full_with_fences n (of_nat r) F \<longleftrightarrow>
    r \<le> unat (remaining_size (lf_meta n)) \<and>
    (leaf_has_fence n \<longrightarrow> r + F \<le> unat (remaining_size (lf_meta n)) + length (leaf_low n) + length (leaf_high n))"
proof (cases "leaf_has_fence n")
  case True
  let ?l = "leaf_get_kv_meta n 0" and ?h = "leaf_get_kv_meta n 1" and ?rem = "remaining_size (lf_meta n)"
  note len = leaf_fence_lengths(8,9) [OF wf True]
  let ?e1 = "if is_infinite_low_fence_key ?l then ?rem else ?rem + get_key_len ?l"
  let ?e2 = "if is_infinite_high_fence_key ?h then ?e1 else ?e1 + get_key_len ?h"
  have bound: "unat ?rem + length (leaf_low n) \<le> 32736" "length (leaf_high n) < 16384"
    using leaf_accounting [OF wf] leaf_wfD(1) [OF wf] leaf_fence_lengths(3) [OF wf True] True
    by (simp_all add: fence_space_def)
  have e1: "unat ?e1 = unat ?rem + length (leaf_low n)"
    using bound(1) len(1) by (cases "is_infinite_low_fence_key ?l") (simp_all add: unat_add_nowrap)
  have e2: "unat ?e2 = unat ?rem + length (leaf_low n) + length (leaf_high n)"
  proof (cases "is_infinite_high_fence_key ?h")
    case False
    then have h: "length (leaf_high n) = unat (get_key_len ?h)" using len(2) by simp
    then have "unat (?e1 + get_key_len ?h) = unat ?e1 + unat (get_key_len ?h)"
      using e1 bound by (intro unat_add_nowrap) simp
    then show ?thesis using False e1 h by simp
  qed (use e1 len(2) in simp)
  have r: "unat (of_nat r :: u16) = r" "unat (of_nat F :: u16) = F"
    using size by (simp_all add: unat_of_nat_nowrap)
  then have "unat (of_nat r + of_nat F :: u16) = r + F" using size by (subst unat_add_nowrap) simp_all
  then show ?thesis
    using True r e2 unfolding full_with_fences_def LOW_FENCE_IDX_def HIGH_FENCE_IDX_def Let_def
    by (cases "is_infinite_low_fence_key ?l"; cases "is_infinite_high_fence_key ?h")
      (simp_all add: word_less_nat_alt word_le_nat_alt not_less del: of_nat_add One_nat_def)
next
  case False
  have "unat (of_nat r :: u16) = r" using size by (simp add: unat_of_nat_nowrap)
  then show ?thesis using False by (simp add: full_with_fences_def word_less_nat_alt not_less)
qed

lemma merge_mini_page_spec:
  assumes wf: "leaf_wf n" "is_base_page n" "leaf_wf mini" "leaf_p mini = 0"
    and keys: "\<forall>k\<in>fst ` set (leaf_view mini). leaf_covers n k" and F: "F \<le> 32767"
    and fits: "\<not> full_with_fences n (of_nat (estimate_merge_size mini)) F"
  obtains n' where "merge_mini_page n mini F = Some (n', True)" "leaf_wf n'"
    and "leaf_view n' = put_all True (dirty_triples mini) (leaf_view n)"
    and "leaf_framed (n\<lparr>lf_snapshot_version := leaf_get_clean_snapshot_version mini\<rparr>) n'" "leaf_reserve F n'"
proof -
  let ?n = "n\<lparr>lf_snapshot_version := leaf_get_clean_snapshot_version mini\<rparr>" and ?rs = "dirty_triples mini"
  note est = estimate_merge_size_eq [OF wf(3,4)]
  note full = fits [unfolded full_with_fences_nat [OF wf(1) est(2) F]]
  have cost: "leaf_cost True (leaf_p n) ?rs \<le> estimate_merge_size mini"
    unfolding est(1) by (simp add: leaf_cost_def rec_cost_def sum_list_mono)
  have ok: "triple_ok n r" if "r \<in> set ?rs" for r
  proof -
    obtain k v t where r: "r = (k, v, t)" "(k, t, v) \<in> set (leaf_view mini)"
      using \<open>r \<in> set ?rs\<close> by (auto simp: dirty_triples_def view_triples_def)
    then have "leaf_covers n k" using keys by force
    then show ?thesis
      using leaf_covers_key_ok [OF wf(1)] leaf_view_lengths(2,3) [OF wf(3) r(2)] by (simp add: r(1) triple_ok_def)
  qed
  have "distinct (map fst ?rs)"
    unfolding dirty_triples_def using view_distinct [OF wf(3)] distinct_map_filter by (metis view_triples_fst)
  moreover have "\<forall>r\<in>set ?rs. snd (snd r) = Cache \<longrightarrow> fst r \<notin> fst ` set (leaf_view ?n)"
    by (auto simp: dirty_triples_def)
  moreover have "\<forall>r\<in>set ?rs. triple_ok ?n r" using ok by (simp add: triple_ok_def)
  moreover have "leaf_cost (is_base_page ?n) (leaf_p ?n) ?rs \<le> unat (remaining_size (lf_meta ?n))"
    using cost full wf(2) by simp
  ultimately have "\<exists>n'. leaf_insert_all ?n ?rs = Some n' \<and> leaf_wf n' \<and> leaf_framed ?n n' \<and>
      leaf_view n' = put_all (is_base_page ?n) ?rs (leaf_view ?n) \<and>
      unat (remaining_size (lf_meta ?n)) \<le> unat (remaining_size (lf_meta n')) + leaf_cost (is_base_page ?n) (leaf_p ?n) ?rs"
    using wf(1) by (intro leaf_insert_all_spec) simp_all
  then obtain n' where n': "leaf_insert_all ?n ?rs = Some n'" "leaf_wf n'" "leaf_framed ?n n'"
    "leaf_view n' = put_all True ?rs (leaf_view n)"
    "unat (remaining_size (lf_meta n)) \<le> unat (remaining_size (lf_meta n')) + leaf_cost True (leaf_p n) ?rs"
    using wf(2) by auto
  have "merge_mini_page n mini F = Some (n', True)"
    using fits n'(1) by (simp add: merge_mini_page_def leaf_triples [OF wf(3)] dirty_triples_def)
  moreover have "leaf_has_fence n' = leaf_has_fence n"
    "leaf_has_fence n \<Longrightarrow> leaf_low n' = leaf_low n \<and> leaf_high n' = leaf_high n"
    using n'(3) by (simp_all add: leaf_framed_def leaf_has_fence_def same_flags_def)
  then have "leaf_reserve F n'" using full n'(5) cost by (auto simp: leaf_reserve_def)
  ultimately show thesis using n'(2-4) by (intro that) auto
qed

text \<open>
  C1. Merging a mini-page into its base page, for keys between the base page's fences: it never
  fails an assertion. Where it answers true, the base page is well-formed, a reader finds the
  mini-page's dirty record wherever there is one (nothing, where it is a deletion) and the base
  page's own record elsewhere, the fences are unchanged, the version is the mini-page's, and the
  space reserved for the fences of a later split is still there; where it answers false, the
  base page is unchanged.
\<close>

theorem merge_mini_page_overlays:
  assumes "leaf_wf n" "leaf_ranged n" "is_base_page n" "leaf_wf mini" "\<not> leaf_has_fence mini"
    and "\<forall>k\<in>fst ` set (leaf_view mini). leaf_covers n k" "F \<le> 2 * MAX_KEY_LEN"
  shows "\<exists>n' ok. merge_mini_page n mini F = Some (n', ok) \<and>
    (if ok then leaf_wf n' \<and> leaf_ranged n' \<and> leaf_reserve F n' \<and>
       (\<forall>k. live (leaf_view n') k =
         (case map_of (leaf_view mini) k of
            Some (Insert, v) \<Rightarrow> Some v | Some (Delete, v) \<Rightarrow> None | _ \<Rightarrow> live (leaf_view n) k)) \<and>
       lf_snapshot_version n' = leaf_get_clean_snapshot_version mini \<and>
       (leaf_has_fence n \<longrightarrow> leaf_low n' = leaf_low n \<and> leaf_high n' = leaf_high n)
     else n' = n)"
proof (cases "full_with_fences n (of_nat (estimate_merge_size mini)) F")
  case True
  then show ?thesis by (auto simp: merge_mini_page_def)
next
  case False
  have p: "leaf_p mini = 0" using leaf_wfD(6) [OF assms(4)] assms(5) by (simp add: fence_ok_def)
  have F: "F \<le> 32767" using assms(7) by (simp add: MAX_KEY_LEN_def)
  obtain n' where n': "merge_mini_page n mini F = Some (n', True)" "leaf_wf n'"
    "leaf_view n' = put_all True (dirty_triples mini) (leaf_view n)"
    "leaf_framed (n\<lparr>lf_snapshot_version := leaf_get_clean_snapshot_version mini\<rparr>) n'" "leaf_reserve F n'"
    by (rule merge_mini_page_spec [OF assms(1,3,4) p assms(6) F False])
  have d: "distinct (map fst (dirty_triples mini))"
    unfolding dirty_triples_def using view_distinct [OF assms(4)] distinct_map_filter by (metis view_triples_fst)
  have live: "live (leaf_view n') k = (case map_of (leaf_view mini) k of
      Some (Insert, v) \<Rightarrow> Some v | Some (Delete, v) \<Rightarrow> None | _ \<Rightarrow> live (leaf_view n) k)" for k
    unfolding live_def n'(3) put_all_lookup [OF d] map_of_dirty [OF assms(4)]
    by (auto simp: rec_put_lookup split: option.splits op_type.splits)
  have fr: "leaf_has_fence n' = leaf_has_fence n"
    "leaf_has_fence n \<longrightarrow> leaf_low n' = leaf_low n \<and> leaf_high n' = leaf_high n"
    "lf_snapshot_version n' = leaf_get_clean_snapshot_version mini"
    using n'(4) by (simp_all add: leaf_framed_def leaf_has_fence_def same_flags_def)
  have "leaf_covers n' k" if "k \<in> fst ` set (leaf_view n')" for k
  proof -
    have "map_of (leaf_view n') k \<noteq> None" using that by (simp add: map_of_eq_None_iff)
    then have "map_of (leaf_view n) k \<noteq> None \<or> map_of (leaf_view mini) k \<noteq> None"
      unfolding n'(3) put_all_lookup [OF d] map_of_dirty [OF assms(4)] by (auto split: option.splits)
    then have "leaf_covers n k" using assms(2,6) unfolding leaf_ranged_def map_of_eq_None_iff by blast
    then show ?thesis using fr(1,2) by (cases "leaf_has_fence n") (simp_all add: leaf_covers_def)
  qed
  then have "leaf_ranged n'" by (simp add: leaf_ranged_def)
  with n' live fr show ?thesis by auto
qed

theorem merge_mini_page_overlays_witness:
  "\<exists>n mini n'. merge_mini_page n mini 100 = Some (n', True) \<and> live (leaf_view n') [97, 112, 112, 114] = None \<and>
    live (leaf_view n') [97, 112, 113] = Some [4, 5, 6]"
proof -
  let ?n = "demo_page next_level_null True False" and ?m = "demo_page (MiniPageNextLevel 4096) False False"
  have n: "leaf_wf ?n" "leaf_ranged ?n" "is_base_page ?n" "leaf_wf ?m" "\<not> leaf_has_fence ?m"
    by (simp_all add: demo_page_spec is_base_page_def next_level_is_null_def next_level_null_def)
  have m: "leaf_view ?m = map (\<lambda>(k, v, t). (k, t, v)) demo_keys"
    by (simp add: demo_page_spec next_level_is_null_def live_view_def demo_keys_def)
  have keys: "\<forall>k\<in>fst ` set (leaf_view ?m). leaf_covers ?n k"
    by (simp add: m leaf_covers_def demo_page_spec(3,4) demo_keys_def demo_low_def demo_high_def)
  have p: "leaf_p ?m = 0" by (simp add: demo_page_spec)
  have est: "estimate_merge_size ?m = 29"
    unfolding estimate_merge_size_eq(1) [OF n(4) p]
    by (simp add: dirty_triples_def m view_triples_def demo_keys_def rec_cost_def)
  have "\<not> full_with_fences ?n (of_nat (estimate_merge_size ?m)) 100"
    unfolding full_with_fences_nat [OF n(1) estimate_merge_size_eq(2) [OF n(4) p], of 100, simplified]
    using demo_page_spec(10) [of next_level_null True False] by (simp add: est)
  then have ok: "merge_mini_page ?n ?m 100 = Some (n', b) \<Longrightarrow> b" for n' b
    by (auto simp: merge_mini_page_def split: bind_splits)
  obtain n' b where n': "merge_mini_page ?n ?m 100 = Some (n', b)" and
    if_ok: "if b then leaf_wf n' \<and> leaf_ranged n' \<and> leaf_reserve 100 n' \<and>
       (\<forall>k. live (leaf_view n') k =
         (case map_of (leaf_view ?m) k of
            Some (Insert, v) \<Rightarrow> Some v | Some (Delete, v) \<Rightarrow> None | _ \<Rightarrow> live (leaf_view ?n) k)) \<and>
       lf_snapshot_version n' = leaf_get_clean_snapshot_version ?m \<and>
       (leaf_has_fence ?n \<longrightarrow> leaf_low n' = leaf_low ?n \<and> leaf_high n' = leaf_high ?n)
     else n' = ?n"
    using merge_mini_page_overlays [OF n keys, of 100] by (auto simp: MAX_KEY_LEN_def)
  have "b = True" using ok [OF n'] by simp
  then show ?thesis
    using n' if_ok by (intro exI [of _ ?n] exI [of _ ?m] exI [of _ n']) (simp add: m demo_keys_def)
qed

section \<open>Dirty and cached records\<close>

lemma convert_slots_spec:
  fixes g :: "op_type \<Rightarrow> op_type option"
  assumes "leaf_wf n" "j \<le> length (leaf_entries n)"
    and "\<forall>e\<in>set (drop j (leaf_entries n)). g (fst (snd e)) \<noteq> None"
  shows "\<exists>n'. convert_slots g n [first_meta_pos_after_fence n + j..<slot_count (lf_meta n)] = Some n' \<and>
    leaf_wf n' \<and> leaf_framed n n' \<and>
    leaf_entries n' = take j (leaf_entries n) @ map (\<lambda>(k, t, v). (k, the (g t), v)) (drop j (leaf_entries n))"
  using assms
proof (induction "length (leaf_entries n) - j" arbitrary: n j)
  case 0
  then have "slot_count (lf_meta n) \<le> first_meta_pos_after_fence n + j" by simp
  with 0 show ?case by (intro exI [of _ n]) simp
next
  case (Suc l)
  let ?f = "first_meta_pos_after_fence n" and ?m = "leaf_recs n ! j" and ?e = "leaf_entries n ! j"
  have j: "j < length (leaf_recs n)" "j < length (leaf_entries n)" using Suc(2) by simp_all
  note at = leaf_rec_at [OF j(1) refl]
  have op: "meta_op_type ?m = fst (snd ?e)" by (simp add: at(3) leaf_entry_in_def Let_def)
  have dj: "drop j (leaf_entries n) = ?e # drop (Suc j) (leaf_entries n)" using j(2) by (simp add: Cons_nth_drop_Suc)
  obtain t where t: "g (fst (snd ?e)) = Some t" using Suc.prems(3) unfolding dj by auto
  define n1 where "n1 = (if t = meta_op_type ?m then n else write_initial_kv_meta n (?f + j) (set_op_type ?m t))"
  note w = leaf_write_slot [OF Suc.prems(1) j(1), of "set_op_type ?m t"]
  have n1: "leaf_wf n1" "leaf_framed n n1" "lf_meta n1 = lf_meta n"
    "leaf_entries n1 = (leaf_entries n)[j := (fst ?e, t, snd (snd ?e))]"
    using w Suc.prems(1) op by (auto simp: n1_def list_update_id prod_eq_iff intro: list_update_id [symmetric])
  have f1: "first_meta_pos_after_fence n1 = ?f" by (simp add: first_meta_pos_after_fence_def leaf_has_fence_def n1(3))
  have slots: "[?f + j..<slot_count (lf_meta n)] = (?f + j) # [?f + Suc j..<slot_count (lf_meta n)]"
    using at(4) by (simp add: upt_conv_Cons)
  have "\<exists>n'. convert_slots g n1 [first_meta_pos_after_fence n1 + Suc j..<slot_count (lf_meta n1)] = Some n' \<and>
      leaf_wf n' \<and> leaf_framed n1 n' \<and>
      leaf_entries n' = take (Suc j) (leaf_entries n1) @ map (\<lambda>(k, t, v). (k, the (g t), v)) (drop (Suc j) (leaf_entries n1))"
    using Suc(2) j Suc.prems(3) n1 unfolding dj by (intro Suc.hyps(1)) (auto simp: f1)
  then obtain n' where n': "convert_slots g n1 [?f + Suc j..<slot_count (lf_meta n)] = Some n'" "leaf_wf n'" "leaf_framed n1 n'"
    "leaf_entries n' = take (Suc j) (leaf_entries n1) @ map (\<lambda>(k, t, v). (k, the (g t), v)) (drop (Suc j) (leaf_entries n1))"
    unfolding f1 n1(3) by blast
  have "convert_slots g n [?f + j..<slot_count (lf_meta n)] = Some n'"
    using n'(1) t op at(1) by (simp add: slots n1_def Let_def)
  moreover have "leaf_entries n' = take j (leaf_entries n) @ map (\<lambda>(k, t, v). (k, the (g t), v)) (drop j (leaf_entries n))"
    using j(2) t by (simp add: n'(4) n1(4) dj take_Suc_conv_app_nth case_prod_unfold)
  ultimately show ?case using n'(2) leaf_framed_trans [OF n1(2) n'(3)] by blast
qed

lemma convert_view:
  fixes g :: "op_type \<Rightarrow> op_type option"
  assumes wf: "leaf_wf n" and ok: "\<forall>e\<in>set (leaf_view n). g (fst (snd e)) \<noteq> None"
  obtains n' where "convert_slots g n [first_meta_pos_after_fence n..<slot_count (lf_meta n)] = Some n'"
    and "leaf_wf n'" "leaf_framed n n'" "leaf_view n' = map (\<lambda>(k, t, v). (k, the (g t), v)) (leaf_view n)"
proof -
  have "\<forall>e\<in>set (drop 0 (leaf_entries n)). g (fst (snd e)) \<noteq> None"
    using ok by (force simp: leaf_view_def)
  from convert_slots_spec [OF wf _ this] obtain n' where
    n': "convert_slots g n [first_meta_pos_after_fence n..<slot_count (lf_meta n)] = Some n'"
    "leaf_wf n'" "leaf_framed n n'" "leaf_entries n' = map (\<lambda>(k, t, v). (k, the (g t), v)) (leaf_entries n)"
    by auto
  have "get_prefix n' = get_prefix n" using n'(3) by (simp add: leaf_framed_def)
  then have "leaf_view n' = map (\<lambda>(k, t, v). (k, the (g t), v)) (leaf_view n)"
    by (simp add: leaf_view_def n'(4) comp_def case_prod_unfold)
  with n'(1-3) show thesis by (rule that)
qed

lemma to_cache_dirty: "is_dirty t \<Longrightarrow> to_cache t \<noteq> None" "is_dirty t \<Longrightarrow> to_insert (the (to_cache t)) = Some t"
  "is_dirty t \<Longrightarrow> is_absent (the (to_cache t)) = is_absent t" "to_insert t \<noteq> None"
  by (cases t; simp)+

lemma live_map_type:
  assumes "\<forall>e\<in>set es. is_absent (h (fst (snd e))) = is_absent (fst (snd e))"
  shows "live (map (\<lambda>(k, t, v). (k, h t, v)) es) = live es"
  using assms by (induction es) (auto simp: live_def fun_eq_iff)

text \<open>
  C38. Promoting the records of a base page to cached ones (\<^verbatim>\<open>covert_insert_records_to_cache\<close>) always
  succeeds on a page whose records are insertions and deletions, leaves no dirty record, and
  readers find the same; \<^verbatim>\<open>convert_cache_records_to_insert\<close> gives back the page's contents.
\<close>

theorem record_conversion_roundtrip:
  assumes "leaf_wf n" "\<forall>e\<in>set (leaf_view n). is_dirty (fst (snd e))"
  shows "\<exists>n1 n2. covert_insert_records_to_cache n = Some n1 \<and> leaf_wf n1 \<and>
    (\<forall>e\<in>set (leaf_view n1). \<not> is_dirty (fst (snd e))) \<and> \<not> need_actually_merge_to_disk n1 \<and>
    live (leaf_view n1) = live (leaf_view n) \<and>
    convert_cache_records_to_insert n1 = Some n2 \<and> leaf_wf n2 \<and> leaf_view n2 = leaf_view n"
proof -
  obtain n1 where n1: "covert_insert_records_to_cache n = Some n1" "leaf_wf n1"
    "leaf_view n1 = map (\<lambda>(k, t, v). (k, the (to_cache t), v)) (leaf_view n)"
    unfolding covert_insert_records_to_cache_def
    by (rule convert_view [OF assms(1), of to_cache]) (use assms(2) to_cache_dirty(1) in blast)
  obtain n2 where n2: "convert_cache_records_to_insert n1 = Some n2" "leaf_wf n2"
    "leaf_view n2 = map (\<lambda>(k, t, v). (k, the (to_insert t), v)) (leaf_view n1)"
    unfolding convert_cache_records_to_insert_def
    by (rule convert_view [OF n1(2), of to_insert]) (use to_cache_dirty(4) in blast)
  have clean: "\<forall>e\<in>set (leaf_view n1). \<not> is_dirty (fst (snd e))"
  proof
    fix e assume "e \<in> set (leaf_view n1)"
    then obtain t where t: "is_dirty t" "fst (snd e) = the (to_cache t)" using assms(2) by (auto simp: n1(3))
    then show "\<not> is_dirty (fst (snd e))" by (cases t) simp_all
  qed
  have "map (leaf_triple n1) (leaf_meta_iter n1) = view_triples (leaf_view n1)" by (rule leaf_triples [OF n1(2)])
  then have "list_all (\<lambda>r. \<not> is_dirty (snd (snd r))) (map (leaf_triple n1) (leaf_meta_iter n1))"
    using clean by (auto simp: view_triples_def list_all_iff)
  then have "\<not> need_actually_merge_to_disk n1"
    by (auto simp: need_actually_merge_to_disk_def list_all_iff list_ex_iff leaf_triple_def)
  moreover have "live (leaf_view n1) = live (leaf_view n)"
    unfolding n1(3) using assms(2) to_cache_dirty(3) by (intro live_map_type) blast
  moreover have "leaf_view n2 = leaf_view n"
    unfolding n2(3) n1(3) map_map by (rule map_idI) (use assms(2) to_cache_dirty(2) in force)
  ultimately show ?thesis using n1(1,2) n2(1,2) clean by blast
qed

theorem record_conversion_roundtrip_witness:
  "\<exists>n n1 n2. covert_insert_records_to_cache n = Some n1 \<and> convert_cache_records_to_insert n1 = Some n2 \<and>
    leaf_view n2 = leaf_view n \<and> length (leaf_view n) = 2"
proof -
  let ?n = "demo_page next_level_null True False"
  have v: "leaf_view ?n = [([97, 112, 112, 108, 101], Insert, [1, 2]), ([97, 112, 113], Insert, [4, 5, 6])]"
    by (simp add: demo_page_spec next_level_null_def next_level_is_null_def live_view_def demo_keys_def)
  then have "\<forall>e\<in>set (leaf_view ?n). is_dirty (fst (snd e))" by simp
  then show ?thesis
    using record_conversion_roundtrip [OF demo_page_spec(1) [of next_level_null True False]] v by fastforce
qed

end
