(* ===== verification/Leaf_Split.thy ===== *)
theory Leaf_Split
  imports Leaf_Merge
begin

text \<open>
  The two splits of a leaf: the records are divided at the separator, which becomes the fence
  between the two halves.
\<close>

section \<open>Cutting off the records from a position on\<close>

definition leaf_truncate :: "leaf_node \<Rightarrow> nat \<Rightarrow> leaf_node" where
  "leaf_truncate n cnt =
     n\<lparr>lf_meta := set_value_count (lf_meta n) (of_nat (cnt + first_meta_pos_after_fence n))\<rparr>"

lemma regions_ok_prefix:
  assumes "regions_ok lo hi (xs @ ys)" "lo' \<le> lo"
  shows "regions_ok lo' hi xs"
  using assms unfolding regions_ok_def by (auto simp: sorted_wrt_append intro: order_trans)

lemma leaf_truncate_head:
  assumes wf: "leaf_wf n" and cnt: "cnt \<le> length (leaf_recs n)"
  defines "n1 \<equiv> leaf_truncate n cnt"
  shows "slot_count (lf_meta n1) = cnt + first_meta_pos_after_fence n" "same_flags (lf_meta n) (lf_meta n1)"
    and "node_size (lf_meta n1) = node_size (lf_meta n)" "remaining_size (lf_meta n1) = remaining_size (lf_meta n)"
    and "lf_data n1 = lf_data n" "prefix_len n1 = prefix_len n" "next_level n1 = next_level n"
proof -
  have "cnt + first_meta_pos_after_fence n < 4096"
    using cnt leaf_wfD(2) [OF wf] slot_count_less [of "lf_meta n"] by simp
  then have c: "unat (of_nat (cnt + first_meta_pos_after_fence n) :: u16) = cnt + first_meta_pos_after_fence n"
    "unat (of_nat (cnt + first_meta_pos_after_fence n) :: u16) < 4096"
    by (simp_all add: unat_of_nat_nowrap del: of_nat_add)
  note set_value_count_laws [OF c(2), of "lf_meta n"]
  then show "slot_count (lf_meta n1) = cnt + first_meta_pos_after_fence n" "same_flags (lf_meta n) (lf_meta n1)"
    "node_size (lf_meta n1) = node_size (lf_meta n)" "remaining_size (lf_meta n1) = remaining_size (lf_meta n)"
    using c(1) by (simp_all add: n1_def leaf_truncate_def del: of_nat_add)
qed (simp_all add: n1_def leaf_truncate_def)

lemma leaf_truncate_spec:
  assumes wf: "leaf_wf n" and cnt: "cnt \<le> length (leaf_recs n)"
  defines "n1 \<equiv> leaf_truncate n cnt"
  shows "leaf_wf n1" "leaf_view n1 = take cnt (leaf_view n)" "leaf_has_fence n1 = leaf_has_fence n"
    and "leaf_low n1 = leaf_low n" "leaf_high n1 = leaf_high n" "get_prefix n1 = get_prefix n"
    and "is_base_page n1 = is_base_page n"
proof -
  let ?f = "first_meta_pos_after_fence n"
  note h = leaf_truncate_head [OF wf cnt, folded n1_def]
  show fence: "leaf_has_fence n1 = leaf_has_fence n" using h(2) by (simp add: leaf_has_fence_def same_flags_def)
  have f: "first_meta_pos_after_fence n1 = ?f" by (simp add: first_meta_pos_after_fence_def fence)
  have slot: "leaf_get_kv_meta n1 i = leaf_get_kv_meta n i" for i by (simp add: leaf_get_kv_meta_def h(5))
  show pre: "get_prefix n1 = get_prefix n" by (simp add: get_prefix_def slot h(5,6))
  show "leaf_low n1 = leaf_low n" "leaf_high n1 = leaf_high n"
    by (simp_all add: leaf_low_def leaf_high_def get_low_fence_full_key_def leaf_get_full_key_def
        get_remaining_key_def slot pre h(5,6))
  show "is_base_page n1 = is_base_page n" using h(2) by (simp add: is_base_page_def h(7) same_flags_def)
  have le: "cnt + ?f \<le> slot_count (lf_meta n)" using cnt leaf_wfD(2) [OF wf] by simp
  have "leaf_metas n1 = take (cnt + ?f) (leaf_metas n)"
    using le by (intro nth_equalityI) (simp_all add: leaf_metas_def h(1,5) min_def)
  then have recs: "leaf_recs n1 = take cnt (leaf_recs n)" by (simp add: leaf_recs_def f take_drop)
  have entries: "leaf_entries n1 = take cnt (leaf_entries n)" by (simp add: leaf_entries_def recs h(5,6) take_map)
  then show "leaf_view n1 = take cnt (leaf_view n)" by (simp add: leaf_view_def pre take_map)
  have fr: "fence_regions n1 = fence_regions n" by (simp add: fence_regions_def fence slot h(5,6) Let_def)
  have regs: "leaf_regions n = leaf_regions n1 @ map (rec_region (leaf_p n)) (drop cnt (leaf_recs n))"
    by (simp add: leaf_regions_def fr recs h(6) map_append [symmetric] del: map_append)
  have "regions_ok (8 * slot_count (lf_meta n1) + unat (remaining_size (lf_meta n1))) (length (lf_data n)) (leaf_regions n1)"
    using le by (intro regions_ok_prefix [OF leaf_wfD(3) [OF wf, unfolded regs]]) (simp add: h(1,4))
  moreover have "sum_list (map snd (leaf_regions n1)) + 8 * slot_count (lf_meta n1) +
      unat (remaining_size (lf_meta n1)) \<le> length (lf_data n)"
    using leaf_wfD(4) [OF wf] le unfolding regs by (simp add: h(1,4))
  moreover have "ascending (map fst (leaf_entries n1))"
    unfolding entries using leaf_wfD(5) [OF wf] by (simp add: take_map [symmetric] sorted_wrt_take)
  moreover have "fence_ok n1" using leaf_wfD(6) [OF wf] unfolding fence_ok_def fence slot h(6) .
  moreover have "list_all (rec_ok (leaf_p n) (lf_data n)) (take cnt (leaf_recs n))"
    using leaf_wfD(7) [OF wf] by (auto simp: list_all_iff dest: in_set_takeD)
  ultimately show "leaf_wf n1"
    using leaf_wfD(1,8) [OF wf] h by (simp add: leaf_wf_def Let_def f recs)
qed

section \<open>The records that move\<close>

lemma moved_triples:
  assumes wf: "leaf_wf n" and kind: "split_kind_ok n co"
  shows "map (\<lambda>i. leaf_triple n (leaf_get_kv_meta n (cnt + i + (if co then 0 else FENCE_KEY_CNT))))
      [0..<unat (meta_count_without_fence (lf_meta n)) - cnt] = drop cnt (view_triples (leaf_view n))"
proof -
  have f: "first_meta_pos_after_fence n = (if co then 0 else FENCE_KEY_CNT)"
    using kind by (auto simp: split_kind_ok_def first_meta_pos_after_fence_def split: if_splits)
  have "FENCE_KEY_CNT \<le> slot_count (lf_meta n)" if "leaf_has_fence n"
    using leaf_wfD(2) [OF wf] that by (simp add: first_meta_pos_after_fence_def)
  then have len: "unat (meta_count_without_fence (lf_meta n)) = length (leaf_recs n)"
    by (auto simp: meta_count_without_fence_def first_meta_pos_after_fence_def leaf_has_fence_def unat_sub_nowrap
        FENCE_KEY_CNT_def meta_count_with_fence_def)
  show ?thesis
    unfolding leaf_triples [OF wf, symmetric] leaf_meta_iter_recs f [symmetric] len
    by (rule nth_equalityI) (auto simp: nth_leaf_recs add.commute add.left_commute)
qed

text \<open>Live records, as insertions: what a split leaves on each side.\<close>

definition live_inserts :: "(bytes \<times> op_type \<times> bytes) list \<Rightarrow> (bytes \<times> op_type \<times> bytes) list" where
  "live_inserts es = map (\<lambda>(k, t, v). (k, Insert, v)) (filter (\<lambda>(k, t, v). t \<noteq> Delete) es)"

lemma live_inserts_moved:
  defines "m rs \<equiv> map (\<lambda>(k, v, t). (k, v, Insert)) (filter (\<lambda>(k, v, t). t \<noteq> Delete) rs)"
  shows "live_view b (m (view_triples es)) = live_inserts es" "leaf_cost b p (m rs) \<le> leaf_cost False p rs"
    and "map fst (m rs) = map fst (filter (\<lambda>(k, v, t). t \<noteq> Delete) rs)"
proof -
  show "live_view b (m (view_triples es)) = live_inserts es"
    by (induction es) (auto simp: m_def live_view_def live_inserts_def view_triples_def)
  show "leaf_cost b p (m rs) \<le> leaf_cost False p rs"
    by (induction rs) (auto simp: m_def rec_cost_def)
  show "map fst (m rs) = map fst (filter (\<lambda>(k, v, t). t \<noteq> Delete) rs)"
    by (induction rs) (auto simp: m_def)
qed

lemma live_inserts_keys: "fst ` set (live_inserts es) \<subseteq> fst ` set es"
  by (force simp: live_inserts_def)

section \<open>Splitting at a position\<close>

text \<open>The separator fits the page: between the fences, above what stays, not above what moves.\<close>

definition split_point_ok :: "leaf_node \<Rightarrow> bytes \<Rightarrow> nat \<Rightarrow> bool" where
  "split_point_ok n sk cnt \<longleftrightarrow> leaf_covers n sk \<and> sk \<noteq> [] \<and> length sk < 16384 \<and>
     cnt \<le> length (leaf_recs n) \<and>
     (\<forall>k\<in>fst ` set (take cnt (leaf_view n)). k < sk) \<and> (\<forall>k\<in>fst ` set (drop cnt (leaf_view n)). sk \<le> k)"

lemma split_point_keys:
  assumes "split_point_ok n sk cnt"
  shows "k \<in> fst ` set (take cnt (leaf_view n)) \<Longrightarrow> k < sk \<and> k \<in> fst ` set (leaf_view n)"
    and "k \<in> fst ` set (drop cnt (leaf_view n)) \<Longrightarrow> sk \<le> k \<and> k \<in> fst ` set (leaf_view n)"
proof -
  have "fst ` set (take cnt (leaf_view n)) \<subseteq> fst ` set (leaf_view n)"
    "fst ` set (drop cnt (leaf_view n)) \<subseteq> fst ` set (leaf_view n)"
    by (intro image_mono set_take_subset set_drop_subset)+
  moreover have "\<forall>k\<in>fst ` set (take cnt (leaf_view n)). k < sk" "\<forall>k\<in>fst ` set (drop cnt (leaf_view n)). sk \<le> k"
    using assms by (simp_all add: split_point_ok_def)
  ultimately show "k \<in> fst ` set (take cnt (leaf_view n)) \<Longrightarrow> k < sk \<and> k \<in> fst ` set (leaf_view n)"
    "k \<in> fst ` set (drop cnt (leaf_view n)) \<Longrightarrow> sk \<le> k \<and> k \<in> fst ` set (leaf_view n)"
    by blast+
qed

text \<open>The two halves have room for their new fences.\<close>

definition split_room :: "leaf_node \<Rightarrow> bytes \<Rightarrow> nat \<Rightarrow> bool" where
  "split_room n sk cnt \<longleftrightarrow> (leaf_has_fence n \<longrightarrow>
     length sk \<le> unat (remaining_size (lf_meta n)) + length (leaf_low n) \<and>
     (length sk \<le> unat (remaining_size (lf_meta n)) + length (leaf_high n) \<or>
      sk \<in> fst ` set (drop cnt (leaf_view n))))"

lemma split_accounting:
  assumes wf: "leaf_wf n"
  shows "fence_space n + leaf_cost False (leaf_p n) (view_triples (take cnt (leaf_view n))) +
      leaf_cost False (leaf_p n) (drop cnt (view_triples (leaf_view n))) + unat (remaining_size (lf_meta n))
    \<le> length (lf_data n)"
proof -
  have "view_triples (take cnt (leaf_view n)) = take cnt (view_triples (leaf_view n))"
    by (simp add: view_triples_def take_map)
  then show ?thesis
    using leaf_accounting [OF wf]
      arg_cong [OF append_take_drop_id [of cnt "view_triples (leaf_view n)"], of "leaf_cost False (leaf_p n)"]
    unfolding leaf_cost_simps by simp
qed

lemma rec_cost_in: "r \<in> set rs \<Longrightarrow> length (fst r) - p \<le> leaf_cost False p rs"
  by (induction rs) (auto simp: rec_cost_def)

lemma split_right:
  assumes wf: "leaf_wf n" and kind: "split_kind_ok n co" and rng: "leaf_ranged n"
    and pt: "split_point_ok n sk cnt" and room: "split_room n sk cnt"
    and D: "length (lf_data sib) = nsize - 32" "unat (node_size (lf_meta n)) \<le> nsize" "nsize \<le> 32768"
  defines "low \<equiv> if co then [] else sk" and "high \<equiv> if co then [] else leaf_high n"
    and "rs \<equiv> map (\<lambda>(k, v, t). (k, v, Insert)) (filter (\<lambda>(k, v, t). t \<noteq> Delete) (drop cnt (view_triples (leaf_view n))))"
  obtains s1 s2 where "leaf_initialize sib low high nsize next_level_null (\<not> co) co v = Some s1"
    and "leaf_insert_all s1 rs = Some s2" "leaf_wf s2" "leaf_view s2 = live_inserts (drop cnt (leaf_view n))"
    and "leaf_has_fence s2 = (\<not> co)" "\<not> co \<longrightarrow> leaf_low s2 = low \<and> leaf_high s2 = high"
proof -
  let ?p' = "common_prefix_len low high" and ?base = "\<not> co \<and> next_level_is_null next_level_null"
  have dv: "drop cnt (view_triples (leaf_view n)) = view_triples (drop cnt (leaf_view n))"
    by (simp add: view_triples_def drop_map)
  note li = live_inserts_moved
  have asc: "ascending (map fst rs)"
    unfolding rs_def li(3) dv
    by (rule ascending_filter) (use leaf_view_ascending [OF wf] in \<open>simp add: drop_map [symmetric] sorted_wrt_drop\<close>)
  have keys: "fst r \<in> fst ` set (drop cnt (leaf_view n))" "length (fst (snd r)) < 32768" if "r \<in> set rs" for r
  proof -
    obtain k w t where r: "r = (k, w, Insert)" "(k, t, w) \<in> set (drop cnt (leaf_view n))"
      using \<open>r \<in> set rs\<close> unfolding rs_def dv by (auto simp: view_triples_def)
    then show "fst r \<in> fst ` set (drop cnt (leaf_view n))" by force
    show "length (fst (snd r)) < 32768"
      using leaf_view_lengths(3) [OF wf in_set_dropD [OF r(2)]] by (simp add: r(1))
  qed
  have cover: "leaf_covers n k \<and> sk \<le> k \<and> length k < 16384" if "k \<in> fst ` set (drop cnt (leaf_view n))" for k
    using split_point_keys(2) [OF pt that] rng leaf_view_lengths(2) [OF wf] unfolding leaf_ranged_def by blast
  have between: "\<forall>r\<in>set rs. \<not> co \<and> high \<noteq> [] \<longrightarrow> low \<le> fst r \<and> fst r \<le> high"
  proof (intro ballI impI)
    fix r assume r: "r \<in> set rs" and c: "\<not> co \<and> high \<noteq> []"
    have "leaf_has_fence n" using kind c by (simp add: split_kind_ok_def)
    then show "low \<le> fst r \<and> fst r \<le> high"
      using cover [OF keys(1) [OF r]] c by (auto simp: low_def high_def leaf_covers_def)
  qed
  have lens: "\<forall>r\<in>set rs. length (fst r) < 16384 \<and> length (fst (snd r)) < 32768"
    using keys cover by blast
  have fence: "leaf_has_fence n = (\<not> co)" using kind by (auto simp: split_kind_ok_def split: if_splits)
  have p: "leaf_p n \<le> ?p'"
  proof (cases co)
    case True
    then show ?thesis using leaf_wfD(6) [OF wf] fence by (simp add: fence_ok_def)
  next
    case False
    have "take (leaf_p n) low = get_prefix n" "take (leaf_p n) high = get_prefix n"
      using leaf_covers_key_ok [OF wf, of sk] pt leaf_fence_lengths(5) [OF wf] fence False
      by (simp_all add: split_point_ok_def leaf_key_ok_def low_def high_def)
    then show ?thesis using length_get_prefix [OF wf] by (rule common_prefix_len_shared)
  qed
  have fc: "fence_cost (\<not> co) low high \<le> fence_space n + unat (remaining_size (lf_meta n))"
  proof (cases co)
    case False
    have "length high - ?p' \<le> length high - leaf_p n" using p by simp
    then show ?thesis
      using room fence False by (simp add: fence_cost_def fence_space_def split_room_def low_def high_def)
  qed (simp add: fence_cost_def)
  have "leaf_cost ?base ?p' rs \<le> leaf_cost False (leaf_p n) (drop cnt (view_triples (leaf_view n)))"
    unfolding rs_def by (rule order_trans [OF li(2) leaf_cost_mono [OF p]])
  then have fit: "fence_cost (\<not> co) low high + leaf_cost ?base ?p' rs \<le> nsize - 32"
    using fc split_accounting [OF wf, of cnt] D(2) leaf_wfD(8) [OF wf] by simp
  have big: "32 \<le> nsize" using D(2) leaf_wfD(8) [OF wf] by simp
  have hl: "length low < 16384" "length high < 16384" "\<not> co \<or> low = [] \<and> high = []"
    using pt leaf_fence_lengths(3) [OF wf] fence by (auto simp: low_def high_def split_point_ok_def)
  obtain s1 s2 where "leaf_initialize sib low high nsize next_level_null (\<not> co) co v = Some s1"
    "leaf_insert_all s1 rs = Some s2" "leaf_wf s2" "leaf_view s2 = live_view ?base rs"
    "leaf_has_fence s2 = (\<not> co)" "\<not> co \<longrightarrow> leaf_low s2 = low \<and> leaf_high s2 = high"
    by (rule leaf_rebuild [OF D(1) big D(3) hl asc between lens refl fit, of v])
  then show thesis by (intro that [of s1 s2]) (simp_all add: rs_def dv li(1))
qed

lemma split_left:
  assumes wf: "leaf_wf n" and kind: "split_kind_ok n co" and rng: "leaf_ranged n"
    and pt: "split_point_ok n sk cnt" and room: "split_room n sk cnt"
  obtains n' where "consolidate_after_split (leaf_truncate n cnt) sk v = Some n'" "leaf_wf n'"
    and "leaf_view n' = live_inserts (take cnt (leaf_view n))" "leaf_has_fence n' = (\<not> co)"
    and "\<not> co \<longrightarrow> leaf_low n' = leaf_low n \<and> leaf_high n' = sk"
proof -
  let ?n1 = "leaf_truncate n cnt"
  have cnt: "cnt \<le> length (leaf_recs n)" using pt by (simp add: split_point_ok_def)
  note h = leaf_truncate_head [OF wf cnt] and t = leaf_truncate_spec [OF wf cnt]
  have fence: "leaf_has_fence n = (\<not> co)" and kinds: "is_cache_only_leaf (lf_meta n) \<or> is_base_page n"
    using kind by (auto simp: split_kind_ok_def split: if_splits)
  have co: "is_cache_only_leaf (lf_meta ?n1) = is_cache_only_leaf (lf_meta n)" using h(2) by (simp add: same_flags_def)
  have kt: "fst r \<in> fst ` set (take cnt (leaf_view n))" if "r \<in> set (kept_triples True None ?n1)" for r
    using that by (force simp: kept_triples_def view_triples_def t(2))
  have cost: "leaf_cost False (leaf_p n) (kept_triples True None ?n1) \<le>
      leaf_cost False (leaf_p n) (view_triples (take cnt (leaf_view n)))"
    using kept_triples_props(3) [OF t(1), of "leaf_p n" True None] by (simp add: t(2))
  have fit: "(if leaf_has_fence n then length (leaf_low n) + (length sk - leaf_p n) + 16 else 0) +
      leaf_cost False (leaf_p n) (kept_triples True None ?n1) \<le> length (lf_data n)"
  proof (cases "leaf_has_fence n")
    case True
    have "length sk - leaf_p n \<le> (length (leaf_high n) - leaf_p n) + unat (remaining_size (lf_meta n)) +
        leaf_cost False (leaf_p n) (drop cnt (view_triples (leaf_view n)))"
    proof (cases "sk \<in> fst ` set (drop cnt (leaf_view n))")
      case True
      then obtain r where "r \<in> set (drop cnt (view_triples (leaf_view n)))" "fst r = sk"
        by (force simp: view_triples_def drop_map)
      then have "length sk - leaf_p n \<le> leaf_cost False (leaf_p n) (drop cnt (view_triples (leaf_view n)))"
        using rec_cost_in by blast
      then show ?thesis by simp
    next
      case False
      then show ?thesis using room \<open>leaf_has_fence n\<close> by (auto simp: split_room_def)
    qed
    then show ?thesis using cost split_accounting [OF wf, of cnt] True by (simp add: fence_space_def)
  next
    case False
    then show ?thesis using cost split_accounting [OF wf, of cnt] by simp
  qed
  have low: "leaf_low n \<le> k \<and> k \<le> sk" if "leaf_has_fence n" "k \<in> fst ` set (take cnt (leaf_view n))" for k
    using split_point_keys(1) [OF pt that(2)] rng that(1) unfolding leaf_ranged_def leaf_covers_def
    by (meson less_imp_le)
  have "\<exists>n'. consolidate_inner ?n1 Insert (Some sk) True (is_cache_only_leaf (lf_meta ?n1)) None v = Some n' \<and> leaf_wf n' \<and>
    leaf_view n' = live_view (\<not> is_cache_only_leaf (lf_meta ?n1) \<and> next_level_is_null (next_level ?n1))
      (retype Insert (kept_triples True None ?n1)) \<and>
    leaf_has_fence n' = leaf_has_fence ?n1 \<and> (leaf_has_fence ?n1 \<longrightarrow> leaf_low n' = leaf_low ?n1 \<and> leaf_high n' = sk) \<and>
    next_level n' = next_level ?n1 \<and> is_cache_only_leaf (lf_meta n') = is_cache_only_leaf (lf_meta ?n1) \<and>
    node_size (lf_meta n') = node_size (lf_meta ?n1)"
  proof (rule consolidate_inner_spec [OF t(1)])
    show "(if leaf_has_fence ?n1 then length (leaf_low ?n1) + (length sk - leaf_p ?n1) + 16 else 0) +
        leaf_cost False (leaf_p ?n1) (kept_triples True None ?n1) \<le> length (lf_data ?n1)"
      using fit unfolding t(3,4) h(5,6) .
    assume "leaf_has_fence ?n1"
    then have f: "leaf_has_fence n" by (simp add: t(3))
    have "take (leaf_p n) sk = get_prefix n"
      using leaf_covers_key_ok [OF wf] pt by (simp add: split_point_ok_def leaf_key_ok_def)
    then show "length sk < 16384 \<and> take (leaf_p ?n1) sk = get_prefix ?n1 \<and>
        (\<forall>r\<in>set (kept_triples True None ?n1). sk \<noteq> [] \<longrightarrow> leaf_low ?n1 \<le> fst r \<and> fst r \<le> sk)"
      using pt low [OF f kt] by (simp add: split_point_ok_def h(6) t(4,6))
  qed simp
  then obtain n' where
    "consolidate_inner ?n1 Insert (Some sk) True (is_cache_only_leaf (lf_meta ?n1)) None v = Some n'" "leaf_wf n'"
    "leaf_view n' = live_inserts (take cnt (leaf_view n))" "leaf_has_fence n' = leaf_has_fence n"
    "leaf_has_fence n \<longrightarrow> leaf_low n' = leaf_low n \<and> leaf_high n' = sk"
    using t(2-4) live_view_kept [of Insert _ None ?n1] by (auto simp: live_inserts_def)
  then show thesis
    using kinds fence by (intro that [of n']) (simp_all add: consolidate_after_split_def co t(7))
qed

text \<open>What a split at a key gives: the two halves of the contents, with the key as the fence between.\<close>

definition split_result ::
  "leaf_node \<Rightarrow> bytes \<Rightarrow> nat \<Rightarrow> leaf_node \<Rightarrow> leaf_node \<Rightarrow> bool" where
  "split_result n sk cnt n' sib' \<longleftrightarrow>
     leaf_wf n' \<and> leaf_wf sib' \<and> leaf_ranged n' \<and> leaf_ranged sib' \<and>
     leaf_view n' = live_inserts (take cnt (leaf_view n)) \<and>
     leaf_view sib' = live_inserts (drop cnt (leaf_view n)) \<and>
     leaf_has_fence n' = leaf_has_fence n \<and> leaf_has_fence sib' = leaf_has_fence n \<and>
     (leaf_has_fence n \<longrightarrow> leaf_low n' = leaf_low n \<and> leaf_high n' = sk \<and>
        leaf_low sib' = sk \<and> leaf_high sib' = leaf_high n)"

lemma split_at_count_spec:
  assumes wf: "leaf_wf n" and kind: "split_kind_ok n co" and rng: "leaf_ranged n"
    and pt: "split_point_ok n sk cnt" and room: "split_room n sk cnt"
    and D: "length (lf_data sib) + 32 = unat (node_size (lf_meta sib))"
      "node_size (lf_meta n) \<le> node_size (lf_meta sib)" "unat (node_size (lf_meta sib)) \<le> 32768"
  obtains n' sib' where "split_at_count n sib sk cnt co v = Some (n', sib')" "split_result n sk cnt n' sib'"
proof -
  let ?low = "if co then [] else sk" and ?high = "if co then [] else leaf_high n"
  let ?rs = "map (\<lambda>(k, v, t). (k, v, Insert)) (filter (\<lambda>(k, v, t). t \<noteq> Delete) (drop cnt (view_triples (leaf_view n))))"
  have D': "length (lf_data sib) = unat (node_size (lf_meta sib)) - 32"
    "unat (node_size (lf_meta n)) \<le> unat (node_size (lf_meta sib))"
    using D by (simp_all add: word_le_nat_alt)
  obtain s1 s2 where s: "leaf_initialize sib ?low ?high (unat (node_size (lf_meta sib))) next_level_null (\<not> co) co v = Some s1"
    "leaf_insert_all s1 ?rs = Some s2" "leaf_wf s2" "leaf_view s2 = live_inserts (drop cnt (leaf_view n))"
    "leaf_has_fence s2 = (\<not> co)" "\<not> co \<longrightarrow> leaf_low s2 = ?low \<and> leaf_high s2 = ?high"
    by (rule split_right [OF wf kind rng pt room D' D(3), of v])
  obtain n' where n': "consolidate_after_split (leaf_truncate n cnt) sk v = Some n'" "leaf_wf n'"
    "leaf_view n' = live_inserts (take cnt (leaf_view n))" "leaf_has_fence n' = (\<not> co)"
    "\<not> co \<longrightarrow> leaf_low n' = leaf_low n \<and> leaf_high n' = sk"
    by (rule split_left [OF wf kind rng pt room, of v])
  have fence: "leaf_has_fence n = (\<not> co)" using kind by (auto simp: split_kind_ok_def split: if_splits)
  have trunc: "n\<lparr>lf_meta := set_value_count (lf_meta n) (of_nat (if co then cnt else cnt + FENCE_KEY_CNT))\<rparr> = leaf_truncate n cnt"
    using fence by (cases co) (simp_all add: leaf_truncate_def first_meta_pos_after_fence_def)
  have high: "(if is_infinite_high_fence_key (leaf_get_kv_meta n HIGH_FENCE_IDX) then []
      else leaf_get_full_key n (leaf_get_kv_meta n HIGH_FENCE_IDX)) = leaf_high n"
    by (simp add: leaf_high_def HIGH_FENCE_IDX_def)
  have "split_at_count n sib sk cnt co v = Some (n', s2)"
    unfolding split_at_count_def moved_triples [OF wf kind] trunc high using s(1,2) n'(1) by (cases co) simp_all
  moreover have "leaf_covers n' k" if "k \<in> fst ` set (leaf_view n')" for k
  proof -
    have "k \<in> fst ` set (take cnt (leaf_view n))" using that live_inserts_keys unfolding n'(3) by blast
    note k = split_point_keys(1) [OF pt this]
    then have "leaf_covers n k" using rng unfolding leaf_ranged_def by blast
    then show ?thesis using k n'(4,5) fence by (simp add: leaf_covers_def)
  qed
  moreover have "leaf_covers s2 k" if "k \<in> fst ` set (leaf_view s2)" for k
  proof -
    have "k \<in> fst ` set (drop cnt (leaf_view n))" using that live_inserts_keys unfolding s(4) by blast
    note k = split_point_keys(2) [OF pt this]
    then have "leaf_covers n k" using rng unfolding leaf_ranged_def by blast
    then show ?thesis using k s(5,6) fence by (simp add: leaf_covers_def)
  qed
  ultimately show thesis
    using n' s fence by (intro that [of n' s2]) (simp_all add: split_result_def leaf_ranged_def)
qed

section \<open>The separator\<close>

lemma leaf_full_keys: "leaf_wf n \<Longrightarrow> map (leaf_get_full_key n) (leaf_meta_iter n) = map fst (leaf_view n)"
  using arg_cong [OF leaf_triples, of n "map fst"] by (simp add: leaf_triple_def comp_def)

lemma get_kv_num_below_key_eq:
  assumes "leaf_wf n"
  shows "get_kv_num_below_key n key = length (takeWhile (\<lambda>k. k < key) (map fst (leaf_view n)))"
  unfolding get_kv_num_below_key_def leaf_full_keys [OF assms, symmetric] by (simp add: takeWhile_map comp_def)

lemma ascending_cut:
  fixes es :: "('a::linorder \<times> 'b) list" and key :: 'a
  assumes "ascending (map fst es)"
  defines "cnt \<equiv> length (takeWhile (\<lambda>k. k < key) (map fst es))"
  shows "take cnt es = filter (\<lambda>e. fst e < key) es" "drop cnt es = filter (\<lambda>e. key \<le> fst e) es"
proof -
  have "take (length (takeWhile (\<lambda>k. k < key) (map fst es))) es = filter (\<lambda>e. fst e < key) es \<and>
      drop (length (takeWhile (\<lambda>k. k < key) (map fst es))) es = filter (\<lambda>e. key \<le> fst e) es"
    using assms(1)
  proof (induction es)
    case (Cons e es)
    have "\<not> fst e < key \<Longrightarrow> filter (\<lambda>e. fst e < key) es = []" "\<not> fst e < key \<Longrightarrow> filter (\<lambda>e. key \<le> fst e) es = es"
      using Cons.prems by (force simp: filter_empty_conv intro!: filter_True)+
    then show ?case using Cons by auto
  qed simp
  then show "take cnt es = filter (\<lambda>e. fst e < key) es" "drop cnt es = filter (\<lambda>e. key \<le> fst e) es"
    by (simp_all add: cnt_def)
qed

lemma split_point_below:
  assumes "leaf_wf n" "leaf_covers n sk" "sk \<noteq> []" "length sk < 16384"
  shows "split_point_ok n sk (get_kv_num_below_key n sk)"
    and "take (get_kv_num_below_key n sk) (leaf_view n) = filter (\<lambda>e. fst e < sk) (leaf_view n)"
    and "drop (get_kv_num_below_key n sk) (leaf_view n) = filter (\<lambda>e. sk \<le> fst e) (leaf_view n)"
proof -
  note cut = ascending_cut [OF leaf_view_ascending [OF assms(1)], of sk, folded get_kv_num_below_key_eq [OF assms(1)]]
  show "take (get_kv_num_below_key n sk) (leaf_view n) = filter (\<lambda>e. fst e < sk) (leaf_view n)"
    "drop (get_kv_num_below_key n sk) (leaf_view n) = filter (\<lambda>e. sk \<le> fst e) (leaf_view n)"
    by (rule cut)+
  have "get_kv_num_below_key n sk \<le> length (leaf_recs n)"
    unfolding get_kv_num_below_key_def leaf_meta_iter_recs by (rule length_takeWhile_le)
  then show "split_point_ok n sk (get_kv_num_below_key n sk)"
    using assms cut by (simp add: split_point_ok_def)
qed

text \<open>
  The loop over the records always stops at one: the sums of the two passes wrap around together,
  so the last partial sum is the total.
\<close>

lemma split_key_from_total:
  assumes "ms \<noteq> []" "cache_only \<and> i = 0 \<longrightarrow> 2 \<le> length ms"
    and "fold (\<lambda>m s. s + meta_size m) ms cur = tot" "target = tot div 2"
  shows "\<exists>j<length ms. split_key_from n cache_only target cur i ms = Some (leaf_get_full_key n (ms ! j), i + j) \<and>
    (cache_only \<longrightarrow> 0 < i + j)"
  using assms
proof (induction n cache_only target cur i ms rule: split_key_from.induct)
  case (2 n cache_only target cur i m ms)
  have le: "target \<le> tot" using 2(6) by (simp add: word_le_nat_alt unat_div)
  have next': "\<exists>j<length (m # ms). split_key_from n cache_only target (cur + meta_size m) (i + 1) ms =
      Some (leaf_get_full_key n ((m # ms) ! j), i + j) \<and> (cache_only \<longrightarrow> 0 < i + j)"
    if ex: "\<exists>j<length ms. split_key_from n cache_only target (cur + meta_size m) (i + 1) ms =
      Some (leaf_get_full_key n (ms ! j), i + 1 + j) \<and> (cache_only \<longrightarrow> 0 < i + 1 + j)"
  proof -
    obtain j where "j < length ms" "split_key_from n cache_only target (cur + meta_size m) (i + 1) ms =
      Some (leaf_get_full_key n (ms ! j), i + 1 + j)" using ex by blast
    then show ?thesis by (intro exI [of _ "Suc j"]) simp
  qed
  show ?case
  proof (cases "cache_only \<and> i = 0")
    case True
    then have "ms \<noteq> []" using 2(4) by auto
    then have ex: "\<exists>j<length ms. split_key_from n cache_only target (cur + meta_size m) (i + 1) ms =
        Some (leaf_get_full_key n (ms ! j), i + 1 + j) \<and> (cache_only \<longrightarrow> 0 < i + 1 + j)"
      using 2(5,6) by (intro 2(1) [OF refl True]) simp_all
    have "split_key_from n cache_only target cur i (m # ms) =
        split_key_from n cache_only target (cur + meta_size m) (i + 1) ms" using True by (simp add: Let_def)
    then show ?thesis using next' [OF ex] by presburger
  next
    case False
    show ?thesis
    proof (cases "target \<le> cur + meta_size m")
      case True
      then show ?thesis using False by (intro exI [of _ 0]) (auto simp: Let_def)
    next
      case lt: False
      then have "ms \<noteq> []" using le 2(5) by auto
      then have ex: "\<exists>j<length ms. split_key_from n cache_only target (cur + meta_size m) (i + 1) ms =
          Some (leaf_get_full_key n (ms ! j), i + 1 + j) \<and> (cache_only \<longrightarrow> 0 < i + 1 + j)"
        using 2(5,6) by (intro 2(2) [OF refl False lt]) simp_all
      have "split_key_from n cache_only target cur i (m # ms) =
          split_key_from n cache_only target (cur + meta_size m) (i + 1) ms" using False lt by (simp add: Let_def)
      then show ?thesis using next' [OF ex] by presburger
    qed
  qed
qed simp

lemma leaf_get_split_key_spec:
  assumes wf: "leaf_wf n" and recs: "leaf_view n \<noteq> []" "co \<longrightarrow> 2 \<le> length (leaf_view n)"
  obtains i where "i < length (leaf_view n)" "leaf_get_split_key n co = Some (fst (leaf_view n ! i), i)" "co \<longrightarrow> 0 < i"
proof -
  have len: "length (leaf_meta_iter n) = length (leaf_view n)"
    using arg_cong [OF leaf_full_keys [OF wf], of length] by simp
  then have "leaf_meta_iter n \<noteq> []" "co \<and> (0::nat) = 0 \<longrightarrow> 2 \<le> length (leaf_meta_iter n)" using recs by auto
  from split_key_from_total [OF this refl refl, of n] obtain j where
    j: "j < length (leaf_meta_iter n)" "leaf_get_split_key n co = Some (leaf_get_full_key n (leaf_meta_iter n ! j), j)"
    "co \<longrightarrow> 0 < j"
    by (auto simp: leaf_get_split_key_def Let_def)
  have "leaf_get_full_key n (leaf_meta_iter n ! j) = fst (leaf_view n ! j)"
    using arg_cong [OF leaf_full_keys [OF wf], of "\<lambda>xs. xs ! j"] j(1) len by simp
  with j len show thesis by (intro that [of j]) simp_all
qed

lemma length_takeWhile_eq:
  "i < length xs \<Longrightarrow> (\<And>j. j < i \<Longrightarrow> P (xs ! j)) \<Longrightarrow> \<not> P (xs ! i) \<Longrightarrow> length (takeWhile P xs) = i"
  by (subst takeWhile_eq_take_P_nth [of i]) auto

section \<open>The two splits\<close>

lemma leaf_high_finite:
  assumes "leaf_high n = sk" "sk \<noteq> []"
  shows "leaf_get_full_key n (leaf_get_kv_meta n HIGH_FENCE_IDX) = sk"
  using assms by (simp add: leaf_high_def HIGH_FENCE_IDX_def split: if_splits)

lemma leaf_low_finite: "leaf_low n = sk \<Longrightarrow> sk \<noteq> [] \<Longrightarrow> get_low_fence_full_key n = sk"
  by (simp add: leaf_low_def split: if_splits)

text \<open>
  C9. Splitting a leaf at a given key (\<^verbatim>\<open>split_with_key\<close>), base page or cache-only mini-page: none of
  its assertions fails as long as the reserve for fences covers the key, and the live records
  below the key stay while the others move to the sibling, both pages well-formed; the key is
  then the high fence of the page and the low fence of its sibling, which takes over the old
  high fence.
\<close>

theorem split_with_key_partitions:
  assumes "leaf_wf n" "leaf_ranged n" "split_kind_ok n co"
    and "leaf_covers n sk" "sk \<noteq> []" "length sk \<le> MAX_KEY_LEN"
    and "leaf_reserve F n" "length sk + length (leaf_low n) \<le> F" "length sk + length (leaf_high n) \<le> F"
    and "length (lf_data sib) + 32 = unat (node_size (lf_meta sib))" "node_size (lf_meta n) \<le> node_size (lf_meta sib)"
    and "unat (node_size (lf_meta sib)) \<le> MAX_LEAF_PAGE_SIZE"
  shows "\<exists>n' sib'. split_with_key n sib sk co v = Some (n', sib') \<and>
    leaf_wf n' \<and> leaf_wf sib' \<and> leaf_ranged n' \<and> leaf_ranged sib' \<and>
    leaf_view n' = live_inserts (filter (\<lambda>e. fst e < sk) (leaf_view n)) \<and>
    leaf_view sib' = live_inserts (filter (\<lambda>e. sk \<le> fst e) (leaf_view n)) \<and>
    (\<not> co \<longrightarrow> leaf_low n' = leaf_low n \<and> leaf_high n' = sk \<and> leaf_low sib' = sk \<and> leaf_high sib' = leaf_high n)"
proof -
  let ?cnt = "get_kv_num_below_key n sk"
  have sl: "length sk < 16384" and D: "unat (node_size (lf_meta sib)) \<le> 32768"
    using assms(6,12) by (simp_all add: MAX_KEY_LEN_def MAX_LEAF_PAGE_SIZE_def)
  note pt = split_point_below [OF assms(1,4,5) sl]
  have room: "split_room n sk ?cnt" using assms(7-9) by (auto simp: split_room_def leaf_reserve_def)
  have fence: "leaf_has_fence n = (\<not> co)" using assms(3) by (auto simp: split_kind_ok_def split: if_splits)
  obtain n' sib' where r: "split_at_count n sib sk ?cnt co v = Some (n', sib')" "split_result n sk ?cnt n' sib'"
    by (rule split_at_count_spec [OF assms(1,3,2) pt(1) room assms(10,11) D, of v])
  have "\<not> co \<Longrightarrow> leaf_get_full_key n' (leaf_get_kv_meta n' HIGH_FENCE_IDX) = sk \<and> get_low_fence_full_key sib' = sk"
    using r(2) fence assms(5) leaf_high_finite leaf_low_finite by (simp add: split_result_def)
  then have "split_with_key n sib sk co v = Some (n', sib')"
    using assms(3) r(1) by (auto simp: split_with_key_def)
  then show ?thesis using r(2) fence by (auto simp: split_result_def pt(2,3))
qed

text \<open>
  C16. Splitting a leaf in the middle (\<^verbatim>\<open>split\<close>): with at least one record (two for a cache-only
  page) the search for the separator always ends, the separator is the key of a record, and the
  live records are divided at it, the left page below the key and the right page from it on.
\<close>

theorem leaf_split_partitions:
  assumes "leaf_wf n" "leaf_ranged n" "split_kind_ok n co"
    and "leaf_view n \<noteq> []" "co \<longrightarrow> 2 \<le> length (leaf_view n)" "\<forall>k\<in>fst ` set (leaf_view n). k \<noteq> []"
    and "leaf_reserve F n" "\<forall>k\<in>fst ` set (leaf_view n). length k + length (leaf_high n) \<le> F"
    and "length (lf_data sib) + 32 = unat (node_size (lf_meta sib))" "node_size (lf_meta n) \<le> node_size (lf_meta sib)"
    and "unat (node_size (lf_meta sib)) \<le> MAX_LEAF_PAGE_SIZE"
  shows "\<exists>n' sib' sk. leaf_split n sib co v = Some (n', sib', sk) \<and> sk \<in> fst ` set (leaf_view n) \<and>
    leaf_wf n' \<and> leaf_wf sib' \<and> leaf_ranged n' \<and> leaf_ranged sib' \<and>
    leaf_view n' = live_inserts (filter (\<lambda>e. fst e < sk) (leaf_view n)) \<and>
    leaf_view sib' = live_inserts (filter (\<lambda>e. sk \<le> fst e) (leaf_view n)) \<and>
    (\<not> co \<longrightarrow> leaf_low n' = leaf_low n \<and> leaf_high n' = sk \<and> leaf_low sib' = sk \<and> leaf_high sib' = leaf_high n)"
proof -
  obtain i where i: "i < length (leaf_view n)" "leaf_get_split_key n co = Some (fst (leaf_view n ! i), i)"
    by (rule leaf_get_split_key_spec [OF assms(1,4,5)])
  let ?sk = "fst (leaf_view n ! i)"
  have sk: "?sk \<in> fst ` set (leaf_view n)" using i(1) by simp
  then have sl: "length ?sk < 16384" "?sk \<noteq> []" "leaf_covers n ?sk" "length ?sk + length (leaf_high n) \<le> F"
    using leaf_view_lengths(2) [OF assms(1) nth_mem [OF i(1)]] bspec [OF assms(6)] bspec [OF assms(8)]
      bspec [OF assms(2) [unfolded leaf_ranged_def]] by blast+
  note pt = split_point_below [OF assms(1) sl(3,2,1)]
  have asc: "\<And>a b. a < b \<Longrightarrow> b < length (leaf_view n) \<Longrightarrow> fst (leaf_view n ! a) < fst (leaf_view n ! b)"
    using sorted_wrt_nth_less [OF leaf_view_ascending [OF assms(1)]] by simp
  have cnt: "get_kv_num_below_key n ?sk = i"
    unfolding get_kv_num_below_key_eq [OF assms(1)]
    by (rule length_takeWhile_eq) (use i(1) asc in auto)
  have "?sk \<in> fst ` set (drop i (leaf_view n))" using i(1) by (metis Cons_nth_drop_Suc image_eqI list.set_intros(1))
  then have room: "split_room n ?sk i" using assms(7) sl(4) by (auto simp: split_room_def leaf_reserve_def)
  have D: "unat (node_size (lf_meta sib)) \<le> 32768" using assms(11) by (simp add: MAX_LEAF_PAGE_SIZE_def)
  have fence: "leaf_has_fence n = (\<not> co)" using assms(3) by (auto simp: split_kind_ok_def split: if_splits)
  obtain n' sib' where r: "split_at_count n sib ?sk i co v = Some (n', sib')" "split_result n ?sk i n' sib'"
    by (rule split_at_count_spec [OF assms(1,3,2) pt(1) _ assms(9,10) D, unfolded cnt, OF room, of v])
  have "\<not> is_infinite_low_fence_key (leaf_get_kv_meta n (FENCE_KEY_CNT + i))" if "\<not> co"
  proof -
    have "length (leaf_recs n) = length (leaf_view n)" by (simp add: leaf_view_def)
    then have ir: "i < length (leaf_recs n)" using i(1) by simp
    note at = leaf_rec_at [OF ir refl]
    have "leaf_get_kv_meta n (FENCE_KEY_CNT + i) \<in> set (leaf_recs n)"
      using at(1,2) fence that by (simp add: first_meta_pos_after_fence_def)
    from rec_in_bounds(2) [OF assms(1) this] show ?thesis
      using finite_offset [of "leaf_get_kv_meta n (FENCE_KEY_CNT + i)"] leaf_wfD(1) [OF assms(1)] by simp
  qed
  then have "leaf_split n sib co v = Some (n', sib', ?sk)"
    using assms(3) i(2) r(1) by (auto simp: leaf_split_def)
  then show ?thesis
    using r(2) sk by (intro exI [of _ n'] exI [of _ sib'] exI [of _ ?sk])
      (simp add: split_result_def pt(2,3) [unfolded cnt] fence)
qed

text \<open>A fenced base page with two records, and an empty page to split it into.\<close>

lemma demo_split_page:
  defines "n \<equiv> demo_page next_level_null True False"
  shows "leaf_wf n" "leaf_ranged n" "split_kind_ok n False" "leaf_low n = demo_low" "leaf_high n = demo_high"
    and "leaf_view n = [([97, 112, 112, 108, 101], Insert, [1, 2]), ([97, 112, 113], Insert, [4, 5, 6])]"
    and "leaf_reserve 100 n" "leaf_covers n [97, 112, 113]" "node_size (lf_meta n) \<le> 512"
  using demo_page_spec [where nl = next_level_null and fence = True and co = False, folded n_def]
  by (simp_all add: split_kind_ok_def is_base_page_def next_level_null_def next_level_is_null_def live_view_def
      demo_keys_def leaf_reserve_def leaf_covers_def demo_low_def demo_high_def word_le_nat_alt)

definition demo_sibling :: leaf_node where
  "demo_sibling = (leaf_blank 512)\<lparr>lf_meta := \<lparr>encoded = 0, node_size = 512, remaining_size = 0\<rparr>\<rparr>"

theorem split_with_key_partitions_witness:
  "\<exists>n n' sib'. split_with_key n demo_sibling [97, 112, 113] False 5 = Some (n', sib') \<and>
    leaf_view n' = [([97, 112, 112, 108, 101], Insert, [1, 2])] \<and>
    leaf_view sib' = [([97, 112, 113], Insert, [4, 5, 6])] \<and> leaf_low sib' = [97, 112, 113]"
proof -
  let ?n = "demo_page next_level_null True False"
  note d = demo_split_page
  obtain n' sib' where "split_with_key ?n demo_sibling [97, 112, 113] False 5 = Some (n', sib')"
    "leaf_view n' = live_inserts (filter (\<lambda>e. fst e < [97, 112, 113]) (leaf_view ?n))"
    "leaf_view sib' = live_inserts (filter (\<lambda>e. [97, 112, 113] \<le> fst e) (leaf_view ?n))"
    "leaf_low sib' = [97, 112, 113]"
    using split_with_key_partitions [OF d(1-3,8) _ _ d(7), of demo_sibling 5] d(9)
    by (auto simp: MAX_KEY_LEN_def MAX_LEAF_PAGE_SIZE_def demo_sibling_def leaf_blank_def d(4,5) demo_low_def demo_high_def)
  then show ?thesis
    by (intro exI [of _ ?n] exI [of _ n'] exI [of _ sib']) (simp add: d(6) live_inserts_def)
qed

theorem leaf_split_partitions_witness:
  "\<exists>n n' sib' sk. leaf_split n demo_sibling False 5 = Some (n', sib', sk) \<and>
    length (leaf_view n) = 2 \<and> length (leaf_view n') + length (leaf_view sib') = 2"
proof -
  let ?n = "demo_page next_level_null True False"
  note d = demo_split_page
  obtain n' sib' sk where r: "leaf_split ?n demo_sibling False 5 = Some (n', sib', sk)"
    "sk \<in> fst ` set (leaf_view ?n)"
    "leaf_view n' = live_inserts (filter (\<lambda>e. fst e < sk) (leaf_view ?n))"
    "leaf_view sib' = live_inserts (filter (\<lambda>e. sk \<le> fst e) (leaf_view ?n))"
    using leaf_split_partitions [OF d(1-3) _ _ _ d(7), of demo_sibling 5] d(9)
    by (auto simp: MAX_LEAF_PAGE_SIZE_def demo_sibling_def leaf_blank_def d(5,6) demo_high_def)
  then show ?thesis
    by (intro exI [of _ ?n] exI [of _ n'] exI [of _ sib'] exI [of _ sk]) (auto simp: d(6) live_inserts_def)
qed

end
