(* ===== verification/Leaf_Split_Key.thy ===== *)
theory Leaf_Split_Key
  imports Leaf_Split
begin

text \<open>
  The searches for a separator when a page is split because a record (\<^verbatim>\<open>get_cache_only_insert_split_key\<close>)
  or a whole mini-page (\<^verbatim>\<open>get_merge_split_key\<close>) does not fit (src/src/nodes/leaf_node.rs). Both walk
  over the records in key order and keep two candidates around the middle.
\<close>

section \<open>The candidates\<close>








section \<open>Splitting for one record\<close>


section \<open>Splitting for a mini-page\<close>






section \<open>The walk over the merged records\<close>

















section \<open>The first pass\<close>

definition size_sum :: "(bytes \<times> u16) list \<Rightarrow> u16 \<Rightarrow> u16" where
  "size_sum xs tot = fold (\<lambda>(k, z) s. s + z) xs tot"

lemma size_sum_simps [simp]:
  "size_sum [] tot = tot" "size_sum ((k, z) # xs) tot = size_sum xs (tot + z)"
  "size_sum (xs @ ys) tot = size_sum ys (size_sum xs tot)"
  by (simp_all add: size_sum_def)





section \<open>What the walk finds\<close>












section \<open>Marking the replaced records\<close>




section \<open>The separator for a merge\<close>










section \<open>The separator for an insertion\<close>




end
