(* ===== verification/Leaf_Size.thy ===== *)
theory Leaf_Size
  imports Leaf_Split_Key
begin

text \<open>
  The remaining operations of src/src/nodes/leaf_node.rs: the choice of a mini-page size for a
  record and for an upgrade, the snapshot version with its flag, and the records a scan reads.
\<close>

section \<open>Sizes of mini-pages\<close>

text \<open>
  \<open>None\<close>: the panic for a record that fits no class (or an empty list of classes). A
  \<^verbatim>\<open>LeafNode\<close> header is 32 bytes, a slot 8.
\<close>

definition get_chain_size_hint :: "nat \<Rightarrow> nat \<Rightarrow> nat list \<Rightarrow> bool \<Rightarrow> nat option" where
  "get_chain_size_hint key_len val_len page_classes cache_only =
     (let initial_record_size = key_len + val_len + KV_META_SIZE + 32 in
      if page_classes = [] then None
      else case position (\<lambda>x. initial_record_size < x) (butlast page_classes) of
        Some s \<Rightarrow> Some (page_classes ! s)
      | None \<Rightarrow>
          if cache_only \<and> initial_record_size \<le> last page_classes then Some (last page_classes) else None)"


section \<open>The snapshot version\<close>

definition leaf_set_snapshot_version :: "leaf_node \<Rightarrow> u64 \<Rightarrow> bool \<Rightarrow> leaf_node" where
  "leaf_set_snapshot_version n v mark_changed =
     (let next_version = v AND LEAF_SNAPSHOT_VERSION_MASK in
      if \<not> mark_changed then n\<lparr>lf_snapshot_version := next_version\<rparr>
      else n\<lparr>lf_snapshot_version := next_version OR LEAF_SNAPSHOT_VERSION_CHANGED_FLAG\<rparr>)"

definition is_snapshot_version_changed :: "leaf_node \<Rightarrow> bool" where
  "is_snapshot_version_changed n = (lf_snapshot_version n AND LEAF_SNAPSHOT_VERSION_CHANGED_FLAG \<noteq> 0)"

definition set_snapshot_version_changed_flag :: "leaf_node \<Rightarrow> leaf_node" where
  "set_snapshot_version_changed_flag n =
     n\<lparr>lf_snapshot_version := lf_snapshot_version n OR LEAF_SNAPSHOT_VERSION_CHANGED_FLAG\<rparr>"

definition clear_snapshot_version_changed_flag :: "leaf_node \<Rightarrow> leaf_node" where
  "clear_snapshot_version_changed_flag n =
     n\<lparr>lf_snapshot_version := lf_snapshot_version n AND LEAF_SNAPSHOT_VERSION_MASK\<rparr>"

section \<open>Reading by position\<close>






text \<open>\<open>None\<close>: the assertion that the node is a cache-only leaf.\<close>

definition try_get_key_to_reach_this_node :: "leaf_node \<Rightarrow> (tree_error + bytes) option" where
  "try_get_key_to_reach_this_node n =
     (if \<not> is_cache_only_leaf (lf_meta n) then None
      else if 0 \<ge> slot_count (lf_meta n) then Some (Inl NeedRestart)
      else
        let m = leaf_get_kv_meta n 0 in
        if lk_offset m + get_key_len m > of_nat (leaf_max_data_size (unat (node_size (lf_meta n))))
        then Some (Inl NeedRestart)
        else Some (Inr (read_at (unat (lk_offset m)) (unat (get_key_len m - prefix_len n)) (lf_data n))))"

definition get_key_to_reach_this_node :: "leaf_node \<Rightarrow> bytes" where
  "get_key_to_reach_this_node n =
     leaf_get_full_key n (leaf_get_kv_meta n (first_meta_pos_after_fence n))"

section \<open>The chosen size is large enough\<close>

lemma class_choice:
  assumes "classes \<noteq> []" "position (\<lambda>x. r < x) (butlast classes) = Some i"
  shows "r < classes ! i" "classes ! i \<in> set classes" "sorted classes \<Longrightarrow> c \<in> set classes \<Longrightarrow> r < c \<Longrightarrow> classes ! i \<le> c"
proof -
  note p = positionD [OF assms(2)]
  have i: "i < length classes" using p(1) by simp
  show "r < classes ! i" "classes ! i \<in> set classes" using p(1,2) i by (simp_all add: nth_butlast)
  assume so: "sorted classes" and c: "c \<in> set classes" "r < c"
  then obtain j where j: "j < length classes" "c = classes ! j" by (metis in_set_conv_nth)
  have "\<not> j < i" using p(1,3) j c(2) by (auto simp: nth_butlast)
  then show "classes ! i \<le> c" using so j i by (simp add: sorted_nth_mono)
qed

lemma chain_size_hint_bound:
  assumes "get_chain_size_hint kl vl classes co = Some s"
  shows "kl + vl + 8 + 32 \<le> s" "s \<in> set classes"
  using assms class_choice [of classes "kl + vl + 8 + 32"]
  by (auto simp: get_chain_size_hint_def Let_def KV_META_SIZE_def less_imp_le split: if_splits option.splits)

text \<open>
  C26. A mini-page made for a record with the size that \<^verbatim>\<open>get_chain_size_hint\<close> picks always has room
  for it: initialising the page and inserting the record succeeds and the page then holds exactly
  this record. Among ascending size classes the one picked is the smallest that the record does
  not fill (for a tree with a backing store).
\<close>

theorem chain_size_hint_fits:
  assumes "get_chain_size_hint (length key) (length val) classes co = Some s"
    and "s \<le> MAX_LEAF_PAGE_SIZE" "length key \<le> MAX_KEY_LEN" "length val \<le> MAX_VALUE_LEN"
    and "length (lf_data mem) = s - 32" "co \<or> \<not> next_level_is_null nl"
  shows "s \<in> set classes \<and>
    (\<not> co \<and> sorted classes \<longrightarrow> (\<forall>c\<in>set classes. length key + length val + 40 < c \<longrightarrow> s \<le> c)) \<and>
    (\<exists>n n'. initialize_mini_page mem s nl co v = Some n \<and> leaf_insert n key val t 0 = Some (n', True) \<and>
      leaf_wf n' \<and> leaf_view n' = [(key, t, val)])"
proof (intro conjI)
  note b = chain_size_hint_bound [OF assms(1)]
  show "s \<in> set classes" by (rule b(2))
  show "\<not> co \<and> sorted classes \<longrightarrow> (\<forall>c\<in>set classes. length key + length val + 40 < c \<longrightarrow> s \<le> c)"
    using assms(1) class_choice(3) [of classes "length key + length val + 8 + 32"]
    by (auto simp: get_chain_size_hint_def Let_def KV_META_SIZE_def split: if_splits option.splits)
  have s: "32 \<le> s" "s \<le> 32768" using b(1) assms(2) by (simp_all add: MAX_LEAF_PAGE_SIZE_def)
  obtain n where n: "leaf_initialize mem [] [] s nl False co v = Some n" "leaf_wf n" "leaf_view n = []"
    "unat (remaining_size (lf_meta n)) = s - 32" "leaf_p n = 0" "is_cache_only_leaf (lf_meta n) = co" "next_level n = nl"
    by (rule leaf_initialize_plain [OF assms(5) s, of nl co v])
  have k: "leaf_key_ok n key" "length key < 16384" "length val < 32768"
    using assms(3,4) length_get_prefix [OF n(2)] n(5) by (simp_all add: leaf_key_ok_def MAX_KEY_LEN_def MAX_VALUE_LEN_def)
  obtain n' where n': "leaf_insert n key val t 0 = Some (n', True)"
    by (rule leaf_insert_room [OF n(2) k, of t]) (use b(1) n(3-5) in simp_all)
  have "\<not> is_base_page n" using assms(6) n(6,7) by (auto simp: is_base_page_def)
  then show "\<exists>n n'. initialize_mini_page mem s nl co v = Some n \<and> leaf_insert n key val t 0 = Some (n', True) \<and>
      leaf_wf n' \<and> leaf_view n' = [(key, t, val)]"
    using n(1,3) n' leaf_insert_true(1,3) [OF n(2) k n'] by (auto simp: initialize_mini_page_def rec_put_def)
qed

theorem chain_size_hint_fits_witness:
  "\<exists>n n'. get_chain_size_hint 3 4 [64, 128, 4096] False = Some 64 \<and>
    initialize_mini_page (leaf_blank 64) 64 (MiniPageNextLevel 4096) False 0 = Some n \<and>
    leaf_insert n [1, 2, 3] [4, 5, 6, 7] Insert 0 = Some (n', True)"
proof -
  have h: "get_chain_size_hint 3 4 [64, 128, 4096] False = Some 64"
    by (simp add: get_chain_size_hint_def KV_META_SIZE_def)
  have h': "get_chain_size_hint (length [1, 2, 3 :: u8]) (length [4, 5, 6, 7 :: u8]) [64, 128, 4096] False = Some 64"
    by (simp add: get_chain_size_hint_def KV_META_SIZE_def)
  have "length (lf_data (leaf_blank 64)) = 64 - 32" "False \<or> \<not> next_level_is_null (MiniPageNextLevel 4096)"
    by (simp_all add: leaf_blank_def next_level_is_null_def)
  from chain_size_hint_fits [OF h' _ _ _ this, of 0 Insert] h show ?thesis
    by (auto simp: MAX_LEAF_PAGE_SIZE_def MAX_KEY_LEN_def MAX_VALUE_LEN_def)
qed



section \<open>Version and positions\<close>

lemma leaf_version_masks:
  "(v AND LEAF_SNAPSHOT_VERSION_MASK) AND LEAF_SNAPSHOT_VERSION_CHANGED_FLAG = 0"
  "(v OR LEAF_SNAPSHOT_VERSION_CHANGED_FLAG) AND LEAF_SNAPSHOT_VERSION_MASK = v AND LEAF_SNAPSHOT_VERSION_MASK"
  "(v OR LEAF_SNAPSHOT_VERSION_CHANGED_FLAG) AND LEAF_SNAPSHOT_VERSION_CHANGED_FLAG = LEAF_SNAPSHOT_VERSION_CHANGED_FLAG"
  "LEAF_SNAPSHOT_VERSION_CHANGED_FLAG \<noteq> 0"
proof -
  have disj: "LEAF_SNAPSHOT_VERSION_MASK AND LEAF_SNAPSHOT_VERSION_CHANGED_FLAG = 0"
    by (simp add: LEAF_SNAPSHOT_VERSION_MASK_def LEAF_SNAPSHOT_VERSION_CHANGED_FLAG_def)
  then show "(v AND LEAF_SNAPSHOT_VERSION_MASK) AND LEAF_SNAPSHOT_VERSION_CHANGED_FLAG = 0"
    by (simp add: and.assoc)
  show "(v OR LEAF_SNAPSHOT_VERSION_CHANGED_FLAG) AND LEAF_SNAPSHOT_VERSION_MASK = v AND LEAF_SNAPSHOT_VERSION_MASK"
    using disj by (simp add: bit.conj_disj_distrib2 and.commute [of LEAF_SNAPSHOT_VERSION_CHANGED_FLAG])
  show "(v OR LEAF_SNAPSHOT_VERSION_CHANGED_FLAG) AND LEAF_SNAPSHOT_VERSION_CHANGED_FLAG = LEAF_SNAPSHOT_VERSION_CHANGED_FLAG"
    by (rule bit_word_eqI) (auto simp: bit_simps)
  show "LEAF_SNAPSHOT_VERSION_CHANGED_FLAG \<noteq> 0" by (simp add: LEAF_SNAPSHOT_VERSION_CHANGED_FLAG_def)
qed

text \<open>
  The snapshot version of a leaf and its ``changed'' flag share a word: setting the version
  stores exactly its low 63 bits and the flag asked for, setting or clearing the flag changes the
  flag only, and none of it touches the contents.
\<close>

theorem leaf_version_flag_independent:
  "leaf_get_clean_snapshot_version (leaf_set_snapshot_version n v b) = v AND LEAF_SNAPSHOT_VERSION_MASK \<and>
   is_snapshot_version_changed (leaf_set_snapshot_version n v b) = b \<and>
   is_snapshot_version_changed (set_snapshot_version_changed_flag n) \<and>
   \<not> is_snapshot_version_changed (clear_snapshot_version_changed_flag n) \<and>
   leaf_get_clean_snapshot_version (set_snapshot_version_changed_flag n) = leaf_get_clean_snapshot_version n \<and>
   leaf_get_clean_snapshot_version (clear_snapshot_version_changed_flag n) = leaf_get_clean_snapshot_version n \<and>
   leaf_view (leaf_set_snapshot_version n v b) = leaf_view n \<and> leaf_wf (leaf_set_snapshot_version n v b) = leaf_wf n"
  by (simp add: leaf_get_clean_snapshot_version_def leaf_set_snapshot_version_def is_snapshot_version_changed_def
      set_snapshot_version_changed_flag_def clear_snapshot_version_changed_flag_def Let_def leaf_version_masks)

lemma leaf_slot_view:
  assumes wf: "leaf_wf n" and i: "i < length (leaf_view n)"
  defines "m \<equiv> leaf_get_kv_meta n (first_meta_pos_after_fence n + i)"
  shows "leaf_view n ! i = (leaf_get_full_key n m, meta_op_type m, leaf_get_value n m)"
    and "length (leaf_get_value n m) = unat (value_len m)"
    and "first_meta_pos_after_fence n + i < slot_count (lf_meta n)" "m \<in> set (leaf_recs n)"
proof -
  have "length (leaf_view n) = length (leaf_recs n)" by (simp add: leaf_view_def)
  with i have i': "i < length (leaf_recs n)" by simp
  note at = leaf_rec_at [OF i' refl]
  have m: "m = leaf_recs n ! i" by (simp add: m_def at(1))
  show "leaf_view n ! i = (leaf_get_full_key n m, meta_op_type m, leaf_get_value n m)"
    using i' at(3) leaf_entry_eq(1) [OF wf at(2)] by (simp add: leaf_view_def m leaf_get_full_key_def)
  show "length (leaf_get_value n m) = unat (value_len m)" using leaf_entry_eq(3) [OF wf at(2)] m by simp
  show "first_meta_pos_after_fence n + i < slot_count (lf_meta n)" "m \<in> set (leaf_recs n)"
    using at(2,4) by (simp_all add: m)
qed



text \<open>
  C39. In a cache-only tree the unprotected read of the key that leads to a page
  (\<^verbatim>\<open>try_get_key_to_reach_this_node\<close>) returns the smallest key of a consistent non-empty page, as the
  protected one does, and asks for a restart on an empty page.
\<close>

theorem reach_key_smallest:
  assumes "leaf_wf n" "is_cache_only_leaf (lf_meta n)" "\<not> leaf_has_fence n"
  shows "try_get_key_to_reach_this_node n =
    Some (if leaf_view n = [] then Inl NeedRestart else Inr (fst (hd (leaf_view n)))) \<and>
    (leaf_view n \<noteq> [] \<longrightarrow> get_key_to_reach_this_node n = fst (hd (leaf_view n)) \<and>
       (\<forall>k\<in>fst ` set (leaf_view n). fst (hd (leaf_view n)) \<le> k))"
proof -
  have f: "first_meta_pos_after_fence n = 0" using assms(3) by (simp add: first_meta_pos_after_fence_def)
  have len: "length (leaf_view n) = slot_count (lf_meta n)" by (simp add: leaf_view_def f)
  show ?thesis
  proof (cases "leaf_view n")
    case Nil
    then show ?thesis using len assms(2) by (simp add: try_get_key_to_reach_this_node_def)
  next
    case (Cons e es)
    let ?m = "leaf_get_kv_meta n 0"
    have 0: "0 < length (leaf_view n)" by (simp add: Cons)
    note s = leaf_slot_view [OF assms(1) 0, unfolded f add_0]
    have p: "leaf_p n = 0" using leaf_wfD(6) [OF assms(1)] assms(3) by (simp add: fence_ok_def)
    have pre: "get_prefix n = []" using length_get_prefix [OF assms(1)] p by simp
    note b = rec_in_bounds(2) [OF assms(1) s(4)] and D = leaf_wfD(1,8) [OF assms(1)]
    have "unat (lk_offset ?m + get_key_len ?m) = unat (lk_offset ?m) + unat (get_key_len ?m)"
      using b D(1) p by (intro unat_add_nowrap) simp
    moreover have "unat (of_nat (leaf_max_data_size (unat (node_size (lf_meta n)))) :: u16) = length (lf_data n)"
      using D by (simp add: leaf_max_data_size_def unat_of_nat_nowrap)
    ultimately have "\<not> lk_offset ?m + get_key_len ?m > of_nat (leaf_max_data_size (unat (node_size (lf_meta n))))"
      using b p by (simp add: word_less_nat_alt)
    then have "try_get_key_to_reach_this_node n = Some (Inr (get_remaining_key n ?m))"
      using assms(2) len Cons by (simp add: try_get_key_to_reach_this_node_def Let_def get_remaining_key_def not_less)
    moreover have "fst e = get_remaining_key n ?m" using s(1) by (simp add: Cons leaf_get_full_key_def pre)
    moreover have "get_key_to_reach_this_node n = fst e"
      using s(1) by (simp add: get_key_to_reach_this_node_def f Cons)
    moreover have "\<forall>k\<in>fst ` set (leaf_view n). fst e \<le> k"
      using leaf_view_ascending [OF assms(1)] by (auto simp: Cons)
    ultimately show ?thesis by (simp add: Cons)
  qed
qed

theorem reach_key_smallest_witness:
  "\<exists>n. try_get_key_to_reach_this_node n = Some (Inr [97, 112, 112, 108, 101])"
proof -
  let ?n = "demo_page (MiniPageNextLevel 4096) False True"
  have "leaf_view ?n = map (\<lambda>(k, v, t). (k, t, v)) demo_keys"
    by (simp add: demo_page_spec live_view_def demo_keys_def)
  then show ?thesis
    using reach_key_smallest [OF demo_page_spec(1), of "MiniPageNextLevel 4096" False True]
    by (intro exI [of _ ?n]) (simp add: demo_page_spec(3,6) demo_keys_def)
qed

end
