(* ===== verification/Config.thy ===== *)
theory Config
  imports Node_Meta
begin

text \<open>
  The configuration of a tree and its validation (src/src/config.rs), and the size classes of
  in-memory pages derived from it (\<^verbatim>\<open>BfTree::create_mem_page_size_classes\<close>, src/src/tree.rs). Sizes
  are 64-bit unsigned integers, given as numbers with their wrap-around written out. The texts of
  error messages, file paths, and the floating-point ratio of the copy-on-access region are not
  modelled.
\<close>

section \<open>64-bit arithmetic\<close>

definition uadd :: "nat \<Rightarrow> nat \<Rightarrow> nat" where
  "uadd a b = (a + b) mod 2 ^ 64"

definition usub :: "nat \<Rightarrow> nat \<Rightarrow> nat" where
  "usub a b = (a + (2 ^ 64 - b)) mod 2 ^ 64"

definition umul :: "nat \<Rightarrow> nat \<Rightarrow> nat" where
  "umul a b = (a * b) mod 2 ^ 64"

lemma uadd_exact [simp]: "a + b < 2 ^ 64 \<Longrightarrow> uadd a b = a + b"
  by (simp add: uadd_def)


lemma usub_exact [simp]:
  assumes "b \<le> a" "a < 2 ^ 64"
  shows "usub a b = a - b"
proof -
  have "a + (2 ^ 64 - b) = (a - b) + 2 ^ 64" using assms by simp
  then have "usub a b = ((a - b) + 2 ^ 64) mod 2 ^ 64" unfolding usub_def by (rule arg_cong)
  also have "\<dots> = (a - b) mod 2 ^ 64" by (rule mod_add_self2)
  also have "\<dots> = a - b" using assms(2) by (intro mod_less) simp
  finally show ?thesis .
qed


section \<open>The configuration\<close>

datatype storage_backend = Memory | Std | StdDirect | IoUringPolling | IoUringBlocking | Spdk

record config =
  read_promotion_rate :: nat
  scan_promotion_rate :: nat
  storage_backend :: storage_backend
  snapshot_backend :: storage_backend
  cb_size_byte :: nat
  cb_min_record_size :: nat
  cb_max_record_size :: nat
  leaf_page_size :: nat
  cb_max_key_len :: nat
  max_fence_len :: nat
  read_record_cache :: bool
  use_snapshot :: bool
  snapshot_version :: u64
  max_mini_page_size :: nat
  mini_page_binary_search :: bool
  write_load_full_page :: bool
  cache_only :: bool

text \<open>\<open>debug\<close>: whether debug assertions are compiled in.\<close>

definition config_default :: "bool \<Rightarrow> config" where
  "config_default debug =
     \<lparr>read_promotion_rate = (if debug then 50 else 30), scan_promotion_rate = (if debug then 50 else 30),
      storage_backend = Memory, snapshot_backend = Std, cb_size_byte = 1024 * 1024 * 32,
      cb_min_record_size = 4, cb_max_record_size = 1952, leaf_page_size = 4096, cb_max_key_len = 16,
      max_fence_len = 16 * 2, read_record_cache = True, use_snapshot = False, snapshot_version = 0,
      max_mini_page_size = 2048, mini_page_binary_search = True, write_load_full_page = True,
      cache_only = False\<rparr>"

definition starts_with :: "string \<Rightarrow> string \<Rightarrow> bool" where
  "starts_with s p \<longleftrightarrow> take (length p) s = p"

definition config_new :: "bool \<Rightarrow> string \<Rightarrow> nat \<Rightarrow> config" where
  "config_new debug file_path circular_buffer_size =
     (let (backend, only) =
        (if starts_with file_path '':memory:'' then (Memory, False)
         else if starts_with file_path '':cache:'' then (Memory, True)
         else (Std, False))
      in (config_default debug)\<lparr>storage_backend := backend, cache_only := only, cb_size_byte := circular_buffer_size\<rparr>)"

definition set_cb_max_key_len :: "config \<Rightarrow> nat \<Rightarrow> config" where
  "set_cb_max_key_len c len = c\<lparr>cb_max_key_len := len, max_fence_len := umul len 2\<rparr>"

datatype config_error =
  MinimumRecordSize | MaximumRecordSize | LeafPageSize | MaxKeyLen | CircularBufferSize
  | SnapshotFileInvalid | SnapshotDisabled






section \<open>Size classes\<close>







section \<open>The loop over the size classes\<close>








section \<open>A valid configuration has usable size classes\<close>








end
