(* ===== verification/Free_List.thy ===== *)
theory Free_List
  imports Prelude
begin

text \<open>
  The free list of the circular buffer (src/src/circular_buffer/freelist.rs): one singly linked
  list of free blocks per size class. A \<^verbatim>\<open>ListNode\<close> is laid over the first word of a free block, so
  its \<^verbatim>\<open>next\<close> field is a store from block addresses to addresses, \<open>None\<close> being the null pointer.
  A class's mutex is held for the whole of each operation; that \<^verbatim>\<open>try_lock\<close> can fail is the
  parameter \<open>contended\<close> of \<open>fl_try_add\<close>.
\<close>

section \<open>The model\<close>

record free_list =
  size_classes :: "nat list"
  list_heads :: "nat option list"
  node_next :: "nat \<Rightarrow> nat option"

datatype free_list_error = FlWouldBlock | SizeTooSmall

definition free_list_new :: "nat list \<Rightarrow> free_list" where
  "free_list_new classes =
     \<lparr>size_classes = classes, list_heads = replicate (length classes) None, node_next = (\<lambda>_. None)\<rparr>"

text \<open>\<open>None\<close> in the following operations: the \<^verbatim>\<open>expect\<close> fails.\<close>

definition size_class_smaller_than :: "free_list \<Rightarrow> nat \<Rightarrow> nat option" where
  "size_class_smaller_than fl sz = position (\<lambda>s. s \<le> sz) (size_classes fl)"

definition size_class_larger_than :: "free_list \<Rightarrow> nat \<Rightarrow> nat option" where
  "size_class_larger_than fl sz =
     do { pos \<leftarrow> position (\<lambda>s. s \<ge> sz) (rev (size_classes fl));
          Some (length (size_classes fl) - 1 - pos) }"

definition fl_remove :: "free_list \<Rightarrow> nat \<Rightarrow> (nat option \<times> free_list) option" where
  "fl_remove fl sz =
     do { i \<leftarrow> size_class_larger_than fl sz;
          case list_heads fl ! i of
            None \<Rightarrow> Some (None, fl)
          | Some old \<Rightarrow> Some (Some old, fl\<lparr>list_heads := (list_heads fl)[i := node_next fl old]\<rparr>) }"

definition fl_try_add :: "free_list \<Rightarrow> nat \<Rightarrow> nat \<Rightarrow> bool \<Rightarrow> ((free_list_error + unit) \<times> free_list) option" where
  "fl_try_add fl ptr sz contended =
     (if size_classes fl = [] then None
      else if sz < last (size_classes fl) then Some (Inl SizeTooSmall, fl)
      else do {
        i \<leftarrow> size_class_smaller_than fl sz;
        if contended then Some (Inl FlWouldBlock, fl)
        else Some (Inr (), fl\<lparr>node_next := (node_next fl)(ptr := list_heads fl ! i),
                              list_heads := (list_heads fl)[i := Some ptr]\<rparr>)
      })"

text \<open>The search loop; it does not return on a cyclic list.\<close>

partial_function (option) find_from ::
  "free_list \<Rightarrow> nat \<Rightarrow> nat \<Rightarrow> nat option \<Rightarrow> nat option \<Rightarrow> (bool \<times> free_list) option" where
  "find_from fl i ptr prev node =
     (case node of
        None \<Rightarrow> Some (False, fl)
      | Some a \<Rightarrow>
          if a = ptr then
            (case prev of
               None \<Rightarrow> Some (True, fl\<lparr>list_heads := (list_heads fl)[i := node_next fl a]\<rparr>)
             | Some b \<Rightarrow> Some (True, fl\<lparr>node_next := (node_next fl)(b := node_next fl a)\<rparr>))
          else find_from fl i ptr (Some a) (node_next fl a))"

definition find_and_remove :: "free_list \<Rightarrow> nat \<Rightarrow> nat \<Rightarrow> (bool \<times> free_list) option" where
  "find_and_remove fl ptr sz =
     do { i \<leftarrow> size_class_smaller_than fl sz;
          find_from fl i ptr None (list_heads fl ! i) }"

section \<open>Linked lists\<close>

fun chain :: "(nat \<Rightarrow> nat option) \<Rightarrow> nat option \<Rightarrow> nat list \<Rightarrow> bool" where
  "chain nx h [] = (h = None)"
| "chain nx h (p # ps) = (h = Some p \<and> chain nx (nx p) ps)"

lemma chain_upd: "q \<notin> set ps \<Longrightarrow> chain (nx(q := x)) h ps = chain nx h ps"
  by (induction ps arbitrary: h) auto

text \<open>The lists a free list represents, one per size class.\<close>

definition fl_rep :: "free_list \<Rightarrow> nat list list \<Rightarrow> bool" where
  "fl_rep fl ls \<longleftrightarrow> sorted_wrt (\<ge>) (size_classes fl) \<and> length (list_heads fl) = length (size_classes fl) \<and> length ls = length (size_classes fl) \<and>
     (\<forall>i<length ls. chain (node_next fl) (list_heads fl ! i) (ls ! i)) \<and> distinct (concat ls)"

lemma fl_rep_new: "sorted_wrt (\<ge>) classes \<Longrightarrow> fl_rep (free_list_new classes) (replicate (length classes) [])"
  by (simp add: fl_rep_def free_list_new_def)

lemma distinct_concat_nth:
  assumes "distinct (concat ls)" "i < length ls" "j < length ls" "p \<in> set (ls ! i)" "p \<in> set (ls ! j)"
  shows "i = j"
proof (rule ccontr)
  assume "i \<noteq> j"
  have 1: "distinct (removeAll [] ls)" and 2: "\<And>ys zs. ys \<in> set ls \<Longrightarrow> zs \<in> set ls \<Longrightarrow> ys \<noteq> zs \<Longrightarrow> set ys \<inter> set zs = {}"
    using assms(1) unfolding distinct_concat_iff by auto
  then have same: "ls ! i = ls ! j" using assms(2-5) by (metis IntI empty_iff nth_mem)
  obtain xs ys zs l where l: "ls = xs @ l # ys @ l # zs" "l = ls ! i"
  proof -
    have *: "\<exists>xs ys zs l. ls = xs @ l # ys @ l # zs \<and> l = ls ! i" if "i < j" "j < length ls" "ls ! i = ls ! j" for i j
    proof -
      have "ls = take i ls @ ls ! i # drop (Suc i) ls" by (rule id_take_nth_drop) (use that in linarith)
      moreover have "drop (Suc i) ls = take (j - Suc i) (drop (Suc i) ls) @ ls ! j # drop (Suc j) ls"
        using that id_take_nth_drop [of "j - Suc i" "drop (Suc i) ls"] by simp
      ultimately show ?thesis using that(3) by metis
    qed
    show ?thesis using that *[of i j] *[of j i] \<open>i \<noteq> j\<close> assms(2,3) same by (metis nat_neq_iff)
  qed
  have "distinct (concat (xs @ l # ys @ l # zs))" using assms(1) l(1) by simp
  then show False using assms(4) unfolding l(2) [symmetric] by auto
qed

lemma set_concat_update:
  "i < length ls \<Longrightarrow> distinct (concat ls) \<Longrightarrow>
   set (concat (ls[i := xs])) = (set (concat ls) - set (ls ! i)) \<union> set xs"
proof (induction ls arbitrary: i)
  case (Cons l ls)
  show ?case
  proof (cases i)
    case (Suc i')
    then have "set (ls ! i') \<subseteq> set (concat ls)" using Cons.prems(1) nth_mem by fastforce
    then show ?thesis using Cons Suc by auto
  qed (use Cons.prems in auto)
qed simp

lemma distinct_concat_update:
  assumes "i < length ls" "distinct (concat ls)" "distinct xs" "set xs \<inter> (set (concat ls) - set (ls ! i)) = {}"
  shows "distinct (concat (ls[i := xs]))"
  using assms
proof (induction ls arbitrary: i)
  case (Cons l ls)
  show ?case
  proof (cases i)
    case 0
    then show ?thesis using Cons.prems by auto
  next
    case (Suc i')
    then have i': "i' < length ls" "distinct (concat ls)" using Cons.prems by auto
    have sub: "set (ls ! i') \<subseteq> set (concat ls)" using i'(1) nth_mem by fastforce
    have "set xs \<inter> (set (concat ls) - set (ls ! i')) = {}" using Cons.prems(4) Suc by auto
    note IH = Cons.IH [OF i' Cons.prems(3) this]
    have "set l \<inter> set (concat (ls[i' := xs])) = {}"
      unfolding set_concat_update [OF i'] using Cons.prems(2,4) Suc sub by auto
    then show ?thesis using IH Suc Cons.prems(2) by auto
  qed
qed simp

lemma concat_update_mem:
  assumes "i < length ls" "distinct (concat ls)" "set xs \<subseteq> set (ls ! i)" "distinct xs"
  shows "distinct (concat (ls[i := xs]))"
    and "set (concat (ls[i := xs])) = set (concat ls) - (set (ls ! i) - set xs)"
proof -
  have sub: "set (ls ! i) \<subseteq> set (concat ls)" using assms(1) nth_mem by fastforce
  show "distinct (concat (ls[i := xs]))" using assms by (intro distinct_concat_update) auto
  show "set (concat (ls[i := xs])) = set (concat ls) - (set (ls ! i) - set xs)"
    unfolding set_concat_update [OF assms(1,2)] using sub assms(3) by blast
qed

lemma fl_rep_distinct: "fl_rep fl ls \<Longrightarrow> i < length ls \<Longrightarrow> distinct (ls ! i)"
  by (auto simp: fl_rep_def distinct_concat_iff)

lemma fl_rep_head: "fl_rep fl ls \<Longrightarrow> i < length ls \<Longrightarrow> chain (node_next fl) (list_heads fl ! i) (ls ! i)"
  by (simp add: fl_rep_def)

section \<open>The size classes\<close>

lemma class_smaller: "size_class_smaller_than fl sz = Some i \<Longrightarrow> i < length (size_classes fl) \<and> size_classes fl ! i \<le> sz"
  unfolding size_class_smaller_than_def using positionD by fastforce

lemma class_larger:
  assumes "size_class_larger_than fl sz = Some i"
  shows "i < length (size_classes fl) \<and> sz \<le> size_classes fl ! i"
proof -
  obtain pos where pos: "position (\<lambda>s. s \<ge> sz) (rev (size_classes fl)) = Some pos" "i = length (size_classes fl) - 1 - pos"
    using assms by (auto simp: size_class_larger_than_def split: bind_splits)
  show ?thesis using positionD(1,2) [OF pos(1)] pos(2) by (simp add: rev_nth)
qed

lemma class_larger_some: "c \<in> set (size_classes fl) \<Longrightarrow> sz \<le> c \<Longrightarrow> \<exists>i. size_class_larger_than fl sz = Some i"
  unfolding size_class_larger_than_def using position_some [of c "rev (size_classes fl)" "\<lambda>s. sz \<le> s"] by auto

lemma class_smaller_some: "c \<in> set (size_classes fl) \<Longrightarrow> c \<le> sz \<Longrightarrow> \<exists>i. size_class_smaller_than fl sz = Some i"
  unfolding size_class_smaller_than_def using position_some [of c "size_classes fl" "\<lambda>s. s \<le> sz"] by auto

section \<open>The operations on the represented lists\<close>

lemma fl_remove_rep:
  assumes rep: "fl_rep fl ls" and i: "size_class_larger_than fl sz = Some i"
  shows "case ls ! i of
           [] \<Rightarrow> fl_remove fl sz = Some (None, fl)
         | p # ps \<Rightarrow> \<exists>fl'. fl_remove fl sz = Some (Some p, fl') \<and> fl_rep fl' (ls[i := ps]) \<and> size_classes fl' = size_classes fl"
proof -
  have il: "i < length ls" "i < length (list_heads fl)" using class_larger [OF i] rep by (auto simp: fl_rep_def)
  note ch = fl_rep_head [OF rep il(1)] and d = fl_rep_distinct [OF rep il(1)]
  show ?thesis
  proof (cases "ls ! i")
    case Nil
    then show ?thesis using ch i by (simp add: fl_remove_def)
  next
    case (Cons p ps)
    have "fl_rep (fl\<lparr>list_heads := (list_heads fl)[i := node_next fl p]\<rparr>) (ls[i := ps])"
      using rep il ch d Cons concat_update_mem(1) [OF il(1), of ps]
      by (auto simp: fl_rep_def nth_list_update)
    then show ?thesis using ch i Cons by (simp add: fl_remove_def)
  qed
qed

lemma last_class_le:
  assumes "fl_rep fl ls" "size_class_smaller_than fl sz = Some i"
  shows "size_classes fl \<noteq> [] \<and> last (size_classes fl) \<le> sz"
proof -
  note i = class_smaller [OF assms(2)]
  then have ne: "size_classes fl \<noteq> []" by auto
  have "size_classes fl ! (length (size_classes fl) - 1) \<le> size_classes fl ! i"
  proof (cases "i = length (size_classes fl) - 1")
    case False
    then show ?thesis using assms(1) i
      by (auto simp: fl_rep_def sorted_wrt_iff_nth_less)
  qed simp
  then show ?thesis using i ne by (simp add: last_conv_nth)
qed

lemma fl_try_add_rep:
  assumes rep: "fl_rep fl ls" and i: "size_class_smaller_than fl sz = Some i" and p: "p \<notin> set (concat ls)"
  shows "\<exists>fl'. fl_try_add fl p sz False = Some (Inr (), fl') \<and> fl_rep fl' (ls[i := p # ls ! i]) \<and> size_classes fl' = size_classes fl"
proof -
  have il: "i < length ls" "i < length (list_heads fl)" using class_smaller [OF i] rep by (auto simp: fl_rep_def)
  note ch = fl_rep_head [OF rep il(1)] and d = fl_rep_distinct [OF rep il(1)]
  have np: "p \<notin> set (ls ! j)" if "j < length ls" for j using p that nth_mem by fastforce
  have "distinct (concat (ls[i := p # ls ! i]))"
    using rep il(1) d p np [OF il(1)] by (intro distinct_concat_update) (auto simp: fl_rep_def)
  then have "fl_rep (fl\<lparr>node_next := (node_next fl)(p := list_heads fl ! i), list_heads := (list_heads fl)[i := Some p]\<rparr>)
               (ls[i := p # ls ! i])"
    using rep il ch np by (auto simp: fl_rep_def nth_list_update chain_upd)
  then show ?thesis using i last_class_le [OF rep i] by (simp add: fl_try_add_def)
qed

lemma find_from_chain:
  assumes "chain (node_next fl) h (xs @ ys)" "distinct (xs @ ys)" "p \<notin> set xs"
    "prev = (if xs = [] then None else Some (last xs))" "node = (if ys = [] then None else Some (hd ys))"
    "h = list_heads fl ! i" "i < length (list_heads fl)"
  shows "\<exists>fl'. find_from fl i p prev node = Some (p \<in> set ys, fl') \<and>
           (p \<notin> set ys \<longrightarrow> fl' = fl) \<and> size_classes fl' = size_classes fl \<and>
           chain (node_next fl') (list_heads fl' ! i) (remove1 p (xs @ ys)) \<and>
           length (list_heads fl') = length (list_heads fl) \<and>
           (\<forall>j. j \<noteq> i \<longrightarrow> list_heads fl' ! j = list_heads fl ! j) \<and> (\<forall>q. q \<notin> set (xs @ ys) \<longrightarrow> node_next fl' q = node_next fl q)"
  using assms
proof (induction ys arbitrary: xs prev node)
  case Nil
  then show ?case by (simp add: find_from.simps remove1_idem)
next
  case (Cons y ys)
  show ?case
  proof (cases "y = p")
    case False
    have "chain (node_next fl) h ((xs @ [y]) @ ys)" "distinct ((xs @ [y]) @ ys)" "p \<notin> set (xs @ [y])" using Cons.prems False by auto
    from Cons.IH [OF this refl refl Cons.prems(6,7)]
    have "\<exists>fl'. find_from fl i p (Some y) (if ys = [] then None else Some (hd ys)) = Some (p \<in> set ys, fl') \<and>
           (p \<notin> set ys \<longrightarrow> fl' = fl) \<and> size_classes fl' = size_classes fl \<and>
           chain (node_next fl') (list_heads fl' ! i) (remove1 p (xs @ y # ys)) \<and>
           length (list_heads fl') = length (list_heads fl) \<and>
           (\<forall>j. j \<noteq> i \<longrightarrow> list_heads fl' ! j = list_heads fl ! j) \<and> (\<forall>q. q \<notin> set (xs @ y # ys) \<longrightarrow> node_next fl' q = node_next fl q)"
      by simp
    moreover have "node_next fl y = (if ys = [] then None else Some (hd ys))"
    proof -
      have "chain (node_next fl) h (xs @ y # ys) \<Longrightarrow> ?thesis" for h
        by (induction xs arbitrary: h) (cases ys; auto)+
      then show ?thesis using Cons.prems(1) by blast
    qed
    ultimately show ?thesis using Cons.prems(5) False by (subst find_from.simps) simp
  next
    case True
    have "chain (node_next fl) h (xs @ p # ys) \<Longrightarrow> distinct (xs @ p # ys) \<Longrightarrow> xs \<noteq> [] \<Longrightarrow>
            chain ((node_next fl)(last xs := node_next fl p)) h (xs @ ys)" for h xs
    proof (induction xs arbitrary: h)
      case (Cons x xs)
      then show ?case by (cases xs) (auto simp: chain_upd simp del: fun_upd_apply, auto)
    qed simp
    then show ?thesis
      using Cons.prems True by (subst find_from.simps) (auto simp: remove1_append)
  qed
qed

lemma find_and_remove_rep:
  assumes rep: "fl_rep fl ls" and i: "size_class_smaller_than fl sz = Some i"
  shows "\<exists>fl'. find_and_remove fl p sz = Some (p \<in> set (ls ! i), fl') \<and>
           fl_rep fl' (ls[i := remove1 p (ls ! i)]) \<and> size_classes fl' = size_classes fl"
proof -
  have il: "i < length ls" "i < length (list_heads fl)" using class_smaller [OF i] rep by (auto simp: fl_rep_def)
  note ch = fl_rep_head [OF rep il(1)] and d = fl_rep_distinct [OF rep il(1)]
  have "list_heads fl ! i = (if ls ! i = [] then None else Some (hd (ls ! i)))" using ch by (cases "ls ! i") auto
  from find_from_chain [of fl "list_heads fl ! i" "[]" "ls ! i" p None, OF _ _ _ _ this refl il(2)] ch d
  obtain fl' where fl': "find_from fl i p None (list_heads fl ! i) = Some (p \<in> set (ls ! i), fl')"
    "size_classes fl' = size_classes fl" "chain (node_next fl') (list_heads fl' ! i) (remove1 p (ls ! i))"
    "length (list_heads fl') = length (list_heads fl)" "\<And>j. j \<noteq> i \<Longrightarrow> list_heads fl' ! j = list_heads fl ! j"
    "\<And>q. q \<notin> set (ls ! i) \<Longrightarrow> node_next fl' q = node_next fl q"
    by auto
  have chain_cong: "chain nx h xs \<Longrightarrow> (\<And>q. q \<in> set xs \<Longrightarrow> nx' q = nx q) \<Longrightarrow> chain nx' h xs" for nx nx' h xs
    by (induction xs arbitrary: h) auto
  have "distinct (concat (ls[i := remove1 p (ls ! i)]))"
    using rep d by (intro concat_update_mem(1) [OF il(1)]) (auto simp: fl_rep_def dest: notin_set_remove1)
  moreover have "chain (node_next fl') (list_heads fl' ! j) (ls ! j)" if "j < length ls" "j \<noteq> i" for j
  proof -
    have "node_next fl' q = node_next fl q" if "q \<in> set (ls ! j)" for q
      using fl'(6) distinct_concat_nth [of ls i j q] rep il(1) \<open>j < length ls\<close> \<open>j \<noteq> i\<close> that by (auto simp: fl_rep_def)
    then show ?thesis using chain_cong fl_rep_head [OF rep that(1)] fl'(5) [OF that(2)] by metis
  qed
  ultimately have "fl_rep fl' (ls[i := remove1 p (ls ! i)])"
    using rep fl' il by (auto simp: fl_rep_def nth_list_update)
  then show ?thesis using fl'(1,2) i by (simp add: find_and_remove_def)
qed

section \<open>The contract of the free list\<close>

text \<open>
  What the circular buffer relies on: a pool of blocks, each filed under the size class
  \<open>filed\<close> of its size and fetched from the class \<open>wanted\<close> of a request. The pool's contents are
  a set of addresses, and the block sizes are given by the owner of the memory.
\<close>

locale block_pool =
  fixes rep :: "'p \<Rightarrow> nat list list \<Rightarrow> bool"
    and classes :: "'p \<Rightarrow> nat list"
    and wanted filed :: "'p \<Rightarrow> nat \<Rightarrow> nat option"
    and take_block :: "'p \<Rightarrow> nat \<Rightarrow> (nat option \<times> 'p) option"
    and give_block :: "'p \<Rightarrow> nat \<Rightarrow> nat \<Rightarrow> (('e + unit) \<times> 'p) option"
    and find_block :: "'p \<Rightarrow> nat \<Rightarrow> nat \<Rightarrow> (bool \<times> 'p) option"
  assumes rep_length: "rep f ls \<Longrightarrow> length ls = length (classes f)"
    and rep_distinct: "rep f ls \<Longrightarrow> distinct (concat ls)"
    and wanted_bound: "wanted f n = Some i \<Longrightarrow> i < length (classes f) \<and> n \<le> classes f ! i"
    and filed_bound: "filed f n = Some i \<Longrightarrow> i < length (classes f) \<and> classes f ! i \<le> n"
    and filed_classes: "classes f = classes f' \<Longrightarrow> filed f n = filed f' n"
    and take_law: "rep f ls \<Longrightarrow> wanted f n = Some i \<Longrightarrow>
      (case ls ! i of
         [] \<Rightarrow> take_block f n = Some (None, f)
       | p # ps \<Rightarrow> \<exists>f'. take_block f n = Some (Some p, f') \<and> rep f' (ls[i := ps]) \<and> classes f' = classes f)"
    and give_law: "rep f ls \<Longrightarrow> filed f n = Some i \<Longrightarrow> p \<notin> set (concat ls) \<Longrightarrow>
      \<exists>f'. give_block f p n = Some (Inr (), f') \<and> rep f' (ls[i := p # ls ! i]) \<and> classes f' = classes f"
    and find_law: "rep f ls \<Longrightarrow> filed f n = Some i \<Longrightarrow>
      \<exists>f'. find_block f p n = Some (p \<in> set (ls ! i), f') \<and> rep f' (ls[i := remove1 p (ls ! i)]) \<and> classes f' = classes f"
begin

text \<open>The pool holds exactly the addresses \<open>P\<close>, each in the class of its size.\<close>

definition holds :: "'p \<Rightarrow> (nat \<Rightarrow> nat) \<Rightarrow> nat set \<Rightarrow> bool" where
  "holds f sz P \<longleftrightarrow> (\<exists>ls. rep f ls \<and> set (concat ls) = P \<and>
     (\<forall>i<length ls. \<forall>p\<in>set (ls ! i). filed f (sz p) = Some i))"

lemma holds_filed: "holds f sz P \<Longrightarrow> p \<in> P \<Longrightarrow> \<exists>i. filed f (sz p) = Some i"
  unfolding holds_def by (auto dest!: in_set_conv_nth [THEN iffD1])

lemma holds_cong: "holds f sz P \<Longrightarrow> (\<And>p. p \<in> P \<Longrightarrow> sz' p = sz p) \<Longrightarrow> holds f sz' P"
  unfolding holds_def by (metis (no_types, lifting) UN_I nth_mem set_concat)

lemma holds_take:
  assumes "holds f sz P" "wanted f n = Some i"
  shows "(\<exists>f'. take_block f n = Some (None, f')  \<and> f' = f) \<or>
    (\<exists>p f'. take_block f n = Some (Some p, f') \<and> p \<in> P \<and> n \<le> sz p \<and> holds f' sz (P - {p}) \<and> classes f' = classes f)"
proof -
  obtain ls where ls: "rep f ls" "set (concat ls) = P" "\<And>i p. i < length ls \<Longrightarrow> p \<in> set (ls ! i) \<Longrightarrow> filed f (sz p) = Some i"
    using assms(1) unfolding holds_def by blast
  note i = wanted_bound [OF assms(2)]
  have il: "i < length ls" using i rep_length [OF ls(1)] by simp
  note d = rep_distinct [OF ls(1)]
  show ?thesis
  proof (cases "ls ! i")
    case Nil
    then show ?thesis using take_law [OF ls(1) assms(2)] by simp
  next
    case (Cons p ps)
    then obtain f' where f': "take_block f n = Some (Some p, f')" "rep f' (ls[i := ps])" "classes f' = classes f"
      using take_law [OF ls(1) assms(2)] by auto
    have "distinct (p # ps)" using d il Cons by (metis distinct_concat_iff nth_mem)
    then have "set (concat (ls[i := ps])) = P - {p}"
      using concat_update_mem(2) [OF il d, of ps] Cons ls(2) by auto
    moreover have "filed f' (sz q) = Some j" if "j < length ls" "q \<in> set (ls[i := ps] ! j)" for j q
      using ls(3) [OF that(1), of q] that(2) il Cons filed_classes [OF f'(3)]
      by (cases "j = i") auto
    ultimately have "holds f' sz (P - {p})" unfolding holds_def using f'(2) by auto
    moreover have "p \<in> P" using ls(2) il Cons nth_mem by fastforce
    moreover have "n \<le> sz p" using filed_bound [OF ls(3) [OF il, of p]] Cons i by simp
    ultimately show ?thesis using f'(1,3) by blast
  qed
qed

lemma holds_give:
  assumes "holds f sz P" "filed f (sz p) = Some i" "p \<notin> P"
  shows "\<exists>f'. give_block f p (sz p) = Some (Inr (), f') \<and> holds f' sz (insert p P) \<and> classes f' = classes f"
proof -
  obtain ls where ls: "rep f ls" "set (concat ls) = P" "\<And>i p. i < length ls \<Longrightarrow> p \<in> set (ls ! i) \<Longrightarrow> filed f (sz p) = Some i"
    using assms(1) unfolding holds_def by blast
  have il: "i < length ls" using filed_bound [OF assms(2)] rep_length [OF ls(1)] by simp
  obtain f' where f': "give_block f p (sz p) = Some (Inr (), f')" "rep f' (ls[i := p # ls ! i])" "classes f' = classes f"
    using give_law [OF ls(1) assms(2)] assms(3) ls(2) by auto
  have "set (ls ! i) \<subseteq> P" using ls(2) il nth_mem by fastforce
  then have "set (concat (ls[i := p # ls ! i])) = insert p P"
    using set_concat_update [OF il rep_distinct [OF ls(1)], of "p # ls ! i"] ls(2) by auto
  moreover have "filed f' (sz q) = Some j" if "j < length ls" "q \<in> set (ls[i := p # ls ! i] ! j)" for j q
    using ls(3) [OF that(1), of q] that(2) il assms(2) filed_classes [OF f'(3)] by (cases "j = i") auto
  ultimately have "holds f' sz (insert p P)" unfolding holds_def using f'(2) by auto
  then show ?thesis using f'(1,3) by blast
qed

lemma holds_find:
  assumes "holds f sz P" "filed f (sz p) = Some i"
  shows "\<exists>f'. find_block f p (sz p) = Some (p \<in> P, f') \<and> holds f' sz (P - {p}) \<and> classes f' = classes f"
proof -
  obtain ls where ls: "rep f ls" "set (concat ls) = P" "\<And>i p. i < length ls \<Longrightarrow> p \<in> set (ls ! i) \<Longrightarrow> filed f (sz p) = Some i"
    using assms(1) unfolding holds_def by blast
  note d = rep_distinct [OF ls(1)]
  have il: "i < length ls" using filed_bound [OF assms(2)] rep_length [OF ls(1)] by simp
  obtain f' where f': "find_block f p (sz p) = Some (p \<in> set (ls ! i), f')" "rep f' (ls[i := remove1 p (ls ! i)])" "classes f' = classes f"
    using find_law [OF ls(1) assms(2)] by blast
  have mem: "p \<in> P \<longleftrightarrow> p \<in> set (ls ! i)"
  proof
    assume "p \<in> P"
    then obtain j where "j < length ls" "p \<in> set (ls ! j)" using ls(2) by (auto dest!: in_set_conv_nth [of _ ls, THEN iffD1])
    then show "p \<in> set (ls ! i)" using ls(3) assms(2) by fastforce
  qed (use ls(2) il nth_mem in fastforce)
  have di: "distinct (ls ! i)" using d il by (metis distinct_concat_iff nth_mem)
  have "set (concat (ls[i := remove1 p (ls ! i)])) = P - {p}"
    using concat_update_mem(2) [OF il d, of "remove1 p (ls ! i)"] di mem ls(2) by auto
  moreover have "filed f' (sz q) = Some j" if "j < length ls" "q \<in> set (ls[i := remove1 p (ls ! i)] ! j)" for j q
    using ls(3) [OF that(1), of q] that(2) il di filed_classes [OF f'(3)] by (cases "j = i") auto
  ultimately have "holds f' sz (P - {p})" unfolding holds_def using f'(2) by auto
  then show ?thesis using f'(1,3) mem by auto
qed

end

text \<open>The code's free list is such a pool.\<close>

interpretation free_blocks: block_pool fl_rep size_classes size_class_larger_than size_class_smaller_than
  fl_remove "\<lambda>fl p n. fl_try_add fl p n False" find_and_remove
proof (unfold_locales, goal_cases)
  case (5 f f' n)
  then show ?case by (simp add: size_class_smaller_than_def)
qed (simp_all add: fl_rep_def [THEN iffD1] class_larger class_smaller fl_remove_rep fl_try_add_rep find_and_remove_rep)

text \<open>\<open>try_add\<close> fails without a change on contention and on a block below the smallest class.\<close>

lemma fl_try_add_fails:
  assumes "fl_rep fl ls" "size_classes fl \<noteq> []"
  shows "fl_try_add fl p n True = Some (Inl (if n < last (size_classes fl) then SizeTooSmall else FlWouldBlock), fl)"
    and "n < last (size_classes fl) \<Longrightarrow> fl_try_add fl p n c = Some (Inl SizeTooSmall, fl)"
  using class_smaller_some [of "last (size_classes fl)" fl n] assms(2) by (auto simp: fl_try_add_def)

end
