(* ===== verification/Circular_Buffer.thy ===== *)
theory Circular_Buffer
  imports Free_List
begin

text \<open>
  The circular buffer that holds the mini-pages (src/src/circular_buffer/mod.rs): the life cycle of
  a block, allocation, deallocation and eviction. A pointer is an offset into the buffer's memory;
  the \<^verbatim>\<open>AllocMeta\<close> headers are a map from offsets, the contents of the blocks belong to the caller. A
  failed assertion, a failed \<^verbatim>\<open>expect\<close>, an unexpected state and the use of a header that was never
  written are \<open>None\<close>.
\<close>

section \<open>The life cycle of a block\<close>

datatype meta_state = NotReady | Ready | Tombstone | BeginTombStone | FreeListed | Evicted

text \<open>\<^verbatim>\<open>compare_exchange\<close> on the state, with a panic on failure.\<close>

definition expect_state :: "meta_state \<Rightarrow> meta_state \<Rightarrow> meta_state \<Rightarrow> meta_state option" where
  "expect_state old new s = (if s = old then Some new else None)"

definition to_ready :: "meta_state \<Rightarrow> meta_state option" where
  "to_ready = expect_state NotReady Ready"

definition try_begin_tombstone :: "meta_state \<Rightarrow> bool \<times> meta_state" where
  "try_begin_tombstone s = (if s = Ready then (True, BeginTombStone) else (False, s))"

definition revert_to_ready :: "meta_state \<Rightarrow> meta_state option" where
  "revert_to_ready = expect_state BeginTombStone Ready"

definition free_list_to_tombstone :: "meta_state \<Rightarrow> meta_state option" where
  "free_list_to_tombstone = expect_state FreeListed Tombstone"

definition to_freelist :: "meta_state \<Rightarrow> meta_state option" where
  "to_freelist = expect_state BeginTombStone FreeListed"

definition to_tombstone :: "meta_state \<Rightarrow> meta_state option" where
  "to_tombstone = expect_state BeginTombStone Tombstone"

definition tombstone_to_evicted :: "meta_state \<Rightarrow> meta_state option" where
  "tombstone_to_evicted = expect_state Tombstone Evicted"

section \<open>The buffer\<close>

record alloc_meta =
  block_size :: nat
  meta_state :: meta_state

definition CB_ALLOC_META_SIZE :: nat where
  "CB_ALLOC_META_SIZE = 8"

definition as_u32 :: "nat \<Rightarrow> nat" where
  "as_u32 n = n mod 2 ^ 32"

definition alloc_meta_new :: "nat \<Rightarrow> bool \<Rightarrow> alloc_meta" where
  "alloc_meta_new sz tombstone = \<lparr>block_size = sz, meta_state = (if tombstone then Tombstone else NotReady)\<rparr>"

definition align_up :: "nat \<Rightarrow> nat \<Rightarrow> nat" where
  "align_up addr align = nat (int (addr + align - 1) AND NOT (int (align - 1)))"

datatype cb_error = Full | EmptyAlloc | WouldBlock

record circular_buffer =
  head_addr :: nat
  evicting_addr :: nat
  tail_addr :: nat
  capacity :: nat
  metas :: "nat \<Rightarrow> alloc_meta option"
  free_list :: free_list
  copy_on_access_threshold :: nat

text \<open>\<^verbatim>\<open>CircularBuffer::new\<close>; the threshold is computed in floating point and is an argument here, and
  so are the size classes of \<^verbatim>\<open>FreeList::new\<close>.\<close>

definition cb_new :: "nat \<Rightarrow> nat \<Rightarrow> nat \<Rightarrow> nat list \<Rightarrow> circular_buffer option" where
  "cb_new cap threshold leaf_page_size classes =
     (if \<not> (0 < cap \<and> cap AND (cap - 1) = 0) then None
      else if \<not> leaf_page_size + CB_ALLOC_META_SIZE \<le> cap then None
      else Some \<lparr>head_addr = 0, evicting_addr = 0, tail_addr = 0, capacity = cap, metas = (\<lambda>_. None),
                 free_list = free_list_new classes, copy_on_access_threshold = threshold\<rparr>)"

definition logical_to_physical :: "circular_buffer \<Rightarrow> nat \<Rightarrow> nat" where
  "logical_to_physical cb addr = addr AND (capacity cb - 1)"

definition get_meta :: "circular_buffer \<Rightarrow> nat \<Rightarrow> alloc_meta option" where
  "get_meta cb addr = metas cb (logical_to_physical cb addr)"

definition get_meta_from_data_ptr :: "circular_buffer \<Rightarrow> nat \<Rightarrow> alloc_meta option" where
  "get_meta_from_data_ptr cb ptr = metas cb (ptr - CB_ALLOC_META_SIZE)"

text \<open>Apply a transition of the life cycle to the header of a block.\<close>

definition with_state :: "(meta_state \<Rightarrow> meta_state option) \<Rightarrow> circular_buffer \<Rightarrow> nat \<Rightarrow> circular_buffer option" where
  "with_state f cb ptr =
     do { m \<leftarrow> get_meta_from_data_ptr cb ptr;
          s \<leftarrow> f (meta_state m);
          Some (cb\<lparr>metas := (metas cb)(ptr - CB_ALLOC_META_SIZE \<mapsto> m\<lparr>meta_state := s\<rparr>)\<rparr>) }"

definition distance_to_tail :: "circular_buffer \<Rightarrow> nat \<Rightarrow> nat" where
  "distance_to_tail cb ptr =
     (let tail_ptr = logical_to_physical cb (tail_addr cb)
      in if tail_ptr \<ge> ptr then tail_ptr - ptr else capacity cb - (ptr - tail_ptr))"

definition ptr_is_copy_on_access :: "circular_buffer \<Rightarrow> nat \<Rightarrow> bool" where
  "ptr_is_copy_on_access cb ptr \<longleftrightarrow> distance_to_tail cb ptr \<ge> copy_on_access_threshold cb"

subsection \<open>Allocation\<close>

text \<open>
  The loop over the free list. The compare-exchange of a block that was just taken from its list
  succeeds exactly when the block is still \<open>FreeListed\<close>.
\<close>

partial_function (option) alloc_from_free_list ::
  "circular_buffer \<Rightarrow> nat \<Rightarrow> (nat option \<times> circular_buffer) option" where
  "alloc_from_free_list cb sz =
     do { (taken, fl) \<leftarrow> fl_remove (free_list cb) sz;
          case taken of
            None \<Rightarrow> Some (None, cb)
          | Some ptr \<Rightarrow>
              do { let cb = cb\<lparr>free_list := fl\<rparr>;
                   old_meta \<leftarrow> get_meta_from_data_ptr cb ptr;
                   if ptr_is_copy_on_access cb ptr then
                     do { cb \<leftarrow> with_state free_list_to_tombstone cb ptr;
                          alloc_from_free_list cb sz }
                   else if \<not> sz \<le> block_size old_meta then None
                   else if meta_state old_meta = FreeListed then
                     do { cb \<leftarrow> with_state (\<lambda>_. Some NotReady) cb ptr;
                          Some (Some ptr, cb) }
                   else alloc_from_free_list cb sz } }"

definition physical_remaining :: "circular_buffer \<Rightarrow> nat" where
  "physical_remaining cb = capacity cb - (tail_addr cb AND (capacity cb - 1))"

definition logical_remaining :: "circular_buffer \<Rightarrow> nat" where
  "logical_remaining cb = capacity cb - (tail_addr cb - head_addr cb)"

definition alloc_required :: "nat \<Rightarrow> nat" where
  "alloc_required sz = align_up sz CB_ALLOC_META_SIZE + CB_ALLOC_META_SIZE"

text \<open>The tombstone that fills the rest of the physical buffer.\<close>

definition fill_to_end :: "circular_buffer \<Rightarrow> circular_buffer option" where
  "fill_to_end cb =
     (if \<not> CB_ALLOC_META_SIZE \<le> physical_remaining cb then None
      else Some (cb\<lparr>metas := (metas cb)(logical_to_physical cb (tail_addr cb) \<mapsto>
                      alloc_meta_new (as_u32 (physical_remaining cb - CB_ALLOC_META_SIZE)) True),
                   tail_addr := tail_addr cb + physical_remaining cb\<rparr>))"

definition alloc_at_tail :: "circular_buffer \<Rightarrow> nat \<Rightarrow> nat \<times> circular_buffer" where
  "alloc_at_tail cb sz =
     (logical_to_physical cb (tail_addr cb + CB_ALLOC_META_SIZE),
      cb\<lparr>metas := (metas cb)(logical_to_physical cb (tail_addr cb) \<mapsto>
           alloc_meta_new (as_u32 (align_up sz CB_ALLOC_META_SIZE)) False),
         tail_addr := tail_addr cb + alloc_required sz\<rparr>)"

partial_function (option) cb_alloc :: "circular_buffer \<Rightarrow> nat \<Rightarrow> ((cb_error + nat) \<times> circular_buffer) option" where
  "cb_alloc cb sz =
     (if sz = 0 then Some (Inl EmptyAlloc, cb)
      else if size_classes (free_list cb) = [] \<or> \<not> last (size_classes (free_list cb)) \<le> sz then None
      else do {
        (reused, cb) \<leftarrow> alloc_from_free_list cb sz;
        case reused of
          Some ptr \<Rightarrow> Some (Inr ptr, cb)
        | None \<Rightarrow>
            if logical_remaining cb < alloc_required sz then Some (Inl Full, cb)
            else if physical_remaining cb < alloc_required sz then
              do { cb \<leftarrow> fill_to_end cb; cb_alloc cb sz }
            else (case alloc_at_tail cb sz of (ptr, cb) \<Rightarrow> Some (Inr ptr, cb))
      })"

text \<open>Dropping the \<^verbatim>\<open>CircularBufferPtr\<close> of an allocation.\<close>

definition drop_ptr :: "circular_buffer \<Rightarrow> nat \<Rightarrow> circular_buffer option" where
  "drop_ptr = with_state to_ready"

subsection \<open>Deallocation\<close>

definition acquire_exclusive_dealloc_handle :: "circular_buffer \<Rightarrow> nat \<Rightarrow> ((cb_error + nat) \<times> circular_buffer) option" where
  "acquire_exclusive_dealloc_handle cb ptr =
     do { m \<leftarrow> get_meta_from_data_ptr cb ptr;
          case try_begin_tombstone (meta_state m) of
            (True, s) \<Rightarrow> do { cb \<leftarrow> with_state (\<lambda>_. Some s) cb ptr; Some (Inr ptr, cb) }
          | (False, _) \<Rightarrow> Some (Inl WouldBlock, cb) }"

text \<open>Dropping a \<^verbatim>\<open>TombstoneHandle\<close>.\<close>

definition drop_handle :: "circular_buffer \<Rightarrow> nat \<Rightarrow> circular_buffer option" where
  "drop_handle = with_state revert_to_ready"

text \<open>\<open>contended\<close>: whether \<^verbatim>\<open>try_lock\<close> on the free list of the block's class fails.\<close>

definition dealloc_inner :: "circular_buffer \<Rightarrow> nat \<Rightarrow> bool \<Rightarrow> bool \<Rightarrow> circular_buffer option" where
  "dealloc_inner cb ptr add_to_freelist contended =
     do { m \<leftarrow> get_meta_from_data_ptr cb ptr;
          if \<not> add_to_freelist \<or> ptr_is_copy_on_access cb ptr then with_state to_tombstone cb ptr
          else do {
            (added, fl) \<leftarrow> fl_try_add (free_list cb) ptr (block_size m) contended;
            case added of
              Inr _ \<Rightarrow> with_state to_freelist (cb\<lparr>free_list := fl\<rparr>) ptr
            | Inl _ \<Rightarrow> with_state to_tombstone cb ptr
          } }"

definition dealloc :: "circular_buffer \<Rightarrow> nat \<Rightarrow> bool \<Rightarrow> circular_buffer option" where
  "dealloc cb ptr contended = dealloc_inner cb ptr True contended"

definition check_ptr_is_ready :: "circular_buffer \<Rightarrow> nat \<Rightarrow> unit option" where
  "check_ptr_is_ready cb ptr =
     do { m \<leftarrow> get_meta_from_data_ptr cb ptr;
          if meta_state m = Ready then Some () else None }"

subsection \<open>Eviction\<close>

text \<open>\<^verbatim>\<open>evict_one\<close> first reserves the block at the evicting address, under the lock: \<open>Some None\<close> when
  there is no block left to evict.\<close>

definition evict_reserve :: "circular_buffer \<Rightarrow> ((nat \<times> nat) option \<times> circular_buffer) option" where
  "evict_reserve cb =
     (if evicting_addr cb = tail_addr cb then Some (None, cb)
      else do {
        m \<leftarrow> get_meta cb (evicting_addr cb);
        let advance = block_size m + CB_ALLOC_META_SIZE;
        Some (Some (evicting_addr cb, evicting_addr cb + advance),
              cb\<lparr>evicting_addr := evicting_addr cb + advance\<rparr>)
      })"

text \<open>One round of the loop of \<^verbatim>\<open>evict_one\<close> starts with \<open>acquire_exclusive_dealloc_handle\<close>. When the
  handle is not obtained, \<open>evict_refused\<close> looks at the state: \<open>True\<close> when the block is evicted.\<close>

definition evict_refused :: "circular_buffer \<Rightarrow> nat \<Rightarrow> (bool \<times> circular_buffer) option" where
  "evict_refused cb ptr =
     do { m \<leftarrow> get_meta_from_data_ptr cb ptr;
          if meta_state m = NotReady then Some (False, cb)
          else if meta_state m = Tombstone then
            do { cb \<leftarrow> with_state tombstone_to_evicted cb ptr; Some (True, cb) }
          else if meta_state m = FreeListed then
            do { (found, fl) \<leftarrow> find_and_remove (free_list cb) ptr (block_size m);
                 let cb = cb\<lparr>free_list := fl\<rparr>;
                 if found then
                   do { cb \<leftarrow> with_state free_list_to_tombstone cb ptr;
                        cb \<leftarrow> with_state tombstone_to_evicted cb ptr;
                        Some (True, cb) }
                 else Some (False, cb) }
          else Some (False, cb) }"

text \<open>The callback returned the handle: as \<^verbatim>\<open>Ok\<close> (the block is evicted) or as \<^verbatim>\<open>Err\<close> (retry).\<close>

definition evict_answer :: "circular_buffer \<Rightarrow> nat \<Rightarrow> bool \<Rightarrow> (bool \<times> circular_buffer) option" where
  "evict_answer cb ptr ok =
     (if ok then
        do { cb \<leftarrow> dealloc_inner cb ptr False False;
             cb \<leftarrow> with_state tombstone_to_evicted cb ptr;
             Some (True, cb) }
      else
        do { cb \<leftarrow> drop_handle cb ptr;
             Some (False, cb) })"

text \<open>The loop of \<^verbatim>\<open>try_bump_head_address_to_evicting_addr\<close>, with the head it reaches.\<close>

partial_function (option) bump_loop :: "circular_buffer \<Rightarrow> (bool \<times> circular_buffer) option" where
  "bump_loop cb =
     (if head_addr cb < evicting_addr cb then
        do { m \<leftarrow> get_meta cb (head_addr cb);
             if meta_state m \<noteq> Evicted then Some (False, cb)
             else bump_loop (cb\<lparr>head_addr := head_addr cb + (block_size m + CB_ALLOC_META_SIZE)\<rparr>) }
      else Some (True, cb))"

definition try_bump_head_address_to_evicting_addr :: "circular_buffer \<Rightarrow> ((cb_error + nat) \<times> circular_buffer) option" where
  "try_bump_head_address_to_evicting_addr cb =
     do { (reached, cb') \<leftarrow> bump_loop cb;
          if reached then Some (Inr (as_u32 (head_addr cb' - head_addr cb)), cb')
          else Some (Inl WouldBlock, cb') }"

text \<open>
  \<^verbatim>\<open>evict_one\<close> run to the end by one thread. The callback is a parameter with a state of its own; the
  loop does not return while the callback refuses the block.
\<close>

partial_function (option) evict_loop ::
  "('s \<Rightarrow> nat \<Rightarrow> bool \<times> 's) \<Rightarrow> 's \<Rightarrow> circular_buffer \<Rightarrow> nat \<Rightarrow> (circular_buffer \<times> 's) option" where
  "evict_loop callback s cb ptr =
     do { (h, cb) \<leftarrow> acquire_exclusive_dealloc_handle cb ptr;
          case h of
            Inr ptr \<Rightarrow>
              (case callback s ptr of (ok, s) \<Rightarrow>
                 do { (evicted, cb) \<leftarrow> evict_answer cb ptr ok;
                      if evicted then Some (cb, s) else evict_loop callback s cb ptr })
          | Inl _ \<Rightarrow>
              do { (evicted, cb) \<leftarrow> evict_refused cb ptr;
                   if evicted then Some (cb, s) else evict_loop callback s cb ptr } }"

definition evict_one ::
  "('s \<Rightarrow> nat \<Rightarrow> bool \<times> 's) \<Rightarrow> 's \<Rightarrow> circular_buffer \<Rightarrow> (nat option \<times> circular_buffer \<times> 's) option" where
  "evict_one callback s cb =
     do { (reserved, cb) \<leftarrow> evict_reserve cb;
          case reserved of
            None \<Rightarrow> Some (None, cb, s)
          | Some (start_addr, end_addr) \<Rightarrow>
              do { (cb, s) \<leftarrow> evict_loop callback s cb (logical_to_physical cb start_addr + CB_ALLOC_META_SIZE);
                   (_, cb) \<leftarrow> try_bump_head_address_to_evicting_addr cb;
                   Some (Some (as_u32 (end_addr - start_addr)), cb, s) } }"

text \<open>\<^verbatim>\<open>evict_n\<close>; the byte count is a 32-bit sum.\<close>

fun evict_n_from ::
  "nat \<Rightarrow> ('s \<Rightarrow> nat \<Rightarrow> bool \<times> 's) \<Rightarrow> 's \<Rightarrow> circular_buffer \<Rightarrow> nat \<Rightarrow> (nat \<times> circular_buffer \<times> 's) option" where
  "evict_n_from 0 callback s cb cur = Some (cur, cb, s)"
| "evict_n_from (Suc n) callback s cb cur =
     do { (evicted, cb, s) \<leftarrow> evict_one callback s cb;
          case evicted of
            None \<Rightarrow> Some (cur, cb, s)
          | Some v \<Rightarrow> evict_n_from n callback s cb (as_u32 (cur + v)) }"

definition evict_n ::
  "nat \<Rightarrow> ('s \<Rightarrow> nat \<Rightarrow> bool \<times> 's) \<Rightarrow> 's \<Rightarrow> circular_buffer \<Rightarrow> (nat \<times> circular_buffer \<times> 's) option" where
  "evict_n n callback s cb = evict_n_from n callback s cb 0"

partial_function (option) evict_all ::
  "('s \<Rightarrow> nat \<Rightarrow> bool \<times> 's) \<Rightarrow> 's \<Rightarrow> circular_buffer \<Rightarrow> (circular_buffer \<times> 's) option" where
  "evict_all callback s cb =
     do { (evicted, cb, s) \<leftarrow> evict_one callback s cb;
          case evicted of None \<Rightarrow> Some (cb, s) | Some _ \<Rightarrow> evict_all callback s cb }"

text \<open>\<^verbatim>\<open>drain\<close> run by one thread: with no other evictor the head is bumped at the first attempt or
  never, so a refusal is non-termination, \<open>None\<close>.\<close>

definition drain :: "('s \<Rightarrow> nat \<Rightarrow> bool \<times> 's) \<Rightarrow> 's \<Rightarrow> circular_buffer \<Rightarrow> (circular_buffer \<times> 's) option" where
  "drain callback s cb =
     do { (cb, s) \<leftarrow> evict_all callback s cb;
          (bumped, cb) \<leftarrow> try_bump_head_address_to_evicting_addr cb;
          case bumped of
            Inl _ \<Rightarrow> None
          | Inr _ \<Rightarrow>
              if evicting_addr cb = head_addr cb \<and> head_addr cb = tail_addr cb then Some (cb, s) else None }"

subsection \<open>The iterator over the allocated blocks\<close>

partial_function (option) alloc_iter :: "circular_buffer \<Rightarrow> nat \<Rightarrow> alloc_meta list option" where
  "alloc_iter cb addr =
     (if addr = tail_addr cb then Some []
      else do { m \<leftarrow> get_meta cb addr;
                ms \<leftarrow> alloc_iter cb (addr + (block_size m + CB_ALLOC_META_SIZE));
                Some (m # ms) })"

definition iter :: "circular_buffer \<Rightarrow> alloc_meta list option" where
  "iter cb = alloc_iter cb (head_addr cb)"

text \<open>The check of \<^verbatim>\<open>Drop for CircularBuffer\<close>.\<close>

definition drop_check :: "circular_buffer \<Rightarrow> unit option" where
  "drop_check cb =
     do { ms \<leftarrow> iter cb;
          if \<forall>m\<in>set ms. meta_state m = Tombstone \<or> meta_state m = FreeListed then Some () else None }"

subsection \<open>Metrics\<close>

record cb_metrics =
  m_capacity :: nat
  m_head_addr :: nat
  m_tail_addr :: nat
  m_evicting_addr :: nat
  head_tail_distance :: nat
  allocated_cnt :: nat
  not_ready_cnt :: nat
  ready_cnt :: nat
  tombstone_cnt :: nat
  tombstone_size :: nat
  begin_tombstone_cnt :: nat
  free_listed_cnt :: nat
  evicted_cnt :: nat
  size_cnt :: "nat \<Rightarrow> nat option"

definition metrics_new :: "circular_buffer \<Rightarrow> cb_metrics" where
  "metrics_new cb = \<lparr>m_capacity = capacity cb, m_head_addr = head_addr cb, m_tail_addr = tail_addr cb,
     m_evicting_addr = evicting_addr cb, head_tail_distance = tail_addr cb - head_addr cb,
     allocated_cnt = 0, not_ready_cnt = 0, ready_cnt = 0, tombstone_cnt = 0, tombstone_size = 0,
     begin_tombstone_cnt = 0, free_listed_cnt = 0, evicted_cnt = 0, size_cnt = (\<lambda>_. None)\<rparr>"

definition count_meta :: "alloc_meta \<Rightarrow> cb_metrics \<Rightarrow> cb_metrics" where
  "count_meta m c =
     (let c = (case meta_state m of
                 Ready \<Rightarrow> c\<lparr>ready_cnt := ready_cnt c + 1\<rparr>
               | NotReady \<Rightarrow> c\<lparr>not_ready_cnt := not_ready_cnt c + 1\<rparr>
               | Tombstone \<Rightarrow> c\<lparr>tombstone_cnt := tombstone_cnt c + 1, tombstone_size := tombstone_size c + block_size m\<rparr>
               | BeginTombStone \<Rightarrow> c\<lparr>begin_tombstone_cnt := begin_tombstone_cnt c + 1\<rparr>
               | FreeListed \<Rightarrow> c\<lparr>free_listed_cnt := free_listed_cnt c + 1\<rparr>
               | Evicted \<Rightarrow> c\<lparr>evicted_cnt := evicted_cnt c + 1\<rparr>)
      in c\<lparr>allocated_cnt := allocated_cnt c + 1,
           size_cnt := (size_cnt c)(block_size m \<mapsto> (case size_cnt c (block_size m) of Some v \<Rightarrow> v + 1 | None \<Rightarrow> 1))\<rparr>)"

definition get_metrics :: "circular_buffer \<Rightarrow> cb_metrics option" where
  "get_metrics cb = do { ms \<leftarrow> iter cb; Some (fold count_meta ms (metrics_new cb)) }"

end
