(* ===== verification/Buffer_Geometry.thy ===== *)
theory Buffer_Geometry
  imports Circular_Buffer
begin

text \<open>
  The geometry of the circular buffer: the logical addresses between head and tail are tiled by
  blocks, no block crosses the physical end of the buffer, and distinct blocks occupy disjoint
  physical memory.
\<close>

section \<open>Address arithmetic\<close>

lemma and_pow2_minus_1: "(a::nat) AND (2 ^ k - 1) = a mod 2 ^ k"
  by (simp add: take_bit_eq_mod [symmetric] take_bit_eq_mask mask_eq_exp_minus_1)

lemma power_of_two_test:
  assumes "0 < (x::nat)" "x AND (x - 1) = 0"
  shows "\<exists>k. x = 2 ^ k"
  using assms
proof (induction x rule: less_induct)
  case (less x)
  show ?case
  proof (cases "even x")
    case True
    then obtain y where y: "x = 2 * y" by blast
    have "y AND (y - 1) = 0"
    proof -
      have "x - 1 = 2 * (y - 1) + 1" using y less.prems(1) by simp
      then have "x AND (x - 1) = 2 * (y AND (y - 1))" using y by (subst and_rec) simp
      then show ?thesis using less.prems(2) by simp
    qed
    then obtain k where "y = 2 ^ k" using less.IH [of y] y less.prems(1) by auto
    then have "x = 2 ^ Suc k" using y by simp
    then show ?thesis ..
  next
    case False
    then obtain y where y: "x = 2 * y + 1" using oddE by blast
    have "x AND (x - 1) = 2 * y" using y by (subst and_rec) simp
    then have "x = 2 ^ 0" using less.prems(2) y by simp
    then show ?thesis ..
  qed
qed

lemma align_up_8: "align_up n 8 = (n + 7) div 8 * 8"
proof -
  have "int (n + 7) AND NOT (mask 3) = push_bit 3 (drop_bit 3 (int (n + 7)))"
    by (rule bit_eqI) (auto simp: bit_simps)
  also have "\<dots> = int ((n + 7) div 8 * 8)"
    by (simp add: push_bit_eq_mult drop_bit_eq_div zdiv_int [symmetric])
  finally show ?thesis by (simp add: align_up_def mask_eq_exp_minus_1 add.commute)
qed

lemma align_up_bounds: "n \<le> align_up n 8" "align_up n 8 < n + 8" "8 dvd align_up n 8"
  by (auto simp: align_up_8)

lemma mod_inj_window:
  assumes "h \<le> a" "a < h + c" "h \<le> b" "b < h + c" "a mod c = b mod (c::nat)"
  shows "a = b"
proof -
  have *: "x = y" if "x \<le> y" "y < x + c" "x mod c = y mod c" for x y
  proof -
    have "c dvd y - x" using that mod_eq_dvd_iff_nat [of x y c] by metis
    then have "y - x = 0" using that(1,2) dvd_imp_le [of c "y - x"] by linarith
    then show ?thesis using that(1) by simp
  qed
  show ?thesis
  proof (cases "a \<le> b")
    case True
    then show ?thesis using *[of a b] assms by linarith
  next
    case False
    then show ?thesis using *[of b a] assms by linarith
  qed
qed

lemma mod_apart:
  assumes "x + 8 + s \<le> y" "y + 8 + s' \<le> x + c" "0 < (c::nat)"
  shows "x mod c + 8 + s \<le> y mod c \<or> y mod c + 8 + s' \<le> x mod c"
proof -
  have "x div c \<le> y div c" using assms(1) by (intro div_le_mono) simp
  moreover have "y div c \<le> (x + c) div c" using assms(2) by (intro div_le_mono) simp
  ultimately consider "y div c = x div c" | "y div c = Suc (x div c)"
    using div_add_self2 [of c x] assms(3) by linarith
  then show ?thesis
  proof cases
    case 1
    have "x div c * c + x mod c = x" "x div c * c + y mod c = y" using div_mult_mod_eq 1 by metis+
    then show ?thesis using assms(1) by linarith
  next
    case 2
    have "x div c * c + x mod c = x" "x div c * c + c + y mod c = y"
      using div_mult_mod_eq [of x c] div_mult_mod_eq [of y c] unfolding 2 by (simp_all add: algebra_simps)
    then show ?thesis using assms(2) by linarith
  qed
qed

section \<open>Tilings\<close>

fun tiled :: "nat \<Rightarrow> (nat \<Rightarrow> alloc_meta option) \<Rightarrow> nat \<Rightarrow> nat list \<Rightarrow> nat \<Rightarrow> bool" where
  "tiled cap ms a [] b \<longleftrightarrow> a = b"
| "tiled cap ms a (x # xs) b \<longleftrightarrow> x = a \<and>
     (case ms (a mod cap) of
        None \<Rightarrow> False
      | Some m \<Rightarrow> 8 dvd block_size m \<and> a mod cap + 8 + block_size m \<le> cap \<and> tiled cap ms (a + 8 + block_size m) xs b)"

definition size_at :: "circular_buffer \<Rightarrow> nat \<Rightarrow> nat" where
  "size_at cb a = (case metas cb a of None \<Rightarrow> 0 | Some m \<Rightarrow> block_size m)"

definition state_at :: "circular_buffer \<Rightarrow> nat \<Rightarrow> meta_state option" where
  "state_at cb a = map_option meta_state (metas cb a)"

lemma tiled_append: "tiled c ms a (xs @ ys) b \<longleftrightarrow> (\<exists>d. tiled c ms a xs d \<and> tiled c ms d ys b)"
  by (induction xs arbitrary: a) (auto split: option.splits)

lemma tiled_le: "tiled c ms a xs b \<Longrightarrow> a \<le> b"
proof (induction xs arbitrary: a)
  case (Cons x xs)
  then show ?case by (fastforce split: option.splits)
qed simp

lemma tiled_mem:
  assumes "tiled c ms a xs b" "x \<in> set xs"
  shows "\<exists>m. ms (x mod c) = Some m \<and> 8 dvd block_size m \<and> x mod c + 8 + block_size m \<le> c \<and> a \<le> x \<and> x + 8 + block_size m \<le> b"
  using assms
proof (induction xs arbitrary: a)
  case (Cons y ys)
  obtain m where m: "ms (a mod c) = Some m" "8 dvd block_size m" "a mod c + 8 + block_size m \<le> c" "tiled c ms (a + 8 + block_size m) ys b" "y = a"
    using Cons.prems by (auto split: option.splits)
  show ?case
  proof (cases "x = y")
    case True
    then show ?thesis using m tiled_le [OF m(4)] by auto
  next
    case False
    then show ?thesis using Cons.IH [OF m(4)] Cons.prems(2) by fastforce
  qed
qed simp

lemma tiled_apart:
  assumes "tiled c ms a xs b" "x \<in> set xs" "y \<in> set xs" "x < y" "ms (x mod c) = Some m"
  shows "x + 8 + block_size m \<le> y"
  using assms
proof (induction xs arbitrary: a)
  case (Cons z zs)
  obtain m' where m': "ms (a mod c) = Some m'" "tiled c ms (a + 8 + block_size m') zs b" "z = a"
    using Cons.prems by (auto split: option.splits)
  have low: "a + 8 + block_size m' \<le> w" if "w \<in> set zs" for w using tiled_mem [OF m'(2) that] by blast
  show ?case
  proof (cases "x = z")
    case True
    then show ?thesis using low [of y] m' Cons.prems by auto
  next
    case False
    then have "x \<in> set zs" "y \<in> set zs" using Cons.prems low m'(3) by fastforce+
    then show ?thesis using Cons.IH [OF m'(2)] Cons.prems(4,5) by blast
  qed
qed simp

lemma tiled_cong:
  assumes "\<And>x. x \<in> set xs \<Longrightarrow> map_option block_size (ms' (x mod c)) = map_option block_size (ms (x mod c))"
  shows "tiled c ms' a xs b = tiled c ms a xs b"
  using assms
proof (induction xs arbitrary: a)
  case (Cons x xs)
  have "tiled c ms' d xs b = tiled c ms d xs b" for d using Cons by simp
  moreover have "map_option block_size (ms' (x mod c)) = map_option block_size (ms (x mod c))" using Cons.prems by simp
  ultimately show ?case by (cases "ms (x mod c)"; cases "ms' (x mod c)"; cases "x = a"; simp)
qed simp

lemma tiled_dvd: "tiled c ms a xs b \<Longrightarrow> 8 dvd a \<Longrightarrow> 8 dvd b"
proof (induction xs arbitrary: a)
  case (Cons x xs)
  obtain m where m: "8 dvd block_size m" "tiled c ms (a + 8 + block_size m) xs b" "ms (a mod c) = Some m"
    using Cons.prems(1) by (auto split: option.splits)
  then show ?case using Cons.IH [OF m(2)] Cons.prems(2) by (simp add: dvd_add_left_iff)
qed simp

lemma tiled_from:
  assumes "tiled c ms a xs b" "x \<in> set xs"
  shows "\<exists>ys. tiled c ms x ys b \<and> set ys \<subseteq> set xs \<and> hd ys = x \<and> ys \<noteq> []"
proof -
  obtain us vs where "xs = us @ x # vs" using assms(2) split_list by metis
  then have "tiled c ms x (x # vs) b" using assms(1) by (auto simp: tiled_append)
  then show ?thesis using \<open>xs = us @ x # vs\<close> by (intro exI [of _ "x # vs"]) auto
qed

lemma tiled_unique: "tiled c ms a xs b \<Longrightarrow> tiled c ms a ys b \<Longrightarrow> xs = ys"
proof (induction xs arbitrary: a ys)
  case Nil
  then show ?case using tiled_mem [of c ms a ys b "hd ys"] by (cases ys) auto
next
  case (Cons x xs)
  obtain m where m: "ms (a mod c) = Some m" "tiled c ms (a + 8 + block_size m) xs b" "x = a"
    using Cons.prems(1) by (auto split: option.splits)
  have "a \<noteq> b" using tiled_le [OF m(2)] by auto
  then obtain zs where "ys = a # zs" "tiled c ms (a + 8 + block_size m) zs b" using Cons.prems(2) m(1) by (cases ys) auto
  then show ?case using Cons.IH [OF m(2)] m(3) by simp
qed

end
