(* ===== verification/Buffer_Protocol.thy ===== *)
theory Buffer_Protocol
  imports Buffer_Geometry
begin

text \<open>
  The circular buffer under concurrent use: the operations of the buffer as steps on a buffer and
  the handles that threads hold, with the guards of the protocol (a handle is used once, an
  evictor acts on the block it reserved). The invariant of that system, that it rules out every
  panic, and that allocations are exclusive.
\<close>

section \<open>Blocks and their states\<close>

definition cb_geom :: "circular_buffer \<Rightarrow> nat list \<Rightarrow> bool" where
  "cb_geom cb bs \<longleftrightarrow> (\<exists>k\<ge>3. capacity cb = 2 ^ k) \<and> 8 dvd head_addr cb \<and>
     tiled (capacity cb) (metas cb) (head_addr cb) bs (tail_addr cb) \<and>
     tail_addr cb \<le> head_addr cb + capacity cb \<and> (evicting_addr cb \<in> set bs \<or> evicting_addr cb = tail_addr cb)"

definition data_ptr :: "circular_buffer \<Rightarrow> nat \<Rightarrow> nat" where
  "data_ptr cb a = a mod capacity cb + 8"

definition ptrs :: "circular_buffer \<Rightarrow> nat list \<Rightarrow> nat set" where
  "ptrs cb bs = data_ptr cb ` set bs"

definition ptrs_in :: "circular_buffer \<Rightarrow> nat list \<Rightarrow> meta_state \<Rightarrow> nat set" where
  "ptrs_in cb bs s = {p \<in> ptrs cb bs. state_at cb (p - 8) = Some s}"

definition below :: "circular_buffer \<Rightarrow> nat list \<Rightarrow> nat set" where
  "below cb bs = data_ptr cb ` {a \<in> set bs. a < evicting_addr cb}"

definition set_state :: "circular_buffer \<Rightarrow> nat \<Rightarrow> meta_state \<Rightarrow> circular_buffer" where
  "set_state cb p s = cb\<lparr>metas := (metas cb)(p - 8 := map_option (meta_state_update (\<lambda>_. s)) (metas cb (p - 8)))\<rparr>"

lemma data_ptr_cong [simp]:
  "data_ptr (cb\<lparr>metas := ms\<rparr>) = data_ptr cb" "data_ptr (cb\<lparr>free_list := fl\<rparr>) = data_ptr cb"
  "data_ptr (cb\<lparr>head_addr := h\<rparr>) = data_ptr cb" "data_ptr (cb\<lparr>tail_addr := h\<rparr>) = data_ptr cb"
  "data_ptr (cb\<lparr>evicting_addr := h\<rparr>) = data_ptr cb" "data_ptr (set_state cb p s) = data_ptr cb"
  by (auto simp: data_ptr_def fun_eq_iff set_state_def)

lemma set_state_simps [simp]:
  "head_addr (set_state cb p s) = head_addr cb" "tail_addr (set_state cb p s) = tail_addr cb"
  "evicting_addr (set_state cb p s) = evicting_addr cb" "capacity (set_state cb p s) = capacity cb"
  "free_list (set_state cb p s) = free_list cb"
  "copy_on_access_threshold (set_state cb p s) = copy_on_access_threshold cb"
  "size_at (set_state cb p s) = size_at cb"
  "set_state (cb\<lparr>free_list := fl\<rparr>) p s = (set_state cb p s)\<lparr>free_list := fl\<rparr>"
  by (auto simp: set_state_def size_at_def fun_eq_iff split: option.splits)

lemma set_state_twice [simp]: "set_state (set_state cb p s) p t = set_state cb p t"
  by (simp add: set_state_def option.map_comp comp_def)

lemma size_at_cong [simp]: "size_at (cb\<lparr>free_list := fl\<rparr>) = size_at cb" "size_at (cb\<lparr>evicting_addr := h\<rparr>) = size_at cb"
  "size_at (cb\<lparr>head_addr := h\<rparr>) = size_at cb"
  by (simp_all add: size_at_def fun_eq_iff)

lemma ptrs_cong [simp]:
  "ptrs (set_state cb p s) bs = ptrs cb bs" "ptrs (cb\<lparr>free_list := fl\<rparr>) bs = ptrs cb bs"
  "ptrs (cb\<lparr>evicting_addr := h\<rparr>) bs = ptrs cb bs" "ptrs (cb\<lparr>head_addr := h\<rparr>) bs = ptrs cb bs"
  "ptrs_in (cb\<lparr>free_list := fl\<rparr>) bs t = ptrs_in cb bs t" "ptrs_in (cb\<lparr>evicting_addr := h\<rparr>) bs t = ptrs_in cb bs t"
  "ptrs_in (cb\<lparr>head_addr := h\<rparr>) bs t = ptrs_in cb bs t"
  "below (set_state cb p s) bs = below cb bs" "below (cb\<lparr>free_list := fl\<rparr>) bs = below cb bs" "below (cb\<lparr>head_addr := h\<rparr>) bs = below cb bs"
  by (auto simp: ptrs_def ptrs_in_def below_def state_at_def)

lemma geom_free_list [simp]: "cb_geom (cb\<lparr>free_list := fl\<rparr>) bs = cb_geom cb bs"
  by (simp add: cb_geom_def)

lemma geom_set_state [simp]: "cb_geom (set_state cb p s) bs = cb_geom cb bs"
proof -
  have "tiled c (metas (set_state cb p s)) a bs b = tiled c (metas cb) a bs b" for c a b
    by (rule tiled_cong) (auto simp: set_state_def option.map_comp comp_def)
  then show ?thesis by (simp add: cb_geom_def)
qed

lemma ptr_meta:
  assumes "cb_geom cb bs" "p \<in> ptrs cb bs"
  shows "\<exists>m. metas cb (p - 8) = Some m \<and> state_at cb (p - 8) = Some (meta_state m) \<and> size_at cb (p - 8) = block_size m \<and>
    8 \<le> p \<and> p + block_size m \<le> capacity cb"
proof -
  obtain a where a: "a \<in> set bs" "p = a mod capacity cb + 8" using assms(2) by (auto simp: ptrs_def data_ptr_def)
  have "tiled (capacity cb) (metas cb) (head_addr cb) bs (tail_addr cb)" using assms(1) by (simp add: cb_geom_def)
  from tiled_mem [OF this a(1)] show ?thesis using a(2) by (auto simp: state_at_def size_at_def)
qed

lemma ptrs_in_set_state:
  assumes "cb_geom cb bs" "p \<in> ptrs cb bs"
  shows "ptrs_in (set_state cb p s) bs t = (if t = s then insert p (ptrs_in cb bs t) else ptrs_in cb bs t - {p})"
proof -
  obtain m where "metas cb (p - 8) = Some m" "8 \<le> p" using ptr_meta [OF assms] by blast
  moreover have "8 \<le> q" if "q \<in> ptrs cb bs" for q using that by (auto simp: ptrs_def data_ptr_def)
  ultimately have "state_at (set_state cb p s) (q - 8) = (if q = p then Some s else state_at cb (q - 8))" if "q \<in> ptrs cb bs" for q
    using that by (force simp: state_at_def set_state_def)
  then show ?thesis using assms(2) by (auto simp: ptrs_in_def split: if_splits)
qed

lemma ptrs_in_disjoint: "p \<in> ptrs_in cb bs s \<Longrightarrow> p \<in> ptrs_in cb bs t \<Longrightarrow> s = t"
  by (simp add: ptrs_in_def)

lemma ptrs_in_ptrs: "p \<in> ptrs_in cb bs s \<Longrightarrow> p \<in> ptrs cb bs"
  by (simp add: ptrs_in_def)

lemma ptrs_state: "cb_geom cb bs \<Longrightarrow> p \<in> ptrs cb bs \<Longrightarrow> \<exists>s. p \<in> ptrs_in cb bs s"
  using ptr_meta by (fastforce simp: ptrs_in_def)

lemma with_state_at:
  assumes "cb_geom cb bs" "p \<in> ptrs_in cb bs s"
  shows "with_state f cb p = map_option (set_state cb p) (f s)"
proof -
  obtain m where "metas cb (p - 8) = Some m" "meta_state m = s"
    using ptr_meta [OF assms(1) ptrs_in_ptrs [OF assms(2)]] assms(2) by (auto simp: ptrs_in_def)
  then show ?thesis
    by (cases "f s") (auto simp: with_state_def get_meta_from_data_ptr_def CB_ALLOC_META_SIZE_def set_state_def)
qed

lemma get_meta_ptr:
  assumes "cb_geom cb bs" "p \<in> ptrs_in cb bs s"
  shows "get_meta_from_data_ptr cb p = Some \<lparr>block_size = size_at cb (p - 8), meta_state = s\<rparr>"
  using ptr_meta [OF assms(1) ptrs_in_ptrs [OF assms(2)]] assms(2)
  by (auto simp: ptrs_in_def get_meta_from_data_ptr_def CB_ALLOC_META_SIZE_def)

lemma phys_mod: "cb_geom cb bs \<Longrightarrow> logical_to_physical cb a = a mod capacity cb"
  by (auto simp: cb_geom_def logical_to_physical_def and_pow2_minus_1 simp del: One_nat_def)

lemma blocks_window: "cb_geom cb bs \<Longrightarrow> a \<in> set bs \<Longrightarrow> head_addr cb \<le> a \<and> a < tail_addr cb \<and> a < head_addr cb + capacity cb"
  unfolding cb_geom_def by (auto dest!: tiled_mem)

lemma data_ptr_inj:
  assumes "cb_geom cb bs" shows "inj_on (data_ptr cb) (set bs)"
proof (rule inj_onI)
  fix x y assume "x \<in> set bs" "y \<in> set bs" "data_ptr cb x = data_ptr cb y"
  then show "x = y"
    using blocks_window [OF assms, of x] blocks_window [OF assms, of y] mod_inj_window [of "head_addr cb" x "capacity cb" y]
    by (simp add: data_ptr_def)
qed

lemma geom_dvd: "cb_geom cb bs \<Longrightarrow> 8 dvd tail_addr cb \<and> 8 dvd capacity cb"
proof -
  assume g: "cb_geom cb bs"
  then obtain k where "k \<ge> 3" "capacity cb = 2 ^ k" by (auto simp: cb_geom_def)
  then have "8 dvd capacity cb" using le_imp_power_dvd [of 3 k "2::nat"] by simp
  then show ?thesis using g tiled_dvd by (auto simp: cb_geom_def)
qed

text \<open>A new block at the tail.\<close>

definition push_block :: "circular_buffer \<Rightarrow> nat \<Rightarrow> meta_state \<Rightarrow> circular_buffer" where
  "push_block cb sz s = cb\<lparr>metas := (metas cb)(tail_addr cb mod capacity cb \<mapsto> \<lparr>block_size = sz, meta_state = s\<rparr>),
     tail_addr := tail_addr cb + (sz + 8)\<rparr>"

lemma push_block_simps [simp]:
  "head_addr (push_block cb n s) = head_addr cb" "evicting_addr (push_block cb n s) = evicting_addr cb"
  "capacity (push_block cb n s) = capacity cb" "free_list (push_block cb n s) = free_list cb"
  "tail_addr (push_block cb n s) = tail_addr cb + (n + 8)"
  "copy_on_access_threshold (push_block cb n s) = copy_on_access_threshold cb"
  "data_ptr (push_block cb n s) = data_ptr cb"
  by (auto simp: push_block_def data_ptr_def fun_eq_iff)

lemma push_block_geom:
  fixes s :: meta_state
  assumes g: "cb_geom cb bs" and n: "8 dvd n" "tail_addr cb mod capacity cb + 8 + n \<le> capacity cb"
    "tail_addr cb + 8 + n \<le> head_addr cb + capacity cb"
  defines "q \<equiv> data_ptr cb (tail_addr cb)" and "cb' \<equiv> push_block cb n s" and "bs' \<equiv> bs @ [tail_addr cb]"
  shows "cb_geom cb' bs'" "ptrs cb' bs' = insert q (ptrs cb bs)" "q \<notin> ptrs cb bs"
    "ptrs_in cb' bs' t = (if t = s then insert q (ptrs_in cb bs t) else ptrs_in cb bs t)"
    "below cb' bs' = below cb bs" "p \<in> ptrs cb bs \<Longrightarrow> size_at cb' (p - 8) = size_at cb (p - 8)" "size_at cb' (q - 8) = n"
proof -
  have neq: "a mod capacity cb \<noteq> tail_addr cb mod capacity cb" if "a \<in> set bs" for a
  proof
    assume "a mod capacity cb = tail_addr cb mod capacity cb"
    then have "a = tail_addr cb"
      using blocks_window [OF g that] n(3) by (intro mod_inj_window [of "head_addr cb" a "capacity cb"]) auto
    then show False using blocks_window [OF g that] by simp
  qed
  have t: "tiled (capacity cb) (metas cb') (head_addr cb) bs (tail_addr cb)"
    using g neq by (subst tiled_cong [where ms = "metas cb"]) (auto simp: cb_geom_def cb'_def push_block_def)
  then show "cb_geom cb' bs'"
    using g n by (auto simp: cb_geom_def cb'_def bs'_def tiled_append push_block_def)
  show "ptrs cb' bs' = insert q (ptrs cb bs)" by (simp add: ptrs_def bs'_def q_def cb'_def)
  show q: "q \<notin> ptrs cb bs" using neq by (simp add: ptrs_def q_def data_ptr_def image_iff) metis
  have same: "metas cb' (p - 8) = metas cb (p - 8)" if "p \<in> ptrs cb bs" for p
    using that neq by (auto simp: ptrs_def data_ptr_def cb'_def push_block_def)
  have new: "metas cb' (q - 8) = Some \<lparr>block_size = n, meta_state = s\<rparr>" by (simp add: q_def data_ptr_def cb'_def push_block_def)
  show "ptrs_in cb' bs' t = (if t = s then insert q (ptrs_in cb bs t) else ptrs_in cb bs t)"
    using same new q unfolding ptrs_in_def \<open>ptrs cb' bs' = _\<close> by (auto simp: state_at_def)
  have "evicting_addr cb \<le> tail_addr cb" using g blocks_window [OF g, of "evicting_addr cb"] by (auto simp: cb_geom_def)
  then show "below cb' bs' = below cb bs" by (auto simp: below_def cb'_def bs'_def)
  show "p \<in> ptrs cb bs \<Longrightarrow> size_at cb' (p - 8) = size_at cb (p - 8)" using same by (simp add: size_at_def)
  show "size_at cb' (q - 8) = n" using new by (simp add: size_at_def)
qed

section \<open>The concurrent system\<close>

text \<open>
  The buffer and the pointers in the hands of the threads: \<open>guards\<close> are the live \<^verbatim>\<open>CircularBufferPtr\<close>s,
  \<open>handles\<close> the \<^verbatim>\<open>TombstoneHandle\<close>s of callers of \<^verbatim>\<open>acquire_exclusive_dealloc_handle\<close>; an evictor that has
  reserved a block is in \<open>trying\<close> (between two attempts) or in \<open>holding\<close> (its callback is running).
\<close>

record world =
  buf :: circular_buffer
  guards :: "nat set"
  handles :: "nat set"
  trying :: "nat set"
  holding :: "nat set"

text \<open>The pointers to blocks between head and tail: those that \<open>unsafe\<close> callers may pass.\<close>

definition allocated :: "circular_buffer \<Rightarrow> nat \<Rightarrow> bool" where
  "allocated cb p \<longleftrightarrow> (\<exists>bs. tiled (capacity cb) (metas cb) (head_addr cb) bs (tail_addr cb) \<and> p \<in> ptrs cb bs)"

definition fits_classes :: "circular_buffer \<Rightarrow> nat \<Rightarrow> bool" where
  "fits_classes cb n \<longleftrightarrow> 0 < n \<and> last (size_classes (free_list cb)) \<le> n \<and> n \<le> hd (size_classes (free_list cb))"

inductive step :: "world \<Rightarrow> world \<Rightarrow> bool" where
  s_alloc: "fits_classes (buf w) n \<Longrightarrow> cb_alloc (buf w) n = Some (Inr p, cb) \<Longrightarrow>
     step w (w\<lparr>buf := cb, guards := insert p (guards w)\<rparr>)"
| s_alloc_err: "fits_classes (buf w) n \<Longrightarrow> cb_alloc (buf w) n = Some (Inl e, cb) \<Longrightarrow> step w (w\<lparr>buf := cb\<rparr>)"
| s_drop_ptr: "p \<in> guards w \<Longrightarrow> drop_ptr (buf w) p = Some cb \<Longrightarrow>
     step w (w\<lparr>buf := cb, guards := guards w - {p}\<rparr>)"
| s_acquire: "allocated (buf w) p \<Longrightarrow> acquire_exclusive_dealloc_handle (buf w) p = Some (Inr q, cb) \<Longrightarrow>
     step w (w\<lparr>buf := cb, handles := insert q (handles w)\<rparr>)"
| s_drop_handle: "p \<in> handles w \<Longrightarrow> drop_handle (buf w) p = Some cb \<Longrightarrow>
     step w (w\<lparr>buf := cb, handles := handles w - {p}\<rparr>)"
| s_dealloc: "p \<in> handles w \<Longrightarrow> dealloc (buf w) p c = Some cb \<Longrightarrow>
     step w (w\<lparr>buf := cb, handles := handles w - {p}\<rparr>)"
| s_reserve: "evict_reserve (buf w) = Some (Some (a, b), cb) \<Longrightarrow>
     step w (w\<lparr>buf := cb, trying := insert (data_ptr cb a) (trying w)\<rparr>)"
| s_evict_acquire: "p \<in> trying w \<Longrightarrow> acquire_exclusive_dealloc_handle (buf w) p = Some (Inr q, cb) \<Longrightarrow>
     step w (w\<lparr>buf := cb, trying := trying w - {p}, holding := insert q (holding w)\<rparr>)"
| s_evict_refused: "p \<in> trying w \<Longrightarrow> evict_refused (buf w) p = Some (evicted, cb) \<Longrightarrow>
     step w (w\<lparr>buf := cb, trying := trying w - (if evicted then {p} else {})\<rparr>)"
| s_evict_answer: "p \<in> holding w \<Longrightarrow> evict_answer (buf w) p ok = Some (evicted, cb) \<Longrightarrow>
     step w (w\<lparr>buf := cb, holding := holding w - {p}, trying := (if evicted then trying w else insert p (trying w))\<rparr>)"
| s_bump: "try_bump_head_address_to_evicting_addr (buf w) = Some (r, cb) \<Longrightarrow> step w (w\<lparr>buf := cb\<rparr>)"

inductive reachable :: "world \<Rightarrow> world \<Rightarrow> bool" for w0 where
  r_refl: "reachable w0 w0"
| r_step: "reachable w0 w \<Longrightarrow> step w w' \<Longrightarrow> reachable w0 w'"

definition world_init :: "circular_buffer \<Rightarrow> world" where
  "world_init cb = \<lparr>buf = cb, guards = {}, handles = {}, trying = {}, holding = {}\<rparr>"

section \<open>The invariant\<close>

definition pool_ok :: "circular_buffer \<Rightarrow> nat list \<Rightarrow> bool" where
  "pool_ok cb bs \<longleftrightarrow> size_classes (free_list cb) \<noteq> [] \<and> hd (size_classes (free_list cb)) + 16 \<le> 2 ^ 32 \<and>
     free_blocks.holds (free_list cb) (\<lambda>p. size_at cb (p - 8)) (ptrs_in cb bs FreeListed)"

definition world_inv :: "world \<Rightarrow> nat list \<Rightarrow> bool" where
  "world_inv w bs \<longleftrightarrow> cb_geom (buf w) bs \<and> pool_ok (buf w) bs \<and>
     guards w = ptrs_in (buf w) bs NotReady \<and>
     handles w \<inter> holding w = {} \<and> handles w \<union> holding w = ptrs_in (buf w) bs BeginTombStone \<and>
     trying w \<inter> holding w = {} \<and> trying w \<union> holding w = below (buf w) bs - ptrs_in (buf w) bs Evicted \<and>
     ptrs_in (buf w) bs Evicted \<subseteq> below (buf w) bs"

lemma world_inv_geom: "world_inv w bs \<Longrightarrow> cb_geom (buf w) bs"
  by (simp add: world_inv_def)

lemma below_ptrs: "below cb bs \<subseteq> ptrs cb bs"
  by (auto simp: below_def ptrs_def)

lemma ptrs_in_other: "p \<in> ptrs_in cb bs s \<Longrightarrow> s \<noteq> t \<Longrightarrow> p \<notin> ptrs_in cb bs t"
  by (simp add: ptrs_in_def)

lemma pool_ok_set_state:
  assumes "cb_geom cb bs" "pool_ok cb bs" "p \<in> ptrs_in cb bs s" "s \<noteq> FreeListed" "t \<noteq> FreeListed"
  shows "pool_ok (set_state cb p t) bs"
  using assms ptrs_in_other [OF assms(3,4)] by (simp add: pool_ok_def ptrs_in_set_state ptrs_in_ptrs)

lemma pool_ok_classes:
  assumes "pool_ok cb bs" "size_classes fl = size_classes (free_list cb)"
    "free_blocks.holds fl (\<lambda>p. size_at cb (p - 8)) (ptrs_in cb' bs FreeListed)"
    "free_list cb' = fl" "size_at cb' = size_at cb"
  shows "pool_ok cb' bs"
  using assms by (simp add: pool_ok_def)

lemma allocated_iff:
  assumes "cb_geom cb bs"
  shows "allocated cb p \<longleftrightarrow> p \<in> ptrs cb bs"
  using tiled_unique assms unfolding allocated_def cb_geom_def by blast

subsection \<open>Handles\<close>

text \<open>A block changes its state, neither to nor from \<open>FreeListed\<close> or \<open>Evicted\<close>.\<close>

lemma inv_move:
  assumes inv: "world_inv w bs" and p: "p \<in> ptrs_in (buf w) bs s"
    and s: "s \<notin> {FreeListed, Evicted}" "t \<notin> {FreeListed, Evicted}" "s \<noteq> t"
    and g: "guards w' = (guards w - {p}) \<union> (if t = NotReady then {p} else {})"
    and h: "handles w' \<inter> holding w' = {}" "handles w' \<union> holding w' = (handles w \<union> holding w - {p}) \<union> (if t = BeginTombStone then {p} else {})"
    and e: "trying w' \<inter> holding w' = {}" "trying w' \<union> holding w' = trying w \<union> holding w"
    and b: "buf w' = set_state (buf w) p t"
  shows "world_inv w' bs"
proof -
  have geom: "cb_geom (buf w) bs" using inv by (simp add: world_inv_def)
  have "pool_ok (buf w') bs"
    unfolding b using inv s by (intro pool_ok_set_state [OF geom _ p]) (auto simp: world_inv_def)
  moreover have "p \<notin> ptrs_in (buf w) bs Evicted" using ptrs_in_other [OF p] s(1) by blast
  ultimately show ?thesis
    using inv s g h e geom p ptrs_in_other [OF p] unfolding world_inv_def b
    by (auto simp: ptrs_in_set_state ptrs_in_ptrs)
qed

lemma inv_drop_ptr:
  assumes "world_inv w bs" "p \<in> guards w"
  shows "drop_ptr (buf w) p = Some (set_state (buf w) p Ready) \<and>
    world_inv (w\<lparr>buf := set_state (buf w) p Ready, guards := guards w - {p}\<rparr>) bs"
proof -
  have p: "p \<in> ptrs_in (buf w) bs NotReady" using assms by (auto simp: world_inv_def)
  have "p \<notin> handles w \<union> holding w" using assms ptrs_in_other [OF p] by (auto simp: world_inv_def)
  then have "world_inv (w\<lparr>buf := set_state (buf w) p Ready, guards := guards w - {p}\<rparr>) bs"
    using assms(1) by (intro inv_move [OF assms(1) p, of Ready]) (auto simp: world_inv_def)
  then show ?thesis
    by (simp add: drop_ptr_def with_state_at [OF world_inv_geom [OF assms(1)] p] to_ready_def expect_state_def)
qed

lemma acquire_at:
  assumes "cb_geom cb bs" "p \<in> ptrs_in cb bs s"
  shows "acquire_exclusive_dealloc_handle cb p = Some (if s = Ready then (Inr p, set_state cb p BeginTombStone) else (Inl WouldBlock, cb))"
  by (simp add: acquire_exclusive_dealloc_handle_def get_meta_ptr [OF assms] try_begin_tombstone_def with_state_at [OF assms])

lemma inv_acquire:
  assumes "world_inv w bs" "p \<in> ptrs_in (buf w) bs Ready"
  shows "world_inv (w\<lparr>buf := set_state (buf w) p BeginTombStone, handles := insert p (handles w)\<rparr>) bs"
proof -
  have "p \<notin> handles w \<union> holding w" using assms ptrs_in_other [OF assms(2)] by (auto simp: world_inv_def)
  moreover have "p \<notin> guards w" using assms ptrs_in_other [OF assms(2)] by (auto simp: world_inv_def)
  ultimately show ?thesis using assms(1)
    by (intro inv_move [OF assms, of BeginTombStone]) (auto simp: world_inv_def)
qed

lemma inv_evict_acquire:
  assumes "world_inv w bs" "p \<in> ptrs_in (buf w) bs Ready" "p \<in> trying w"
  shows "world_inv (w\<lparr>buf := set_state (buf w) p BeginTombStone, trying := trying w - {p}, holding := insert p (holding w)\<rparr>) bs"
proof -
  have "p \<notin> handles w \<union> holding w" using assms ptrs_in_other [OF assms(2)] by (auto simp: world_inv_def)
  moreover have "p \<notin> guards w" using assms ptrs_in_other [OF assms(2)] by (auto simp: world_inv_def)
  ultimately show ?thesis using assms(1,3)
    by (intro inv_move [OF assms(1,2), of BeginTombStone]) (auto simp: world_inv_def)
qed

lemma inv_drop_handle:
  assumes "world_inv w bs" "p \<in> handles w"
  shows "drop_handle (buf w) p = Some (set_state (buf w) p Ready) \<and>
    world_inv (w\<lparr>buf := set_state (buf w) p Ready, handles := handles w - {p}\<rparr>) bs"
proof -
  have p: "p \<in> ptrs_in (buf w) bs BeginTombStone" using assms by (auto simp: world_inv_def)
  have "p \<notin> guards w" "p \<notin> holding w" using assms ptrs_in_other [OF p] by (auto simp: world_inv_def)
  then have "world_inv (w\<lparr>buf := set_state (buf w) p Ready, handles := handles w - {p}\<rparr>) bs"
    using assms(1) by (intro inv_move [OF assms(1) p, of Ready]) (auto simp: world_inv_def)
  then show ?thesis
    by (simp add: drop_handle_def with_state_at [OF world_inv_geom [OF assms(1)] p] revert_to_ready_def expect_state_def)
qed

subsection \<open>Deallocation\<close>

lemma dealloc_cases:
  assumes geom: "cb_geom cb bs" and pool: "pool_ok cb bs" and p: "p \<in> ptrs_in cb bs BeginTombStone"
  shows "dealloc_inner cb p a c = Some (set_state cb p Tombstone) \<or>
    (\<exists>fl. a \<and> dealloc_inner cb p a c = Some ((set_state cb p FreeListed)\<lparr>free_list := fl\<rparr>) \<and>
       pool_ok ((set_state cb p FreeListed)\<lparr>free_list := fl\<rparr>) bs)"
proof -
  obtain ls where ls: "fl_rep (free_list cb) ls" using pool by (auto simp: pool_ok_def free_blocks.holds_def)
  have ne: "size_classes (free_list cb) \<noteq> []" using pool by (simp add: pool_ok_def)
  let ?n = "size_at cb (p - 8)"
  note simps = dealloc_inner_def get_meta_ptr [OF geom p] with_state_at [OF geom p] to_tombstone_def to_freelist_def expect_state_def
  have "p \<in> ptrs_in (cb\<lparr>free_list := fl\<rparr>) bs BeginTombStone" "cb_geom (cb\<lparr>free_list := fl\<rparr>) bs" for fl using p geom by simp_all
  note with_fl = with_state_at [OF this(2,1)]
  consider "\<not> a \<or> ptr_is_copy_on_access cb p" | "a" "\<not> ptr_is_copy_on_access cb p" "c \<or> ?n < last (size_classes (free_list cb))"
    | "a" "\<not> ptr_is_copy_on_access cb p" "\<not> c" "last (size_classes (free_list cb)) \<le> ?n" by fastforce
  then show ?thesis
  proof cases
    case 1
    then show ?thesis by (simp add: simps)
  next
    case 2
    then have "\<exists>e. fl_try_add (free_list cb) p ?n c = Some (Inl e, free_list cb)"
      using fl_try_add_fails [OF ls ne] by (cases c) auto
    then show ?thesis using 2(1,2) by (auto simp: simps)
  next
    case 3
    obtain i where i: "size_class_smaller_than (free_list cb) ?n = Some i"
      using class_smaller_some [of "last (size_classes (free_list cb))" "free_list cb" ?n] ne 3(4) by auto
    have "p \<notin> ptrs_in cb bs FreeListed" using ptrs_in_other [OF p] by blast
    with free_blocks.holds_give [of "free_list cb" "\<lambda>p. size_at cb (p - 8)" "ptrs_in cb bs FreeListed" p i] i pool
    obtain fl where fl: "fl_try_add (free_list cb) p ?n False = Some (Inr (), fl)"
      "free_blocks.holds fl (\<lambda>p. size_at cb (p - 8)) (insert p (ptrs_in cb bs FreeListed))" "size_classes fl = size_classes (free_list cb)"
      by (auto simp: pool_ok_def)
    have "pool_ok ((set_state cb p FreeListed)\<lparr>free_list := fl\<rparr>) bs"
      using fl by (intro pool_ok_classes [OF pool]) (auto simp: ptrs_in_set_state [OF geom ptrs_in_ptrs [OF p]])
    moreover have "dealloc_inner cb p a c = Some ((set_state cb p FreeListed)\<lparr>free_list := fl\<rparr>)"
      using 3 fl(1) by (simp add: simps with_fl)
    ultimately show ?thesis using 3(1) by blast
  qed
qed

lemma inv_dealloc:
  assumes inv: "world_inv w bs" and h: "p \<in> handles w"
  shows "\<exists>cb. dealloc (buf w) p c = Some cb \<and> world_inv (w\<lparr>buf := cb, handles := handles w - {p}\<rparr>) bs"
proof -
  have geom: "cb_geom (buf w) bs" and pool: "pool_ok (buf w) bs" and p: "p \<in> ptrs_in (buf w) bs BeginTombStone"
    using inv h by (auto simp: world_inv_def)
  have q: "p \<notin> guards w" "p \<notin> holding w" using inv h ptrs_in_other [OF p] by (auto simp: world_inv_def)
  from dealloc_cases [OF geom pool p, of True c] show ?thesis
  proof (elim disjE exE conjE)
    assume "dealloc_inner (buf w) p True c = Some (set_state (buf w) p Tombstone)"
    moreover have "world_inv (w\<lparr>buf := set_state (buf w) p Tombstone, handles := handles w - {p}\<rparr>) bs"
      using inv q by (intro inv_move [OF inv p, of Tombstone]) (auto simp: world_inv_def)
    ultimately show ?thesis by (simp add: dealloc_def)
  next
    fix fl
    assume d: "dealloc_inner (buf w) p True c = Some ((set_state (buf w) p FreeListed)\<lparr>free_list := fl\<rparr>)"
      and pool': "pool_ok ((set_state (buf w) p FreeListed)\<lparr>free_list := fl\<rparr>) bs"
    have "world_inv (w\<lparr>buf := (set_state (buf w) p FreeListed)\<lparr>free_list := fl\<rparr>, handles := handles w - {p}\<rparr>) bs"
      using inv q pool' geom ptrs_in_other [OF p] by (auto simp: world_inv_def ptrs_in_set_state ptrs_in_ptrs [OF p])
    then show ?thesis using d by (simp add: dealloc_def)
  qed
qed

subsection \<open>Eviction\<close>

text \<open>Only the header of the block at \<open>p\<close> and the free lists may change.\<close>

definition frame :: "nat \<Rightarrow> circular_buffer \<Rightarrow> circular_buffer \<Rightarrow> bool" where
  "frame p cb cb' \<longleftrightarrow> head_addr cb' = head_addr cb \<and> evicting_addr cb' = evicting_addr cb \<and> tail_addr cb' = tail_addr cb \<and>
     capacity cb' = capacity cb \<and> (\<forall>q. q \<noteq> p - 8 \<longrightarrow> metas cb' q = metas cb q)"

lemma frame_set_state [simp]: "frame p cb cb" "frame p cb (set_state cb p s)" "frame p cb ((set_state cb p s)\<lparr>free_list := fl\<rparr>)"
  by (simp_all add: frame_def set_state_def)

lemma inv_evict_refused:
  assumes inv: "world_inv w bs" and t: "p \<in> trying w"
  shows "\<exists>evicted cb. evict_refused (buf w) p = Some (evicted, cb) \<and> frame p (buf w) cb \<and>
    (evicted \<longleftrightarrow> p \<in> ptrs_in (buf w) bs Tombstone \<union> ptrs_in (buf w) bs FreeListed) \<and>
    world_inv (w\<lparr>buf := cb, trying := trying w - (if evicted then {p} else {})\<rparr>) bs"
proof -
  have geom: "cb_geom (buf w) bs" and pool: "pool_ok (buf w) bs" using inv by (auto simp: world_inv_def)
  have b: "p \<in> below (buf w) bs" "p \<notin> ptrs_in (buf w) bs Evicted" using inv t by (auto simp: world_inv_def)
  then obtain s where p: "p \<in> ptrs_in (buf w) bs s" using ptrs_state [OF geom] below_ptrs by blast
  have ns: "p \<notin> holding w" using inv t by (auto simp: world_inv_def)
  note simps = evict_refused_def get_meta_ptr [OF geom p] with_state_at [OF geom p] expect_state_def tombstone_to_evicted_def
  consider "s \<notin> {Tombstone, FreeListed}" | "s = Tombstone" | "s = FreeListed" by blast
  then show ?thesis
  proof cases
    case 1
    then have "evict_refused (buf w) p = Some (False, buf w)" by (auto simp: simps)
    moreover have "p \<notin> ptrs_in (buf w) bs Tombstone \<union> ptrs_in (buf w) bs FreeListed" using 1 ptrs_in_other [OF p] by blast
    ultimately show ?thesis using inv by (intro exI [of _ False] exI [of _ "buf w"]) simp
  next
    case 2
    have "pool_ok (set_state (buf w) p Evicted) bs" using pool_ok_set_state [OF geom pool p] 2 by blast
    then have "world_inv (w\<lparr>buf := set_state (buf w) p Evicted, trying := trying w - {p}\<rparr>) bs"
      using inv b ns geom p 2 ptrs_in_other [OF p] by (auto simp: world_inv_def ptrs_in_set_state ptrs_in_ptrs)
    moreover have "evict_refused (buf w) p = Some (True, set_state (buf w) p Evicted)" using 2 by (simp add: simps)
    ultimately show ?thesis using p unfolding 2 by (intro exI [of _ True] exI [of _ "set_state (buf w) p Evicted"]) simp
  next
    case 3
    let ?n = "size_at (buf w) (p - 8)"
    have pl: "free_blocks.holds (free_list (buf w)) (\<lambda>p. size_at (buf w) (p - 8)) (ptrs_in (buf w) bs FreeListed)"
      using pool by (simp add: pool_ok_def)
    obtain i where i: "size_class_smaller_than (free_list (buf w)) ?n = Some i"
      using free_blocks.holds_filed [OF pl, of p] p 3 by auto
    obtain fl where fl: "find_and_remove (free_list (buf w)) p ?n = Some (True, fl)"
      "free_blocks.holds fl (\<lambda>p. size_at (buf w) (p - 8)) (ptrs_in (buf w) bs FreeListed - {p})" "size_classes fl = size_classes (free_list (buf w))"
      using free_blocks.holds_find [OF pl, of p i] i p 3 by auto
    let ?cb = "(set_state (buf w) p Evicted)\<lparr>free_list := fl\<rparr>"
    have ev: "evict_refused (buf w) p = Some (True, ?cb)"
    proof -
      let ?c1 = "(buf w)\<lparr>free_list := fl\<rparr>" and ?c2 = "(set_state (buf w) p Tombstone)\<lparr>free_list := fl\<rparr>"
      have "with_state free_list_to_tombstone ?c1 p = Some ?c2"
        using with_state_at [of ?c1 bs p FreeListed] geom p 3 by (simp add: free_list_to_tombstone_def expect_state_def)
      moreover have "with_state tombstone_to_evicted ?c2 p = Some ?cb"
      proof -
        have "p \<in> ptrs_in ?c2 bs Tombstone" using p geom by (simp add: ptrs_in_set_state ptrs_in_ptrs)
        then show ?thesis using with_state_at [of ?c2 bs p Tombstone] geom by (simp add: tombstone_to_evicted_def expect_state_def)
      qed
      ultimately show ?thesis using fl(1) 3 by (simp add: evict_refused_def get_meta_ptr [OF geom p])
    qed
    have "pool_ok ?cb bs"
      using fl by (intro pool_ok_classes [OF pool]) (auto simp: ptrs_in_set_state [OF geom ptrs_in_ptrs [OF p]])
    then have "world_inv (w\<lparr>buf := ?cb, trying := trying w - {p}\<rparr>) bs"
      using inv b ns geom p 3 ptrs_in_other [OF p] by (auto simp: world_inv_def ptrs_in_set_state ptrs_in_ptrs)
    then show ?thesis using ev p unfolding 3 by (intro exI [of _ True] exI [of _ ?cb]) simp
  qed
qed

lemma inv_evict_answer:
  assumes inv: "world_inv w bs" and h: "p \<in> holding w"
  shows "\<exists>cb. evict_answer (buf w) p ok = Some (ok, cb) \<and> frame p (buf w) cb \<and>
    world_inv (w\<lparr>buf := cb, holding := holding w - {p}, trying := (if ok then trying w else insert p (trying w))\<rparr>) bs"
proof -
  have geom: "cb_geom (buf w) bs" and pool: "pool_ok (buf w) bs" and p: "p \<in> ptrs_in (buf w) bs BeginTombStone"
    using inv h by (auto simp: world_inv_def)
  have q: "p \<notin> guards w" "p \<notin> handles w" "p \<notin> trying w" "p \<in> below (buf w) bs"
    using inv h ptrs_in_other [OF p] by (auto simp: world_inv_def)
  show ?thesis
  proof (cases ok)
    case False
    have "world_inv (w\<lparr>buf := set_state (buf w) p Ready, holding := holding w - {p}, trying := insert p (trying w)\<rparr>) bs"
      using inv q h by (intro inv_move [OF inv p, of Ready]) (auto simp: world_inv_def)
    then show ?thesis using False
      by (simp add: evict_answer_def drop_handle_def with_state_at [OF geom p] revert_to_ready_def expect_state_def)
  next
    case True
    let ?c1 = "set_state (buf w) p Tombstone" and ?cb = "set_state (buf w) p Evicted"
    have "p \<in> ptrs_in ?c1 bs Tombstone" using p geom by (simp add: ptrs_in_set_state ptrs_in_ptrs)
    moreover have "dealloc_inner (buf w) p False False = Some ?c1"
      using dealloc_cases [OF geom pool p, of False False] by simp
    ultimately have "evict_answer (buf w) p True = Some (True, ?cb)"
      using with_state_at [of ?c1 bs p Tombstone] geom by (simp add: evict_answer_def tombstone_to_evicted_def expect_state_def)
    moreover have "pool_ok ?cb bs" using pool_ok_set_state [OF geom pool p] by blast
    then have "world_inv (w\<lparr>buf := ?cb, holding := holding w - {p}\<rparr>) bs"
      using inv q geom p ptrs_in_other [OF p] by (auto simp: world_inv_def ptrs_in_set_state ptrs_in_ptrs)
    ultimately show ?thesis using True by simp
  qed
qed

end
