(* ===== verification/Buffer_Safety.thy ===== *)
theory Buffer_Safety
  imports Buffer_Protocol
begin

text \<open>
  The rest of the invariant proof of the circular buffer (reserving, bumping the head,
  allocating), and the theorems about the concurrent system.
\<close>

section \<open>Reserving and bumping\<close>

lemma tiled_next:
  assumes "tiled c ms a xs b" "x \<in> set xs" "ms (x mod c) = Some m"
  shows "x + 8 + block_size m \<in> set xs \<or> x + 8 + block_size m = b"
proof -
  obtain us vs where xs: "xs = us @ x # vs" using assms(2) split_list by metis
  then have "tiled c ms (x + 8 + block_size m) vs b" using assms(1,3) by (auto simp: tiled_append)
  then show ?thesis using xs by (cases vs) auto
qed

lemma geom_block:
  assumes "cb_geom cb bs" "a \<in> set bs"
  shows "get_meta cb a = Some \<lparr>block_size = size_at cb (a mod capacity cb), meta_state = the (state_at cb (a mod capacity cb))\<rparr>"
    "metas cb (a mod capacity cb) \<noteq> None"
  using tiled_mem [of "capacity cb" "metas cb" "head_addr cb" bs "tail_addr cb" a] assms
  by (auto simp: get_meta_def phys_mod [OF assms(1)] size_at_def state_at_def cb_geom_def)

lemma inv_reserve:
  assumes inv: "world_inv w bs"
  shows "if evicting_addr (buf w) = tail_addr (buf w) then evict_reserve (buf w) = Some (None, buf w)
    else \<exists>b cb. evict_reserve (buf w) = Some (Some (evicting_addr (buf w), b), cb) \<and>
      world_inv (w\<lparr>buf := cb, trying := insert (data_ptr cb (evicting_addr (buf w))) (trying w)\<rparr>) bs"
proof (cases "evicting_addr (buf w) = tail_addr (buf w)")
  case True
  then show ?thesis by (simp add: evict_reserve_def)
next
  case False
  let ?a = "evicting_addr (buf w)" and ?cb = "buf w"
  have geom: "cb_geom ?cb bs" using inv by (rule world_inv_geom)
  have t: "tiled (capacity ?cb) (metas ?cb) (head_addr ?cb) bs (tail_addr ?cb)" and a: "?a \<in> set bs"
    using geom False by (auto simp: cb_geom_def)
  obtain m where m: "metas ?cb (?a mod capacity ?cb) = Some m" using geom_block(2) [OF geom a] by auto
  define b where "b = ?a + (block_size m + 8)"
  define cb where "cb = ?cb\<lparr>evicting_addr := b\<rparr>"
  have ev: "evict_reserve ?cb = Some (Some (?a, b), cb)"
    using False m by (simp add: evict_reserve_def get_meta_def phys_mod [OF geom] b_def cb_def CB_ALLOC_META_SIZE_def Let_def)
  have "b \<in> set bs \<or> b = tail_addr ?cb" using tiled_next [OF t a m] by (simp add: b_def algebra_simps)
  then have g': "cb_geom cb bs" using geom by (simp add: cb_def cb_geom_def)
  have "{x \<in> set bs. x < b} = insert ?a {x \<in> set bs. x < ?a}"
    using a tiled_apart [OF t a _ _ m] by (fastforce simp: b_def)
  then have below': "below cb bs = insert (data_ptr ?cb ?a) (below ?cb bs)" by (simp add: below_def cb_def)
  have new: "data_ptr ?cb ?a \<notin> below ?cb bs"
    using data_ptr_inj [OF geom] a by (fastforce simp: below_def inj_on_def)
  have "pool_ok cb bs" using inv by (simp add: world_inv_def pool_ok_def cb_def)
  moreover have "data_ptr ?cb ?a \<notin> holding w" "data_ptr ?cb ?a \<notin> ptrs_in ?cb bs Evicted"
    using inv new by (auto simp: world_inv_def)
  ultimately have "world_inv (w\<lparr>buf := cb, trying := insert (data_ptr cb ?a) (trying w)\<rparr>) bs"
    using inv g' below' by (auto simp: world_inv_def cb_def)
  then show ?thesis using ev False by auto
qed

lemma inv_pop:
  assumes inv: "world_inv w (a # bs)" and ev: "data_ptr (buf w) a \<in> ptrs_in (buf w) (a # bs) Evicted"
  shows "a = head_addr (buf w)"
    "world_inv (w\<lparr>buf := (buf w)\<lparr>head_addr := head_addr (buf w) + (size_at (buf w) (a mod capacity (buf w)) + 8)\<rparr>\<rparr>) bs"
proof -
  let ?cb = "buf w"
  have geom: "cb_geom ?cb (a # bs)" using inv by (rule world_inv_geom)
  have t: "tiled (capacity ?cb) (metas ?cb) (head_addr ?cb) (a # bs) (tail_addr ?cb)" using geom by (simp add: cb_geom_def)
  then obtain m where m: "metas ?cb (a mod capacity ?cb) = Some m" "a = head_addr ?cb" "8 dvd block_size m"
    "tiled (capacity ?cb) (metas ?cb) (a + (block_size m + 8)) bs (tail_addr ?cb)"
    by (auto split: option.splits simp: algebra_simps)
  show "a = head_addr ?cb" by (rule m(2))
  let ?cb' = "?cb\<lparr>head_addr := head_addr ?cb + (block_size m + 8)\<rparr>" and ?p = "data_ptr ?cb a"
  have "?p \<in> below ?cb (a # bs)" using inv ev by (auto simp: world_inv_def)
  then have lt: "a < evicting_addr ?cb"
    using data_ptr_inj [OF geom] by (auto simp: below_def inj_on_def)
  have "cb_geom ?cb' bs"
    using geom m lt by (auto simp: cb_geom_def)
  moreover have nin: "?p \<notin> ptrs ?cb bs"
    using data_ptr_inj [OF geom] tiled_mem [OF m(4), of a] by (fastforce simp: ptrs_def inj_on_def)
  have pin: "ptrs_in ?cb bs s = ptrs_in ?cb (a # bs) s - {?p}" for s
  proof -
    have "ptrs ?cb (a # bs) = insert ?p (ptrs ?cb bs)" by (simp add: ptrs_def)
    then show ?thesis using nin by (auto simp: ptrs_in_def)
  qed
  have "below ?cb bs = below ?cb (a # bs) - {?p}"
  proof -
    have "below ?cb (a # bs) = insert ?p (below ?cb bs)" using lt by (auto simp: below_def)
    then show ?thesis using nin below_ptrs by blast
  qed
  moreover have "s \<noteq> Evicted \<Longrightarrow> ptrs_in ?cb bs s = ptrs_in ?cb (a # bs) s" for s
    using pin ptrs_in_other [OF ev] by auto
  ultimately have "world_inv (w\<lparr>buf := ?cb'\<rparr>) bs"
    using inv pin [of Evicted] ev by (auto simp: world_inv_def pool_ok_def)
  then show "world_inv (w\<lparr>buf := ?cb\<lparr>head_addr := head_addr ?cb + (size_at ?cb (a mod capacity ?cb) + 8)\<rparr>\<rparr>) bs"
    using m(1) by (simp add: size_at_def)
qed

lemma inv_bump_loop:
  assumes "world_inv w bs"
  shows "\<exists>r cb bs'. bump_loop (buf w) = Some (r, cb) \<and> world_inv (w\<lparr>buf := cb\<rparr>) bs' \<and>
    (r \<longrightarrow> head_addr cb = evicting_addr (buf w)) \<and> head_addr (buf w) \<le> head_addr cb \<and>
    cb = (buf w)\<lparr>head_addr := head_addr cb\<rparr> \<and> (\<not> r \<longrightarrow> trying w \<union> holding w \<noteq> {})"
  using assms
proof (induction bs arbitrary: w)
  case Nil
  then have "evicting_addr (buf w) = tail_addr (buf w)" "head_addr (buf w) = tail_addr (buf w)"
    by (auto simp: world_inv_def cb_geom_def)
  then have "bump_loop (buf w) = Some (True, buf w)" by (simp add: bump_loop.simps)
  then show ?case using Nil \<open>evicting_addr (buf w) = _\<close> \<open>head_addr (buf w) = _\<close> by (intro exI [of _ True] exI [of _ "buf w"] exI [of _ "[]"]) auto
next
  case (Cons a bs)
  let ?cb = "buf w"
  have geom: "cb_geom ?cb (a # bs)" using Cons.prems by (rule world_inv_geom)
  have head: "head_addr ?cb = a" using geom by (auto simp: cb_geom_def)
  have "head_addr ?cb \<le> evicting_addr ?cb"
    using geom blocks_window [OF geom, of "evicting_addr ?cb"] blocks_window [OF geom, of a] by (auto simp: cb_geom_def)
  then consider "head_addr ?cb = evicting_addr ?cb" | "head_addr ?cb < evicting_addr ?cb" by linarith
  then show ?case
  proof cases
    case 1
    then have "bump_loop ?cb = Some (True, ?cb)" by (simp add: bump_loop.simps)
    then show ?thesis using Cons.prems 1 by (intro exI [of _ True] exI [of _ ?cb] exI [of _ "a # bs"]) auto
  next
    case 2
    have pa: "data_ptr ?cb a \<in> ptrs ?cb (a # bs)" by (simp add: ptrs_def)
    then obtain s where s: "data_ptr ?cb a \<in> ptrs_in ?cb (a # bs) s" using ptrs_state [OF geom] by blast
    then have gm: "get_meta ?cb a = Some \<lparr>block_size = size_at ?cb (a mod capacity ?cb), meta_state = s\<rparr>"
      using geom_block(1) [OF geom, of a] by (simp add: ptrs_in_def data_ptr_def)
    show ?thesis
    proof (cases "s = Evicted")
      case False
      then have "bump_loop ?cb = Some (False, ?cb)" using 2 gm head by (simp add: bump_loop.simps)
      moreover have "data_ptr ?cb a \<in> trying w \<union> holding w"
        using Cons.prems 2 head ptrs_in_other [OF s False] by (auto simp: world_inv_def below_def)
      ultimately show ?thesis using Cons.prems by (intro exI [of _ False] exI [of _ ?cb] exI [of _ "a # bs"]) auto
    next
      case True
      let ?cb1 = "?cb\<lparr>head_addr := head_addr ?cb + (size_at ?cb (a mod capacity ?cb) + 8)\<rparr>"
      have i1: "world_inv (w\<lparr>buf := ?cb1\<rparr>) bs" using inv_pop [OF Cons.prems] s True by blast
      have "bump_loop ?cb = bump_loop ?cb1"
        using 2 gm head True by (subst bump_loop.simps) (simp add: CB_ALLOC_META_SIZE_def)
      then show ?thesis using Cons.IH [OF i1] by (elim exE conjE) (intro exI conjI; (assumption | simp))
    qed
  qed
qed

section \<open>Allocation\<close>

text \<open>The pointers whose memory belongs to a caller.\<close>

definition live_in :: "circular_buffer \<Rightarrow> nat list \<Rightarrow> nat set" where
  "live_in cb bs = ptrs_in cb bs NotReady \<union> ptrs_in cb bs Ready \<union> ptrs_in cb bs BeginTombStone"

lemma live_other: "p \<in> ptrs_in cb bs s \<Longrightarrow> s \<notin> {NotReady, Ready, BeginTombStone} \<Longrightarrow> p \<notin> live_in cb bs"
  by (auto simp: live_in_def ptrs_in_def)

lemma live_set_state:
  assumes "cb_geom cb bs" "p \<in> ptrs_in cb bs FreeListed"
  shows "live_in (set_state cb p Tombstone) bs = live_in cb bs" "live_in (set_state cb p NotReady) bs = insert p (live_in cb bs)"
  using assms ptrs_in_other [OF assms(2)] by (auto simp: live_in_def ptrs_in_set_state ptrs_in_ptrs)

lemma live_free_list [simp]: "live_in (cb\<lparr>free_list := fl\<rparr>) bs = live_in cb bs"
  by (simp add: live_in_def)

text \<open>A block leaves the free list, for a tombstone or for a new allocation.\<close>

lemma inv_leave_free_list:
  assumes inv: "world_inv w bs" and p: "p \<in> ptrs_in (buf w) bs FreeListed" and s: "s \<in> {Tombstone, NotReady}"
    and fl: "free_blocks.holds fl (\<lambda>p. size_at (buf w) (p - 8)) (ptrs_in (buf w) bs FreeListed - {p})"
      "size_classes fl = size_classes (free_list (buf w))"
  shows "world_inv (w\<lparr>buf := (set_state (buf w) p s)\<lparr>free_list := fl\<rparr>,
    guards := guards w \<union> (if s = NotReady then {p} else {})\<rparr>) bs"
proof -
  have geom: "cb_geom (buf w) bs" and pool: "pool_ok (buf w) bs" using inv by (simp_all add: world_inv_def)
  note upd = ptrs_in_set_state [OF geom ptrs_in_ptrs [OF p]]
  have "pool_ok ((set_state (buf w) p s)\<lparr>free_list := fl\<rparr>) bs"
    using fl s by (intro pool_ok_classes [OF pool]) (auto simp: upd)
  moreover have "p \<notin> ptrs_in (buf w) bs Evicted" "p \<notin> ptrs_in (buf w) bs BeginTombStone" "p \<notin> ptrs_in (buf w) bs NotReady"
    using ptrs_in_other [OF p] by blast+
  ultimately show ?thesis using inv geom s unfolding world_inv_def by (elim conjE) (auto simp: upd)
qed

lemma finite_ptrs_in: "finite (ptrs_in cb bs s)"
  by (simp add: ptrs_in_def ptrs_def)

lemma alloc_free_list_inv:
  assumes "world_inv w bs" "fits_classes (buf w) n"
  shows "\<exists>r cb. alloc_from_free_list (buf w) n = Some (r, cb) \<and>
    world_inv (w\<lparr>buf := cb, guards := guards w \<union> set_option r\<rparr>) bs \<and>
    head_addr cb = head_addr (buf w) \<and> tail_addr cb = tail_addr (buf w) \<and> capacity cb = capacity (buf w) \<and>
    size_classes (free_list cb) = size_classes (free_list (buf w)) \<and> size_at cb = size_at (buf w) \<and>
    live_in cb bs = live_in (buf w) bs \<union> set_option r \<and>
    (\<forall>p. r = Some p \<longrightarrow> p \<in> ptrs_in (buf w) bs FreeListed \<and> n \<le> size_at (buf w) (p - 8))"
  using assms
proof (induction "card (ptrs_in (buf w) bs FreeListed)" arbitrary: w rule: less_induct)
  case less
  let ?cb = "buf w"
  have geom: "cb_geom ?cb bs" and pool: "pool_ok ?cb bs" using less.prems(1) by (simp_all add: world_inv_def)
  have pl: "free_blocks.holds (free_list ?cb) (\<lambda>p. size_at ?cb (p - 8)) (ptrs_in ?cb bs FreeListed)"
    using pool by (simp add: pool_ok_def)
  obtain i where i: "size_class_larger_than (free_list ?cb) n = Some i"
    using class_larger_some [of "hd (size_classes (free_list ?cb))" "free_list ?cb" n] less.prems(2) pool
    by (auto simp: pool_ok_def fits_classes_def)
  from free_blocks.holds_take [OF pl i] show ?case
  proof (elim disjE exE conjE)
    fix f' assume "fl_remove (free_list ?cb) n = Some (None, f')"
    then have "alloc_from_free_list ?cb n = Some (None, ?cb)" by (simp add: alloc_from_free_list.simps)
    then show ?thesis using less.prems(1) by simp
  next
    fix p fl
    assume r: "fl_remove (free_list ?cb) n = Some (Some p, fl)" and p: "p \<in> ptrs_in ?cb bs FreeListed"
      and n: "n \<le> size_at ?cb (p - 8)"
      and fl: "free_blocks.holds fl (\<lambda>p. size_at ?cb (p - 8)) (ptrs_in ?cb bs FreeListed - {p})" "size_classes fl = size_classes (free_list ?cb)"
    let ?c1 = "?cb\<lparr>free_list := fl\<rparr>" and ?st = "\<lambda>s. (set_state ?cb p s)\<lparr>free_list := fl\<rparr>"
    have p1: "p \<in> ptrs_in ?c1 bs FreeListed" "cb_geom ?c1 bs" using p geom by simp_all
    note step = get_meta_ptr [OF p1(2,1)] with_state_at [OF p1(2,1)] free_list_to_tombstone_def expect_state_def
    note leave = inv_leave_free_list [OF less.prems(1) p _ fl]
    show ?thesis
    proof (cases "ptr_is_copy_on_access ?c1 p")
      case True
      let ?w = "w\<lparr>buf := ?st Tombstone\<rparr>"
      have inv1: "world_inv ?w bs" using leave [of Tombstone] by simp
      have "ptrs_in (buf ?w) bs FreeListed = ptrs_in ?cb bs FreeListed - {p}"
        by (simp add: ptrs_in_set_state [OF geom ptrs_in_ptrs [OF p]])
      then have smaller: "card (ptrs_in (buf ?w) bs FreeListed) < card (ptrs_in ?cb bs FreeListed)"
        by (metis card_Diff1_less finite_ptrs_in p)
      have fits: "fits_classes (buf ?w) n" using less.prems(2) fl(2) by (simp add: fits_classes_def)
      obtain r' cb where ih: "alloc_from_free_list (buf ?w) n = Some (r', cb)"
        "world_inv (?w\<lparr>buf := cb, guards := guards ?w \<union> set_option r'\<rparr>) bs"
        "head_addr cb = head_addr (buf ?w)" "tail_addr cb = tail_addr (buf ?w)" "capacity cb = capacity (buf ?w)"
        "size_classes (free_list cb) = size_classes (free_list (buf ?w))" "size_at cb = size_at (buf ?w)"
        "live_in cb bs = live_in (buf ?w) bs \<union> set_option r'"
        "\<forall>p. r' = Some p \<longrightarrow> p \<in> ptrs_in (buf ?w) bs FreeListed \<and> n \<le> size_at (buf ?w) (p - 8)"
        using less.hyps [OF smaller inv1 fits] by (elim exE conjE) (rule that)
      have "alloc_from_free_list ?cb n = alloc_from_free_list (?st Tombstone) n"
        using r True by (subst alloc_from_free_list.simps) (simp add: step)
      moreover have "live_in (?st Tombstone) bs = live_in ?cb bs" by (simp add: live_set_state [OF geom p])
      moreover have "ptrs_in (buf ?w) bs FreeListed \<subseteq> ptrs_in ?cb bs FreeListed"
        using \<open>ptrs_in (buf ?w) bs FreeListed = _\<close> by blast
      ultimately show ?thesis using ih fl(2) by (intro exI [of _ r'] exI [of _ cb]) auto
    next
      case False
      have "alloc_from_free_list ?cb n = Some (Some p, ?st NotReady)"
        using r False n by (subst alloc_from_free_list.simps) (simp add: step)
      moreover have "world_inv (w\<lparr>buf := ?st NotReady, guards := guards w \<union> {p}\<rparr>) bs" using leave [of NotReady] by simp
      moreover have "live_in (?st NotReady) bs = live_in ?cb bs \<union> {p}" by (simp add: live_set_state [OF geom p])
      ultimately show ?thesis using n p fl(2) by simp
    qed
  qed
qed

text \<open>A new block at the tail.\<close>

lemma inv_push:
  assumes inv: "world_inv w bs" and k: "8 dvd k" "tail_addr (buf w) mod capacity (buf w) + 8 + k \<le> capacity (buf w)"
    "tail_addr (buf w) + 8 + k \<le> head_addr (buf w) + capacity (buf w)" and s: "s \<in> {Tombstone, NotReady}"
  defines "q \<equiv> data_ptr (buf w) (tail_addr (buf w))"
  shows "world_inv (w\<lparr>buf := push_block (buf w) k s, guards := guards w \<union> (if s = NotReady then {q} else {})\<rparr>) (bs @ [tail_addr (buf w)])"
    "q \<notin> ptrs (buf w) bs"
    "live_in (push_block (buf w) k s) (bs @ [tail_addr (buf w)]) = live_in (buf w) bs \<union> (if s = NotReady then {q} else {})"
    "size_at (push_block (buf w) k s) (q - 8) = k"
proof -
  let ?cb = "push_block (buf w) k s" and ?bs = "bs @ [tail_addr (buf w)]"
  have geom: "cb_geom (buf w) bs" and pool: "pool_ok (buf w) bs" using inv by (simp_all add: world_inv_def)
  note push = push_block_geom [OF geom k, folded q_def]
  show "q \<notin> ptrs (buf w) bs" "size_at ?cb (q - 8) = k" using push(3,7) .
  have same: "ptrs_in ?cb ?bs t = ptrs_in (buf w) bs t" if "t \<notin> {Tombstone, NotReady}" for t
    using that s push(4) [of s t] by auto
  have guard: "ptrs_in ?cb ?bs NotReady = ptrs_in (buf w) bs NotReady \<union> (if s = NotReady then {q} else {})"
    using push(4) [of s NotReady] by auto
  show "live_in ?cb ?bs = live_in (buf w) bs \<union> (if s = NotReady then {q} else {})"
    by (auto simp: live_in_def guard same)
  have "free_blocks.holds (free_list (buf w)) (\<lambda>p. size_at ?cb (p - 8)) (ptrs_in (buf w) bs FreeListed)"
  proof (rule free_blocks.holds_cong)
    show "free_blocks.holds (free_list (buf w)) (\<lambda>p. size_at (buf w) (p - 8)) (ptrs_in (buf w) bs FreeListed)"
      using pool by (simp add: pool_ok_def)
    show "size_at ?cb (p - 8) = size_at (buf w) (p - 8)" if "p \<in> ptrs_in (buf w) bs FreeListed" for p
      by (rule push(6) [OF ptrs_in_ptrs [OF that]])
  qed
  then have "pool_ok ?cb ?bs" using pool by (simp add: pool_ok_def same)
  then show "world_inv (w\<lparr>buf := ?cb, guards := guards w \<union> (if s = NotReady then {q} else {})\<rparr>) ?bs"
    using inv push(1) [of s] push(5) [of s] unfolding world_inv_def by (simp add: guard same)
qed

lemma remaining_mod:
  assumes "cb_geom cb bs"
  shows "physical_remaining cb = capacity cb - tail_addr cb mod capacity cb" "tail_addr cb mod capacity cb < capacity cb"
    "8 dvd physical_remaining cb" "8 \<le> physical_remaining cb"
proof -
  show p: "physical_remaining cb = capacity cb - tail_addr cb mod capacity cb"
    using phys_mod [OF assms, of "tail_addr cb"] by (simp add: physical_remaining_def logical_to_physical_def)
  show lt: "tail_addr cb mod capacity cb < capacity cb" using assms by (auto simp: cb_geom_def)
  have "8 dvd tail_addr cb mod capacity cb" using geom_dvd [OF assms] by (simp add: dvd_mod_iff)
  then show d: "8 dvd physical_remaining cb" using geom_dvd [OF assms] p by (simp add: dvd_diff_nat)
  show "8 \<le> physical_remaining cb" using d lt p by (intro dvd_imp_le) auto
qed

lemma alloc_size_u32:
  assumes "pool_ok cb bs" "fits_classes cb n"
  shows "as_u32 (align_up n CB_ALLOC_META_SIZE) = align_up n 8" "alloc_required n = align_up n 8 + 8"
    "align_up n 8 + 8 < 2 ^ 32" "0 < align_up n 8"
proof -
  have n: "0 < n" "n + 16 \<le> 2 ^ 32" using assms by (auto simp: pool_ok_def fits_classes_def)
  then show "0 < align_up n 8" "align_up n 8 + 8 < 2 ^ 32" using align_up_bounds [of n] by linarith+
  then show "as_u32 (align_up n CB_ALLOC_META_SIZE) = align_up n 8" by (simp add: as_u32_def CB_ALLOC_META_SIZE_def)
  show "alloc_required n = align_up n 8 + 8" by (simp add: alloc_required_def CB_ALLOC_META_SIZE_def)
qed

lemma fill_to_end_push:
  assumes "cb_geom cb bs" "physical_remaining cb < 2 ^ 32"
  shows "fill_to_end cb = Some (push_block cb (physical_remaining cb - 8) Tombstone)"
proof -
  note r = remaining_mod [OF assms(1)]
  have "as_u32 (physical_remaining cb - 8) = physical_remaining cb - 8" using assms(2) by (simp add: as_u32_def)
  then show ?thesis
    using r(4) by (simp add: fill_to_end_def push_block_def CB_ALLOC_META_SIZE_def alloc_meta_new_def phys_mod [OF assms(1)])
qed

lemma alloc_at_tail_push:
  assumes "cb_geom cb bs" "pool_ok cb bs" "fits_classes cb n" "alloc_required n \<le> physical_remaining cb"
  shows "alloc_at_tail cb n = (data_ptr cb (tail_addr cb), push_block cb (align_up n 8) NotReady)"
proof -
  note r = remaining_mod [OF assms(1)] and z = alloc_size_u32 [OF assms(2,3)]
  have "tail_addr cb mod capacity cb + 8 < capacity cb" using assms(4) r(1,2) z(2,4) by linarith
  then have "(tail_addr cb + 8) mod capacity cb = tail_addr cb mod capacity cb + 8" by (metis mod_add_left_eq mod_less)
  then show ?thesis
    by (simp add: alloc_at_tail_def push_block_def alloc_meta_new_def phys_mod [OF assms(1)] data_ptr_def z(1,2) CB_ALLOC_META_SIZE_def
        flip: CB_ALLOC_META_SIZE_def)
qed

text \<open>What a call of \<open>cb_alloc\<close> does to the system.\<close>

definition alloc_spec :: "world \<Rightarrow> nat list \<Rightarrow> nat \<Rightarrow> (cb_error + nat) \<times> circular_buffer \<Rightarrow> bool" where
  "alloc_spec w bs n res \<longleftrightarrow>
     (case res of
        (Inr p, cb) \<Rightarrow> \<exists>bs'. world_inv (w\<lparr>buf := cb, guards := insert p (guards w)\<rparr>) bs' \<and>
          p \<notin> live_in (buf w) bs \<and> live_in cb bs' = insert p (live_in (buf w) bs) \<and> n \<le> size_at cb (p - 8)
      | (Inl e, cb) \<Rightarrow> e = Full \<and> logical_remaining cb < alloc_required n \<and>
          (\<exists>bs'. world_inv (w\<lparr>buf := cb\<rparr>) bs' \<and> live_in cb bs' = live_in (buf w) bs))"

lemma alloc_round:
  assumes inv: "world_inv w bs" and fits: "fits_classes (buf w) n"
  shows "(\<exists>res. cb_alloc (buf w) n = Some res \<and> alloc_spec w bs n res) \<or>
    (\<exists>cb bs'. cb_alloc (buf w) n = cb_alloc cb n \<and> world_inv (w\<lparr>buf := cb\<rparr>) bs' \<and> fits_classes cb n \<and>
       live_in cb bs' = live_in (buf w) bs \<and> tail_addr cb mod capacity cb = 0 \<and> tail_addr (buf w) mod capacity (buf w) \<noteq> 0)"
proof -
  have pool: "pool_ok (buf w) bs" using inv by (simp add: world_inv_def)
  have n0: "n \<noteq> 0" "size_classes (free_list (buf w)) \<noteq> []" "last (size_classes (free_list (buf w))) \<le> n"
    using pool fits by (auto simp: pool_ok_def fits_classes_def)
  obtain r cb where fl: "alloc_from_free_list (buf w) n = Some (r, cb)"
    "world_inv (w\<lparr>buf := cb, guards := guards w \<union> set_option r\<rparr>) bs"
    "head_addr cb = head_addr (buf w)" "tail_addr cb = tail_addr (buf w)" "capacity cb = capacity (buf w)"
    "size_classes (free_list cb) = size_classes (free_list (buf w))" "size_at cb = size_at (buf w)"
    "live_in cb bs = live_in (buf w) bs \<union> set_option r"
    "\<forall>p. r = Some p \<longrightarrow> p \<in> ptrs_in (buf w) bs FreeListed \<and> n \<le> size_at (buf w) (p - 8)"
    using alloc_free_list_inv [OF assms] by (elim exE conjE) (rule that)
  show ?thesis
  proof (cases r)
    case (Some p)
    then have "cb_alloc (buf w) n = Some (Inr p, cb)" using fl(1) n0 by (subst cb_alloc.simps) simp
    moreover have "p \<notin> live_in (buf w) bs" using fl(9) Some live_other by blast
    ultimately show ?thesis using fl Some by (auto simp: alloc_spec_def)
  next
    case None
    let ?w = "w\<lparr>buf := cb\<rparr>"
    have inv': "world_inv ?w bs" using fl(2) None by simp
    have geom: "cb_geom cb bs" and pool': "pool_ok cb bs" using inv' by (simp_all add: world_inv_def)
    have fits': "fits_classes cb n" using fits fl(6) by (simp add: fits_classes_def)
    note z = alloc_size_u32 [OF pool' fits'] and rem = remaining_mod [OF geom]
    have window: "tail_addr cb \<le> head_addr cb + capacity cb" "head_addr cb \<le> tail_addr cb"
      using geom tiled_le by (auto simp: cb_geom_def)
    consider "logical_remaining cb < alloc_required n"
      | "alloc_required n \<le> logical_remaining cb" "physical_remaining cb < alloc_required n"
      | "alloc_required n \<le> logical_remaining cb" "alloc_required n \<le> physical_remaining cb" by linarith
    then show ?thesis
    proof cases
      case 1
      then have "cb_alloc (buf w) n = Some (Inl Full, cb)" using fl(1) None n0 by (subst cb_alloc.simps) simp
      then show ?thesis using inv' fl(8) None 1 by (auto simp: alloc_spec_def)
    next
      case 2
      let ?k = "physical_remaining cb - 8" and ?c = "push_block cb (physical_remaining cb - 8) Tombstone"
      have "fill_to_end cb = Some ?c" using 2(2) z(2,3) by (intro fill_to_end_push [OF geom]) linarith
      then have "cb_alloc (buf w) n = cb_alloc ?c n" using fl(1) None n0 2 by (subst cb_alloc.simps) simp
      moreover have k: "8 dvd ?k" "tail_addr cb mod capacity cb + 8 + ?k \<le> capacity cb" "tail_addr cb + 8 + ?k \<le> head_addr cb + capacity cb"
        using dvd_diff_nat [OF rem(3), of 8] rem(1,2,4) 2 window by (simp_all add: logical_remaining_def)
      then have "world_inv (w\<lparr>buf := ?c\<rparr>) (bs @ [tail_addr cb])" "live_in ?c (bs @ [tail_addr cb]) = live_in cb bs"
        using inv_push(1,3) [OF inv', of ?k Tombstone] by simp_all
      moreover have "fits_classes ?c n" using fits' by (simp add: fits_classes_def)
      moreover have "tail_addr ?c mod capacity ?c = 0"
      proof -
        have "tail_addr ?c = tail_addr cb - tail_addr cb mod capacity cb + capacity cb"
          using rem by (simp add: le_add_diff_inverse2)
        then show ?thesis by (simp add: minus_mod_eq_mult_div)
      qed
      moreover have "tail_addr (buf w) mod capacity (buf w) \<noteq> 0" using 2 rem(1) fl(4,5) by (auto simp: logical_remaining_def)
      moreover have "live_in cb bs = live_in (buf w) bs" using fl(8) None by simp
      ultimately show ?thesis by metis
    next
      case 3
      let ?c = "push_block cb (align_up n 8) NotReady" and ?q = "data_ptr cb (tail_addr cb)"
      have "cb_alloc (buf w) n = Some (Inr ?q, ?c)"
        using fl(1) None n0 3 alloc_at_tail_push [OF geom pool' fits' 3(2)] by (subst cb_alloc.simps) simp
      moreover have k: "8 dvd align_up n 8" "tail_addr cb mod capacity cb + 8 + align_up n 8 \<le> capacity cb"
          "tail_addr cb + 8 + align_up n 8 \<le> head_addr cb + capacity cb"
        using rem 3 window z(2) align_up_bounds(3) [of n] by (auto simp: logical_remaining_def)
      note push = inv_push [OF inv', of "align_up n 8" NotReady, simplified, OF k]
      have live: "live_in cb bs = live_in (buf w) bs" using fl(8) None by simp
      have "?q \<notin> live_in cb bs" using push(2) ptrs_in_ptrs by (auto simp: live_in_def)
      then have "alloc_spec w bs n (Inr ?q, ?c)"
        unfolding alloc_spec_def using push(1,3,4) live align_up_bounds(1) [of n]
        by (simp del: ex_simps) (metis (no_types, lifting))
      ultimately show ?thesis by blast
    qed
  qed
qed

lemma alloc_spec_cong:
  "live_in cb bs' = live_in (buf w) bs \<Longrightarrow> alloc_spec (w\<lparr>buf := cb\<rparr>) bs' n res = alloc_spec w bs n res"
  by (auto simp: alloc_spec_def split: sum.splits prod.splits)

lemma alloc_inv:
  assumes "world_inv w bs" "fits_classes (buf w) n"
  shows "\<exists>res. cb_alloc (buf w) n = Some res \<and> alloc_spec w bs n res"
proof -
  from alloc_round [OF assms] show ?thesis
  proof (elim disjE exE conjE)
    fix cb bs'
    assume a: "cb_alloc (buf w) n = cb_alloc cb n" "world_inv (w\<lparr>buf := cb\<rparr>) bs'" "fits_classes cb n"
      "live_in cb bs' = live_in (buf w) bs" "tail_addr cb mod capacity cb = 0"
    then show ?thesis using alloc_round [of "w\<lparr>buf := cb\<rparr>" bs' n] alloc_spec_cong [OF a(4)] by auto
  qed blast
qed

end
