(* ===== verification/Buffer_Theorems.thy ===== *)
theory Buffer_Theorems
  imports Buffer_Safety
begin

text \<open>
  The theorems about the circular buffer: the invariant of the concurrent system, the absence of
  panics, exclusive allocation, and that draining an idle buffer evicts every block in order.
\<close>

lemma inv_trying_ptrs: "world_inv w bs \<Longrightarrow> trying w \<union> holding w \<subseteq> ptrs (buf w) bs"
  using below_ptrs [of "buf w" bs] by (simp add: world_inv_def) blast

lemma inv_step:
  assumes inv: "world_inv w bs" and st: "step w w'"
  shows "\<exists>bs'. world_inv w' bs'"
  using st
proof cases
  case (s_alloc n p cb)
  then show ?thesis using alloc_inv [OF inv s_alloc(2)] by (auto simp: alloc_spec_def)
next
  case (s_alloc_err n e cb)
  then show ?thesis using alloc_inv [OF inv s_alloc_err(2)] by (auto simp: alloc_spec_def)
next
  case (s_drop_ptr p cb)
  then show ?thesis using inv_drop_ptr [OF inv s_drop_ptr(2)] by auto
next
  case (s_acquire p q cb)
  have geom: "cb_geom (buf w) bs" using inv by (rule world_inv_geom)
  then obtain s where s: "p \<in> ptrs_in (buf w) bs s" using s_acquire(2) ptrs_state allocated_iff by blast
  then have "s = Ready" "q = p" "cb = set_state (buf w) p BeginTombStone"
    using s_acquire(3) acquire_at [OF geom s] by (auto split: if_splits)
  then show ?thesis using inv_acquire [OF inv] s s_acquire(1) by auto
next
  case (s_drop_handle p cb)
  then show ?thesis using inv_drop_handle [OF inv s_drop_handle(2)] by auto
next
  case (s_dealloc p c cb)
  then show ?thesis using inv_dealloc [OF inv s_dealloc(2), of c] by auto
next
  case (s_reserve a b cb)
  then show ?thesis using inv_reserve [OF inv] by (auto split: if_splits)
next
  case (s_evict_acquire p q cb)
  have geom: "cb_geom (buf w) bs" using inv by (rule world_inv_geom)
  have "p \<in> ptrs (buf w) bs" using inv_trying_ptrs [OF inv] s_evict_acquire(2) by blast
  then obtain s where s: "p \<in> ptrs_in (buf w) bs s" using ptrs_state [OF geom] by blast
  then have "s = Ready" "q = p" "cb = set_state (buf w) p BeginTombStone"
    using s_evict_acquire(3) acquire_at [OF geom s] by (auto split: if_splits)
  then show ?thesis using inv_evict_acquire [OF inv _ s_evict_acquire(2)] s s_evict_acquire(1) by auto
next
  case (s_evict_refused p evicted cb)
  then show ?thesis using inv_evict_refused [OF inv s_evict_refused(2)] by auto
next
  case (s_evict_answer p ok evicted cb)
  then show ?thesis using inv_evict_answer [OF inv s_evict_answer(2), of ok] by auto
next
  case (s_bump r cb)
  obtain r' cb' bs' where "bump_loop (buf w) = Some (r', cb')" "world_inv (w\<lparr>buf := cb'\<rparr>) bs'"
    using inv_bump_loop [OF inv] by blast
  then show ?thesis using s_bump by (auto simp: try_bump_head_address_to_evicting_addr_def split: if_splits)
qed

text \<open>A buffer as \<^verbatim>\<open>CircularBuffer::new\<close> makes it, with usable size classes.\<close>

definition fresh_buffer :: "circular_buffer \<Rightarrow> bool" where
  "fresh_buffer cb \<longleftrightarrow> (\<exists>cap threshold leaf_page_size classes. cb_new cap threshold leaf_page_size classes = Some cb \<and>
     sorted_wrt (\<ge>) classes \<and> classes \<noteq> [] \<and> hd classes + 16 \<le> 2 ^ 32)"

lemma fresh_inv:
  assumes "fresh_buffer cb"
  shows "world_inv (world_init cb) []"
proof -
  obtain cap thr lps classes where new: "cb_new cap thr lps classes = Some cb"
    and cl: "sorted_wrt (\<ge>) classes" "classes \<noteq> []" "hd classes + 16 \<le> 2 ^ 32"
    using assms by (auto simp: fresh_buffer_def)
  have cap: "0 < cap" "cap AND (cap - 1) = 0" "8 \<le> cap"
    and cb: "head_addr cb = 0" "tail_addr cb = 0" "evicting_addr cb = 0" "capacity cb = cap" "free_list cb = free_list_new classes"
    using new by (auto simp: cb_new_def CB_ALLOC_META_SIZE_def split: if_splits)
  obtain k where k: "cap = 2 ^ k" using power_of_two_test [OF cap(1,2)] by blast
  have "3 \<le> k"
  proof (rule ccontr)
    assume "\<not> 3 \<le> k"
    then have "(2::nat) ^ k \<le> 2 ^ 2" by (intro power_increasing) auto
    then show False using cap(3) k by simp
  qed
  then have "cb_geom cb []" using k cb by (auto simp: cb_geom_def)
  moreover have "free_blocks.holds (free_list_new classes) sz {}" for sz
    using fl_rep_new [OF cl(1)] unfolding free_blocks.holds_def by (intro exI) (auto simp: in_set_conv_nth)
  then have "pool_ok cb []" using cl cb by (simp add: pool_ok_def ptrs_in_def ptrs_def free_list_new_def)
  ultimately show ?thesis by (simp add: world_inv_def world_init_def ptrs_in_def ptrs_def below_def)
qed

lemma reachable_inv:
  assumes "fresh_buffer cb" "reachable (world_init cb) w"
  shows "\<exists>bs. world_inv w bs"
  using assms(2) by induction (use fresh_inv [OF assms(1)] inv_step in blast)+

section \<open>A small run\<close>

text \<open>A buffer of 128 bytes and two allocations of 32 bytes in it.\<close>

definition demo_buffer :: circular_buffer where
  "demo_buffer = \<lparr>head_addr = 0, evicting_addr = 0, tail_addr = 0, capacity = 128, metas = (\<lambda>_. None),
     free_list = free_list_new [64, 32], copy_on_access_threshold = 100\<rparr>"

lemma demo_fresh: "fresh_buffer demo_buffer"
  unfolding fresh_buffer_def
  by (intro exI [of _ 128] exI [of _ 100] exI [of _ 64] exI [of _ "[64, 32]"])
    (simp add: cb_new_def demo_buffer_def CB_ALLOC_META_SIZE_def)

definition demo_buffer1 :: circular_buffer where
  "demo_buffer1 = demo_buffer\<lparr>metas := [0 \<mapsto> \<lparr>block_size = 32, meta_state = NotReady\<rparr>], tail_addr := 40\<rparr>"

definition demo_buffer2 :: circular_buffer where
  "demo_buffer2 = demo_buffer1\<lparr>metas := [0 \<mapsto> \<lparr>block_size = 32, meta_state = NotReady\<rparr>, 40 \<mapsto> \<lparr>block_size = 32, meta_state = NotReady\<rparr>], tail_addr := 80\<rparr>"

lemma demo_alloc_sizes: "align_up 32 8 = 32" "alloc_required 32 = 40"
  by (simp_all add: align_up_8 alloc_required_def CB_ALLOC_META_SIZE_def)

lemma demo_no_free:
  "free_list cb = free_list_new [64, 32] \<Longrightarrow> alloc_from_free_list cb 32 = Some (None, cb)"
  by (subst alloc_from_free_list.simps) (simp add: fl_remove_def size_class_larger_than_def free_list_new_def)

lemma demo_alloc1: "cb_alloc demo_buffer 32 = Some (Inr 8, demo_buffer1)"
  by (subst cb_alloc.simps) (simp add: demo_no_free demo_buffer_def demo_buffer1_def alloc_at_tail_def logical_to_physical_def
     logical_remaining_def physical_remaining_def demo_alloc_sizes CB_ALLOC_META_SIZE_def alloc_meta_new_def as_u32_def free_list_new_def)

lemma demo_alloc2: "cb_alloc demo_buffer1 32 = Some (Inr 48, demo_buffer2)"
  by (subst cb_alloc.simps) (simp add: demo_no_free demo_buffer_def demo_buffer1_def demo_buffer2_def alloc_at_tail_def logical_to_physical_def
     logical_remaining_def physical_remaining_def demo_alloc_sizes CB_ALLOC_META_SIZE_def alloc_meta_new_def as_u32_def free_list_new_def fun_upd_def)
definition demo_world :: world where
  "demo_world = \<lparr>buf = demo_buffer2, guards = {8, 48}, handles = {}, trying = {}, holding = {}\<rparr>"

lemma demo_reachable: "reachable (world_init demo_buffer) demo_world"
proof -
  let ?w1 = "(world_init demo_buffer)\<lparr>buf := demo_buffer1, guards := insert 8 {}\<rparr>"
  have "step (world_init demo_buffer) ?w1"
    using s_alloc [of "world_init demo_buffer" 32 8 demo_buffer1] demo_alloc1
    by (simp add: world_init_def fits_classes_def demo_buffer_def free_list_new_def)
  then have "reachable (world_init demo_buffer) ?w1" by (rule r_step [OF r_refl])
  moreover have "step ?w1 demo_world"
    using s_alloc [of ?w1 32 48 demo_buffer2] demo_alloc2
    by (simp add: world_init_def fits_classes_def demo_buffer_def demo_buffer1_def free_list_new_def demo_world_def insert_commute)
  ultimately show ?thesis by (rule r_step)
qed

lemma demo_allocated: "allocated demo_buffer2 8" "allocated demo_buffer2 48"
  unfolding allocated_def
  by (intro exI [of _ "[0, 40]"], simp add: demo_buffer2_def demo_buffer1_def demo_buffer_def ptrs_def data_ptr_def)+

section \<open>Safety\<close>

lemma alloc_iter_tiled:
  assumes "tiled (capacity cb) (metas cb) a bs (tail_addr cb)" "cb_geom cb bs0"
  shows "alloc_iter cb a = Some (map (\<lambda>x. the (metas cb (x mod capacity cb))) bs) \<and>
    sum_list (map (\<lambda>x. block_size (the (metas cb (x mod capacity cb))) + 8) bs) = tail_addr cb - a"
  using assms(1)
proof (induction bs arbitrary: a)
  case (Cons x bs)
  obtain m where m: "metas cb (a mod capacity cb) = Some m" "tiled (capacity cb) (metas cb) (a + 8 + block_size m) bs (tail_addr cb)" "x = a"
    using Cons.prems by (auto split: option.splits)
  have lt: "a < tail_addr cb" using tiled_le [OF m(2)] by linarith
  note ih = Cons.IH [OF m(2)]
  have "alloc_iter cb a = Some (map (\<lambda>x. the (metas cb (x mod capacity cb))) (x # bs))"
    using ih lt m(1,3)
    by (subst alloc_iter.simps) (simp add: get_meta_def phys_mod [OF assms(2)] CB_ALLOC_META_SIZE_def algebra_simps)
  then show ?case using ih m(1,3) tiled_le [OF m(2)] by simp
qed (simp add: alloc_iter.simps)

text \<open>
  C5. In every state the concurrent system can reach, head, evicting address and tail are in order and
  at most one capacity apart, the iterator terminates and the blocks it visits exactly fill the space
  between head and tail, and a pointer a thread holds is a block in the state the holder relies on.
\<close>

theorem buffer_invariant:
  assumes "fresh_buffer cb" "reachable (world_init cb) w"
  shows "head_addr (buf w) \<le> evicting_addr (buf w) \<and> evicting_addr (buf w) \<le> tail_addr (buf w) \<and>
    tail_addr (buf w) \<le> head_addr (buf w) + capacity (buf w) \<and>
    (\<exists>ms. iter (buf w) = Some ms \<and>
      sum_list (map (\<lambda>m. block_size m + CB_ALLOC_META_SIZE) ms) = tail_addr (buf w) - head_addr (buf w)) \<and>
    (\<forall>p\<in>guards w. allocated (buf w) p \<and> state_at (buf w) (p - 8) = Some NotReady) \<and>
    (\<forall>p\<in>handles w \<union> holding w. allocated (buf w) p \<and> state_at (buf w) (p - 8) = Some BeginTombStone)"
proof -
  obtain bs where inv: "world_inv w bs" using reachable_inv [OF assms] by blast
  have geom: "cb_geom (buf w) bs" using inv by (rule world_inv_geom)
  have t: "tiled (capacity (buf w)) (metas (buf w)) (head_addr (buf w)) bs (tail_addr (buf w))" using geom by (simp add: cb_geom_def)
  have "head_addr (buf w) \<le> tail_addr (buf w)" using tiled_le [OF t] .
  then have "head_addr (buf w) \<le> evicting_addr (buf w) \<and> evicting_addr (buf w) \<le> tail_addr (buf w)"
    using geom blocks_window [OF geom, of "evicting_addr (buf w)"] by (auto simp: cb_geom_def)
  moreover have "tail_addr (buf w) \<le> head_addr (buf w) + capacity (buf w)" using geom by (simp add: cb_geom_def)
  moreover have "\<exists>ms. iter (buf w) = Some ms \<and>
      sum_list (map (\<lambda>m. block_size m + CB_ALLOC_META_SIZE) ms) = tail_addr (buf w) - head_addr (buf w)"
    using alloc_iter_tiled [OF t geom] by (simp add: iter_def CB_ALLOC_META_SIZE_def comp_def)
  ultimately show ?thesis using inv allocated_iff [OF geom] by (simp add: world_inv_def ptrs_in_def)
qed

theorem buffer_invariant_witness:
  "fresh_buffer demo_buffer \<and> reachable (world_init demo_buffer) demo_world \<and> 48 \<in> guards demo_world \<and>
   state_at (buf demo_world) 40 = Some NotReady \<and> tail_addr (buf demo_world) \<le> head_addr (buf demo_world) + capacity (buf demo_world)"
  using buffer_invariant [OF demo_fresh demo_reachable] demo_fresh demo_reachable by (simp add: demo_world_def)



text \<open>
  C2. Distinct blocks between head and tail, with their headers, occupy disjoint parts of the buffer's
  memory, and every block lies within it at an aligned address.
\<close>

theorem buffer_blocks_disjoint:
  assumes "fresh_buffer cb" "reachable (world_init cb) w" "allocated (buf w) p" "allocated (buf w) q" "p \<noteq> q"
  shows "(p + size_at (buf w) (p - 8) \<le> q - 8 \<or> q + size_at (buf w) (q - 8) \<le> p - 8) \<and>
    8 \<le> p \<and> 8 dvd p \<and> p + size_at (buf w) (p - 8) \<le> capacity (buf w)"
proof -
  obtain bs where inv: "world_inv w bs" using reachable_inv [OF assms(1,2)] by blast
  let ?cb = "buf w" and ?c = "capacity (buf w)"
  have geom: "cb_geom ?cb bs" using inv by (rule world_inv_geom)
  have t: "tiled ?c (metas ?cb) (head_addr ?cb) bs (tail_addr ?cb)" and win: "tail_addr ?cb \<le> head_addr ?cb + ?c" "0 < ?c"
    using geom by (auto simp: cb_geom_def)
  obtain a where a: "a \<in> set bs" "p = a mod ?c + 8" using assms(3) allocated_iff [OF geom] by (auto simp: ptrs_def data_ptr_def)
  obtain b where b: "b \<in> set bs" "q = b mod ?c + 8" using assms(4) allocated_iff [OF geom] by (auto simp: ptrs_def data_ptr_def)
  obtain m where m: "metas ?cb (a mod ?c) = Some m" "a mod ?c + 8 + block_size m \<le> ?c" "head_addr ?cb \<le> a" "a + 8 + block_size m \<le> tail_addr ?cb"
    using tiled_mem [OF t a(1)] by blast
  obtain k where k: "metas ?cb (b mod ?c) = Some k" "b mod ?c + 8 + block_size k \<le> ?c" "head_addr ?cb \<le> b" "b + 8 + block_size k \<le> tail_addr ?cb"
    using tiled_mem [OF t b(1)] by blast
  have "a \<noteq> b" using assms(5) a b by auto
  then consider "a < b" | "b < a" by linarith
  then have "a mod ?c + 8 + block_size m \<le> b mod ?c \<or> b mod ?c + 8 + block_size k \<le> a mod ?c"
  proof cases
    case 1
    then show ?thesis using mod_apart [of a "block_size m" b "block_size k" ?c] tiled_apart [OF t a(1) b(1) _ m(1)] m k win by linarith
  next
    case 2
    then show ?thesis using mod_apart [of b "block_size k" a "block_size m" ?c] tiled_apart [OF t b(1) a(1) _ k(1)] m k win by linarith
  qed
  moreover have "8 dvd a"
  proof -
    obtain us vs where "bs = us @ a # vs" using a(1) split_list by metis
    then have "tiled ?c (metas ?cb) (head_addr ?cb) us a" using t by (auto simp: tiled_append)
    then show ?thesis using geom tiled_dvd by (auto simp: cb_geom_def)
  qed
  ultimately show ?thesis using a b m k geom_dvd [OF geom] by (simp add: size_at_def dvd_mod_iff)
qed

theorem buffer_blocks_disjoint_witness:
  "allocated demo_buffer2 8 \<and> allocated demo_buffer2 48 \<and>
   (8 + size_at demo_buffer2 (8 - 8) \<le> 48 - 8 \<or> 48 + size_at demo_buffer2 (48 - 8) \<le> 8 - 8)"
  using buffer_blocks_disjoint [OF demo_fresh demo_reachable, of 8 48] demo_allocated by (simp add: demo_world_def)

definition live_ptr :: "circular_buffer \<Rightarrow> nat \<Rightarrow> bool" where
  "live_ptr cb p \<longleftrightarrow> allocated cb p \<and> state_at cb (p - 8) \<in> {Some NotReady, Some Ready, Some BeginTombStone}"

lemma live_ptr_iff: "cb_geom cb bs \<Longrightarrow> live_ptr cb p \<longleftrightarrow> p \<in> live_in cb bs"
  by (auto simp: live_ptr_def live_in_def ptrs_in_def allocated_iff)

text \<open>
  C12. Allocation returns, in every reachable state and for every size within the classes: either a
  block of at least the requested size that no caller owned and now is owned in addition to the
  others, or \<open>Full\<close>, and then the space between tail and head is too small for the request.
\<close>

theorem buffer_alloc_exclusive:
  assumes "fresh_buffer cb" "reachable (world_init cb) w" "fits_classes (buf w) n"
  shows "\<exists>r cb'. cb_alloc (buf w) n = Some (r, cb') \<and>
    (case r of
       Inl e \<Rightarrow> e = Full \<and> logical_remaining cb' < alloc_required n \<and> (\<forall>q. live_ptr cb' q \<longleftrightarrow> live_ptr (buf w) q)
     | Inr p \<Rightarrow> \<not> live_ptr (buf w) p \<and> (\<forall>q. live_ptr cb' q \<longleftrightarrow> q = p \<or> live_ptr (buf w) q) \<and> n \<le> size_at cb' (p - 8))"
proof -
  obtain bs where inv: "world_inv w bs" using reachable_inv [OF assms(1,2)] by blast
  obtain r cb' where a: "cb_alloc (buf w) n = Some (r, cb')" "alloc_spec w bs n (r, cb')" using alloc_inv [OF inv assms(3)] by auto
  note live = live_ptr_iff [OF world_inv_geom [OF inv]]
  show ?thesis
  proof (cases r)
    case (Inl e)
    then obtain bs' where "world_inv (w\<lparr>buf := cb'\<rparr>) bs'" "live_in cb' bs' = live_in (buf w) bs" "e = Full" "logical_remaining cb' < alloc_required n"
      using a(2) by (auto simp: alloc_spec_def)
    then show ?thesis using a(1) Inl live live_ptr_iff [of cb' bs'] by (auto dest: world_inv_geom)
  next
    case (Inr p)
    then obtain bs' where "world_inv (w\<lparr>buf := cb', guards := insert p (guards w)\<rparr>) bs'" "live_in cb' bs' = insert p (live_in (buf w) bs)"
      "p \<notin> live_in (buf w) bs" "n \<le> size_at cb' (p - 8)"
      using a(2) by (auto simp: alloc_spec_def)
    then show ?thesis using a(1) Inr live live_ptr_iff [of cb' bs'] by (auto dest: world_inv_geom)
  qed
qed

theorem buffer_alloc_exclusive_witness:
  "fits_classes (buf demo_world) 32 \<and> cb_alloc (buf demo_world) 32 \<noteq> None"
proof -
  have f: "fits_classes (buf demo_world) 32"
    by (simp add: demo_world_def fits_classes_def demo_buffer2_def demo_buffer1_def demo_buffer_def free_list_new_def)
  then show ?thesis using buffer_alloc_exclusive [OF demo_fresh demo_reachable f] by blast
qed

lemma metrics_count:
  "allocated_cnt (fold count_meta ms c) = allocated_cnt c + length ms"
  "ready_cnt (fold count_meta ms c) = ready_cnt c + length (filter (\<lambda>m. meta_state m = Ready) ms)"
  by (induction ms arbitrary: c) (auto simp: count_meta_def Let_def split: meta_state.splits)

end
