(* ===== verification/Buffer_Drain.thy ===== *)
theory Buffer_Drain
  imports Buffer_Theorems
begin














end
