(* ===== verification/Tree_Setup.thy ===== *)
theory Tree_Setup
  imports Config Buffer_Drain
begin






end
