(* ===== verification/Wal.thy ===== *)
theory Wal
  imports Leaf_Meta
begin

text \<open>
  The write-ahead log (src/src/wal/mod.rs, operations.rs): the encoding of log entries, appending to
  the buffer, flushing the buffer to the log file, and reading the file back. The log file is the
  list of its bytes; the mutex makes appending and flushing atomic, so a run of the log is a
  sequence of these operations. Waiting on condition variables is not modelled: when
  \<^verbatim>\<open>append_and_wait\<close> stops waiting is a condition on the state.
\<close>

section \<open>Log entries\<close>

record write_op =
  op_key :: bytes
  op_value :: bytes
  op_kind :: op_type

definition make_insert :: "bytes \<Rightarrow> bytes \<Rightarrow> write_op" where
  "make_insert key value = \<lparr>op_key = key, op_value = value, op_kind = Insert\<rparr>"

definition make_delete :: "bytes \<Rightarrow> write_op" where
  "make_delete key = \<lparr>op_key = key, op_value = [], op_kind = Delete\<rparr>"

definition write_op_log_size :: "write_op \<Rightarrow> nat" where
  "write_op_log_size op = 2 + 2 + 1 + length (op_key op) + length (op_value op)"

text \<open>\<open>None\<close>: a slice index out of bounds, slices of different lengths, or a byte that is no operation type.\<close>

definition write_op_write_to_buffer :: "write_op \<Rightarrow> bytes \<Rightarrow> bytes option" where
  "write_op_write_to_buffer op buffer =
     (if length buffer \<noteq> write_op_log_size op then None
      else Some (u16_to_le_bytes (of_nat (length (op_key op))) @ u16_to_le_bytes (of_nat (length (op_value op))) @
                 [of_nat (op_type_code (op_kind op))] @ op_key op @ op_value op))"

definition write_op_read_from_buffer :: "bytes \<Rightarrow> write_op option" where
  "write_op_read_from_buffer buffer =
     (if length buffer < 5 \<or> \<not> unat (buffer ! 4) < 4 then None
      else
        let key_size = unat (u16_from_le_bytes (read_at 0 2 buffer));
            value_size = unat (u16_from_le_bytes (read_at 2 2 buffer));
            kind = op_type_of_code (unat (buffer ! 4))
        in if length buffer < 5 + key_size then None
           else let value = drop (5 + key_size) buffer
                in if length value \<noteq> value_size then None
                   else Some \<lparr>op_key = read_at 5 key_size buffer, op_value = value, op_kind = kind\<rparr>)"

text \<open>A \<^verbatim>\<open>Split\<close> entry is not implemented in the code: sizing and writing it panics.\<close>

datatype log_entry = Write write_op | Split

fun log_entry_log_size :: "log_entry \<Rightarrow> nat option" where
  "log_entry_log_size (Write op) = Some (1 + write_op_log_size op)"
| "log_entry_log_size Split = None"

fun log_entry_write_to_buffer :: "log_entry \<Rightarrow> bytes \<Rightarrow> bytes option" where
  "log_entry_write_to_buffer (Write op) buffer =
     (case buffer of [] \<Rightarrow> None | _ # rest \<Rightarrow> map_option ((#) 0) (write_op_write_to_buffer op rest))"
| "log_entry_write_to_buffer Split buffer = None"

definition log_entry_read_from_buffer :: "bytes \<Rightarrow> log_entry option" where
  "log_entry_read_from_buffer buffer =
     (case buffer of
        [] \<Rightarrow> None
      | tag # rest \<Rightarrow>
          if tag = 0 then map_option Write (write_op_read_from_buffer rest)
          else if tag = 1 then Some Split
          else None)"

section \<open>The log header\<close>

record log_header =
  log_len :: u64
  lsn :: u64
  page_offset :: u64

definition log_header_size :: nat where
  "log_header_size = 24"

definition log_header_as_slice :: "log_header \<Rightarrow> bytes" where
  "log_header_as_slice h = u64_to_le_bytes (log_len h) @ u64_to_le_bytes (lsn h) @ u64_to_le_bytes (page_offset h)"

definition log_header_from_slice :: "bytes \<Rightarrow> log_header" where
  "log_header_from_slice b = \<lparr>log_len = u64_from_le_bytes (read_at 0 8 b), lsn = u64_from_le_bytes (read_at 8 8 b),
     page_offset = u64_from_le_bytes (read_at 16 8 b)\<rparr>"

section \<open>The log\<close>

record wal =
  wal_buffer :: bytes
  wal_file :: bytes
  buffer_cursor :: nat
  file_offset :: nat
  next_lsn :: u64
  flushed_lsn :: u64
  need_flush :: bool

text \<open>\<open>contents\<close>: the uninitialised buffer of \<^verbatim>\<open>RawBuffer::new\<close>.\<close>

definition wal_new :: "bytes \<Rightarrow> wal" where
  "wal_new contents = \<lparr>wal_buffer = contents, wal_file = [], buffer_cursor = 0, file_offset = 0,
     next_lsn = 0, flushed_lsn = 0, need_flush = False\<rparr>"

definition clear_next_header :: "wal \<Rightarrow> wal" where
  "clear_next_header w =
     (if buffer_cursor w + 8 \<le> length (wal_buffer w)
      then w\<lparr>wal_buffer := write_at (buffer_cursor w) (replicate 8 0) (wal_buffer w)\<rparr> else w)"

definition should_inplace_flush :: "wal \<Rightarrow> bool" where
  "should_inplace_flush w \<longleftrightarrow> buffer_cursor w < length (wal_buffer w) div 2"

definition wal_flush :: "wal \<Rightarrow> wal" where
  "wal_flush w =
     (if buffer_cursor w = 0 then w
      else
        let w = clear_next_header w;
            w = w\<lparr>wal_file := write_at (file_offset w) (wal_buffer w) (wal_file w)\<rparr>;
            w = (if \<not> should_inplace_flush w
                 then w\<lparr>file_offset := file_offset w + length (wal_buffer w), buffer_cursor := 0\<rparr> else w)
        in w\<lparr>flushed_lsn := next_lsn w - 1, need_flush := False\<rparr>)"

text \<open>
  The critical section of \<^verbatim>\<open>append_and_wait\<close> for an entry that encodes to \<open>payload\<close>: the entry's number, or
  \<open>None\<close> and a request to flush when the buffer has no room for it.
\<close>

definition wal_append :: "wal \<Rightarrow> bytes \<Rightarrow> u64 \<Rightarrow> u64 option \<times> wal" where
  "wal_append w payload offset =
     (let required_bytes = log_header_size + length payload;
          remaining = length (wal_buffer w) - buffer_cursor w
      in if required_bytes > remaining then (None, w\<lparr>need_flush := True\<rparr>)
         else
           let header = \<lparr>log_len = of_nat required_bytes, lsn = next_lsn w, page_offset = offset\<rparr>
           in (Some (next_lsn w),
               w\<lparr>next_lsn := next_lsn w + 1, buffer_cursor := buffer_cursor w + required_bytes,
                 wal_buffer := write_at (buffer_cursor w) (log_header_as_slice header @ payload) (wal_buffer w)\<rparr>))"

text \<open>
  The same for a value of a type with the codec \<open>log_size\<close> and \<open>write_to_buffer\<close> of \<^verbatim>\<open>LogEntryImpl\<close>; \<open>None\<close> when
  sizing or encoding it panics.
\<close>

definition append_entry :: "('e \<Rightarrow> nat option) \<Rightarrow> ('e \<Rightarrow> bytes \<Rightarrow> bytes option) \<Rightarrow> wal \<Rightarrow> 'e \<Rightarrow> u64 \<Rightarrow> (u64 option \<times> wal) option" where
  "append_entry log_size write_to_buffer w e offset =
     do { n \<leftarrow> log_size e;
          if log_header_size + n > length (wal_buffer w) - buffer_cursor w then Some (None, w\<lparr>need_flush := True\<rparr>)
          else do {
            payload \<leftarrow> write_to_buffer e (read_at (buffer_cursor w + log_header_size) n (wal_buffer w));
            Some (wal_append w payload offset) } }"

text \<open>
  One round of the background job that was not stopped, after it was woken by a request to flush or by
  its timer; \<open>elapsed\<close>: the flush interval has passed since the last flush.
\<close>

definition background_flush_job :: "bool \<Rightarrow> wal \<Rightarrow> wal" where
  "background_flush_job elapsed w = (if need_flush w \<or> elapsed then wal_flush w else w)"

text \<open>When a caller that was given the number \<open>n\<close> stops waiting.\<close>

definition append_returns :: "wal \<Rightarrow> u64 \<Rightarrow> bool" where
  "append_returns w n \<longleftrightarrow> \<not> flushed_lsn w < n"

section \<open>The reader\<close>

text \<open>\<^verbatim>\<open>WalEntryIter\<close>: the entries of a segment from an offset on; \<open>None\<close> when a slice is out of bounds.\<close>

function entry_iter :: "bytes \<Rightarrow> nat \<Rightarrow> (log_header \<times> bytes) list option" where
  "entry_iter seg off =
     (if off + log_header_size \<ge> length seg then Some []
      else
        let header = log_header_from_slice (drop off seg); len = unat (log_len header)
        in if len = 0 then Some []
           else if len < log_header_size \<or> length seg < off + len then None
           else map_option ((#) (header, read_at (off + log_header_size) (len - log_header_size) seg))
                  (entry_iter seg (off + len)))"
  by pat_completeness auto

termination
  by (relation "measure (\<lambda>(seg, off). length seg - off)") (auto simp: log_header_size_def)

declare entry_iter.simps [simp del]

text \<open>\<^verbatim>\<open>WalSegmentIter\<close>: the segments of the file; \<open>None\<close> when the last one is cut off, and for
  a segment size of zero, for which the iteration does not end.\<close>

function segment_iter :: "nat \<Rightarrow> bytes \<Rightarrow> nat \<Rightarrow> bytes list option" where
  "segment_iter seg_size file cursor =
     (if cursor \<ge> length file then Some []
      else if seg_size = 0 \<or> cursor + seg_size > length file then None
      else map_option ((#) (read_at cursor seg_size file)) (segment_iter seg_size file (cursor + seg_size)))"
  by pat_completeness auto

termination
  by (relation "measure (\<lambda>(n, file, cursor). length file - cursor)") auto

declare segment_iter.simps [simp del]

text \<open>All entries of a log, as a user of the reader collects them.\<close>

fun concat_options :: "'a list option list \<Rightarrow> 'a list option" where
  "concat_options [] = Some []"
| "concat_options (x # xs) = do { y \<leftarrow> x; ys \<leftarrow> concat_options xs; Some (y @ ys) }"

definition read_log :: "nat \<Rightarrow> bytes \<Rightarrow> (log_header \<times> bytes) list option" where
  "read_log seg_size file =
     do { segs \<leftarrow> segment_iter seg_size file 0;
          concat_options (map (\<lambda>seg. entry_iter seg 0) segs) }"

text \<open>
  Recovery: every entry of the log, decoded as a \<^verbatim>\<open>LogEntry\<close>, is inserted into the recovered tree. The
  result is the list of records it inserts; \<open>None\<close> when it panics. The code reads with segments of 4096 bytes.
\<close>

definition recovered_record :: "bytes \<Rightarrow> (bytes \<times> bytes) option" where
  "recovered_record payload =
     (case log_entry_read_from_buffer payload of
        None \<Rightarrow> None
      | Some (Write op) \<Rightarrow> Some (op_key op, op_value op)
      | Some Split \<Rightarrow> None)"

definition recovery :: "nat \<Rightarrow> bytes \<Rightarrow> (bytes \<times> bytes) list option" where
  "recovery seg_size contents =
     do { items \<leftarrow> read_log seg_size contents;
          those (map (\<lambda>(header, payload). recovered_record payload) items) }"

section \<open>The interface of log entries\<close>

text \<open>
  \<^verbatim>\<open>LogEntryImpl\<close>: an entry knows its size, fills a buffer of that size regardless of what the buffer
  held, and is read back from it.
\<close>

locale log_entry_impl =
  fixes log_size :: "'e \<Rightarrow> nat option"
    and write_to_buffer :: "'e \<Rightarrow> bytes \<Rightarrow> bytes option"
    and read_from_buffer :: "bytes \<Rightarrow> 'e option"
    and valid :: "'e \<Rightarrow> bool"
  assumes codec: "valid e \<Longrightarrow> \<exists>n c. log_size e = Some n \<and> 0 < n \<and> length c = n \<and>
      (\<forall>b. length b = n \<longrightarrow> write_to_buffer e b = Some c) \<and> read_from_buffer c = Some e"
begin

definition encode :: "'e \<Rightarrow> bytes" where
  "encode e = (case log_size e of None \<Rightarrow> [] | Some n \<Rightarrow> (case write_to_buffer e (replicate n 0) of None \<Rightarrow> [] | Some c \<Rightarrow> c))"

lemma encode_props:
  assumes "valid e"
  shows "log_size e = Some (length (encode e))" "encode e \<noteq> []" "read_from_buffer (encode e) = Some e"
    "length b = length (encode e) \<Longrightarrow> write_to_buffer e b = Some (encode e)"
proof -
  obtain n c where c: "log_size e = Some n" "0 < n" "length c = n" "\<forall>b. length b = n \<longrightarrow> write_to_buffer e b = Some c"
    "read_from_buffer c = Some e" using codec [OF assms] by blast
  have "encode e = c" using c(1,4) by (simp add: encode_def)
  then show "log_size e = Some (length (encode e))" "encode e \<noteq> []" "read_from_buffer (encode e) = Some e"
    "length b = length (encode e) \<Longrightarrow> write_to_buffer e b = Some (encode e)" using c by auto
qed

end

definition write_op_ok :: "write_op \<Rightarrow> bool" where
  "write_op_ok op \<longleftrightarrow> length (op_key op) < 2 ^ 16 \<and> length (op_value op) < 2 ^ 16"

fun log_entry_ok :: "log_entry \<Rightarrow> bool" where
  "log_entry_ok (Write op) = write_op_ok op"
| "log_entry_ok Split = False"

lemma write_op_roundtrip:
  assumes "write_op_ok op" "length b = write_op_log_size op"
  shows "\<exists>c. write_op_write_to_buffer op b = Some c \<and> length c = write_op_log_size op \<and> write_op_read_from_buffer c = Some op"
proof -
  let ?k = "u16_to_le_bytes (of_nat (length (op_key op)))" and ?v = "u16_to_le_bytes (of_nat (length (op_value op)))"
  let ?c = "?k @ ?v @ of_nat (op_type_code (op_kind op)) # op_key op @ op_value op"
  have len: "unat (of_nat (length (op_key op)) :: u16) = length (op_key op)" "unat (of_nat (length (op_value op)) :: u16) = length (op_value op)"
    using assms(1) by (simp_all add: write_op_ok_def unat_of_nat_nowrap)
  have "unat (of_nat (op_type_code (op_kind op)) :: u8) = op_type_code (op_kind op)"
    using op_type_code_less [of "op_kind op"] by (intro unat_of_nat_nowrap) simp
  then have kind: "unat (?c ! 4) = op_type_code (op_kind op)" by (simp add: nth_append)
  have "read_at 0 2 ?c = ?k" "read_at 2 2 ?c = ?v" "read_at 5 (length (op_key op)) ?c = op_key op" "drop (5 + length (op_key op)) ?c = op_value op"
    by (simp_all add: read_at_def)
  then have "write_op_read_from_buffer ?c = Some op"
    using op_type_code_less [of "op_kind op"] by (simp add: write_op_read_from_buffer_def Let_def len kind)
  then show ?thesis using assms(2) by (simp add: write_op_write_to_buffer_def write_op_log_size_def)
qed

interpretation write_ops: log_entry_impl "\<lambda>op. Some (write_op_log_size op)" write_op_write_to_buffer write_op_read_from_buffer write_op_ok
proof
  fix op assume "write_op_ok op"
  note r = write_op_roundtrip [OF this]
  obtain c where c: "length c = write_op_log_size op" "write_op_read_from_buffer c = Some op"
    "write_op_write_to_buffer op (replicate (write_op_log_size op) 0) = Some c" using r [of "replicate (write_op_log_size op) 0"] by auto
  then have "\<forall>b. length b = write_op_log_size op \<longrightarrow> write_op_write_to_buffer op b = Some c" by (simp add: write_op_write_to_buffer_def)
  then show "\<exists>n c. Some (write_op_log_size op) = Some n \<and> 0 < n \<and> length c = n \<and>
      (\<forall>b. length b = n \<longrightarrow> write_op_write_to_buffer op b = Some c) \<and> write_op_read_from_buffer c = Some op"
    using c by (intro exI [of _ "write_op_log_size op"] exI [of _ c]) (simp add: write_op_log_size_def)
qed

interpretation log_entries: log_entry_impl log_entry_log_size log_entry_write_to_buffer log_entry_read_from_buffer log_entry_ok
proof
  fix e assume "log_entry_ok e"
  then obtain op where e: "e = Write op" "write_op_ok op" by (cases e) auto
  note w = write_ops.encode_props [OF e(2)]
  let ?c = "0 # write_ops.encode op"
  have "\<forall>b. length b = Suc (length (write_ops.encode op)) \<longrightarrow> log_entry_write_to_buffer e b = Some ?c"
    using w(4) e(1) by (auto simp: length_Suc_conv)
  moreover have "log_entry_read_from_buffer ?c = Some e" using w(3) e(1) by (simp add: log_entry_read_from_buffer_def)
  ultimately show "\<exists>n c. log_entry_log_size e = Some n \<and> 0 < n \<and> length c = n \<and>
      (\<forall>b. length b = n \<longrightarrow> log_entry_write_to_buffer e b = Some c) \<and> log_entry_read_from_buffer c = Some e"
    using w(1) e(1) by (intro exI [of _ "Suc (length (write_ops.encode op))"] exI [of _ ?c]) simp
qed

end
