(* ===== verification/Wal_Log.thy ===== *)
theory Wal_Log
  imports Wal
begin

text \<open>
  What the write-ahead log promises: every flushed entry is read back from the file, in order and
  with its number.
\<close>

section \<open>Reading what was written\<close>

text \<open>An accepted entry: its number, the page offset it was given and its encoding.\<close>

type_synonym logged = "u64 \<times> u64 \<times> bytes"

definition logged_header :: "logged \<Rightarrow> log_header" where
  "logged_header = (\<lambda>(l, off, p). \<lparr>log_len = of_nat (log_header_size + length p), lsn = l, page_offset = off\<rparr>)"

definition logged_bytes :: "logged \<Rightarrow> bytes" where
  "logged_bytes e = log_header_as_slice (logged_header e) @ snd (snd e)"

definition logged_item :: "logged \<Rightarrow> log_header \<times> bytes" where
  "logged_item e = (logged_header e, snd (snd e))"

lemma log_header_roundtrip [simp]: "log_header_from_slice (log_header_as_slice h @ rest) = h"
  by (simp add: log_header_from_slice_def log_header_as_slice_def read_at_def)

lemma length_logged_bytes [simp]: "length (logged_bytes e) = 24 + length (snd (snd e))"
  by (simp add: logged_bytes_def log_header_as_slice_def)

text \<open>Where the iteration over a segment stops: no room for another entry, or a cleared header.\<close>

definition log_end :: "bytes \<Rightarrow> bool" where
  "log_end rest \<longleftrightarrow> length rest \<le> 24 \<or> take 8 rest = replicate 8 0"

lemma u64_zero_bytes: "u64_from_le_bytes (replicate 8 0) = 0"
  by code_simp

lemma entry_iter_end:
  assumes "log_end rest"
  shows "entry_iter (pre @ rest) (length pre) = Some []"
  using assms u64_zero_bytes
  by (subst entry_iter.simps) (auto simp: log_end_def log_header_size_def log_header_from_slice_def read_at_def Let_def)

lemma entry_iter_entries:
  assumes "log_end rest" "\<forall>e\<in>set es. snd (snd e) \<noteq> []" "length (concat (map logged_bytes es)) < 2 ^ 64"
  shows "entry_iter (pre @ concat (map logged_bytes es) @ rest) (length pre) = Some (map logged_item es)"
  using assms(2,3)
proof (induction es arbitrary: pre)
  case Nil
  then show ?case using entry_iter_end [OF assms(1)] by simp
next
  case (Cons e es)
  let ?p = "snd (snd e)" and ?tail = "concat (map logged_bytes es) @ rest"
  have len: "unat (log_len (logged_header e)) = 24 + length ?p"
    using Cons.prems(2) unat_of_nat_nowrap [where 'a = 64, of "24 + length ?p"]
    by (cases e) (simp add: logged_header_def log_header_size_def)
  have "entry_iter (pre @ logged_bytes e @ ?tail) (length pre + (24 + length ?p)) = Some (map logged_item es)"
    using Cons.IH [of "pre @ logged_bytes e"] Cons.prems by (simp add: ac_simps)
  moreover have "read_at (length pre + 24) (length ?p) (pre @ logged_bytes e @ ?tail) = ?p"
    by (simp add: read_at_def logged_bytes_def log_header_as_slice_def)
  moreover have "log_header_from_slice (drop (length pre) (pre @ logged_bytes e @ ?tail)) = logged_header e"
    by (simp add: logged_bytes_def)
  ultimately show ?case using Cons.prems(1) len
    by (subst entry_iter.simps) (simp add: log_header_size_def Let_def logged_item_def)
qed

lemma segment_iter_segments:
  assumes "0 < n" "\<forall>s\<in>set segs. length s = n"
  shows "segment_iter n (pre @ concat segs) (length pre) = Some segs"
  using assms(2)
proof (induction segs arbitrary: pre)
  case Nil
  then show ?case by (subst segment_iter.simps) simp
next
  case (Cons s segs)
  have "segment_iter n (pre @ s @ concat segs) (length pre + n) = Some segs"
    using Cons.IH [of "pre @ s"] Cons.prems by simp
  then show ?case using Cons.prems assms(1) by (subst segment_iter.simps) (simp add: read_at_def)
qed

lemma read_log_segments:
  "0 < n \<Longrightarrow> \<forall>s\<in>set segs. length s = n \<Longrightarrow> read_log n (concat segs) = concat_options (map (\<lambda>s. entry_iter s 0) segs)"
  using segment_iter_segments [of n segs "[]"] by (simp add: read_log_def)

lemma concat_options_append:
  "concat_options (xs @ ys) = do { a \<leftarrow> concat_options xs; b \<leftarrow> concat_options ys; Some (a @ b) }"
  by (induction xs) (auto split: bind_splits)

section \<open>The invariant of the log\<close>

text \<open>
  \<open>es\<close> are the accepted entries and the first \<open>n\<close> of them are in the file. The full segments \<open>segs\<close> hold
  the entries \<open>old\<close>; the buffer holds the others, of which the segment \<open>last\<close>, to be written again, has the
  first \<open>j\<close>.
\<close>

definition wal_inv :: "nat \<Rightarrow> wal \<Rightarrow> logged list \<Rightarrow> nat \<Rightarrow> bool" where
  "wal_inv S w es n \<longleftrightarrow> (\<exists>segs last old cur j.
     wal_file w = concat segs @ last \<and> (\<forall>s\<in>set segs. length s = S) \<and> file_offset w = S * length segs \<and>
     concat_options (map (\<lambda>s. entry_iter s 0) segs) = Some (map logged_item old) \<and>
     (last = [] \<and> j = 0 \<or> length last = S \<and> entry_iter last 0 = Some (map logged_item (take j cur))) \<and>
     es = old @ cur \<and> j \<le> length cur \<and> n = length old + j \<and>
     length (wal_buffer w) = S \<and> buffer_cursor w \<le> S \<and>
     take (buffer_cursor w) (wal_buffer w) = concat (map logged_bytes cur) \<and>
     (\<forall>e\<in>set es. snd (snd e) \<noteq> []) \<and> map fst es = map of_nat [0..<length es] \<and>
     next_lsn w = of_nat (length es) \<and> flushed_lsn w = of_nat (n - 1))"

lemma wal_inv_new: "wal_inv (length contents) (wal_new contents) [] 0"
  unfolding wal_inv_def wal_new_def
  by (intro exI [of _ "[]"] exI [of _ "[] :: bytes"] exI [of _ "[] :: logged list"] exI [of _ 0]) simp

lemma wal_inv_read:
  assumes "wal_inv S w es n" "0 < S"
  shows "read_log S (wal_file w) = Some (map logged_item (take n es))"
proof -
  obtain segs last old cur j where i: "wal_file w = concat segs @ last" "\<forall>s\<in>set segs. length s = S"
    "concat_options (map (\<lambda>s. entry_iter s 0) segs) = Some (map logged_item old)"
    "last = [] \<and> j = 0 \<or> length last = S \<and> entry_iter last 0 = Some (map logged_item (take j cur))"
    "es = old @ cur" "n = length old + j"
    using assms(1) unfolding wal_inv_def by (elim exE conjE) (rule that)
  show ?thesis
  proof (cases "last = []")
    case True
    then show ?thesis using i assms(2) read_log_segments [OF assms(2) i(2)] by simp
  next
    case False
    then have last: "length last = S" "entry_iter last 0 = Some (map logged_item (take j cur))" using i(4) by auto
    have "read_log S (concat (segs @ [last])) = concat_options (map (\<lambda>s. entry_iter s 0) (segs @ [last]))"
      using i(2) last(1) by (intro read_log_segments [OF assms(2)]) auto
    then show ?thesis using i last(2) by (simp add: concat_options_append)
  qed
qed

lemma wal_inv_lsn:
  assumes "wal_inv S w es n"
  shows "next_lsn w = of_nat (length es)" "flushed_lsn w = of_nat (n - 1)" "n \<le> length es"
    "i < length es \<Longrightarrow> fst (es ! i) = of_nat i"
proof -
  have "next_lsn w = of_nat (length es) \<and> flushed_lsn w = of_nat (n - 1) \<and> n \<le> length es \<and> map fst es = map of_nat [0..<length es]"
    using assms unfolding wal_inv_def by (elim exE conjE) simp
  then show "next_lsn w = of_nat (length es)" "flushed_lsn w = of_nat (n - 1)" "n \<le> length es"
    "i < length es \<Longrightarrow> fst (es ! i) = of_nat i"
    using nth_map [of i es fst] by simp_all
qed

lemma wal_inv_buffer:
  assumes "wal_inv S w es n"
  shows "length (wal_buffer w) = S" "buffer_cursor w \<le> S"
  using assms unfolding wal_inv_def by blast+

lemma wal_inv_append:
  assumes "wal_inv S w es n" "p \<noteq> []" "wal_append w p off = (r, w')"
  shows "(r = None \<longrightarrow> wal_inv S w' es n) \<and>
    (\<forall>l. r = Some l \<longrightarrow> l = of_nat (length es) \<and> wal_inv S w' (es @ [(l, off, p)]) n)"
proof (cases "log_header_size + length p > length (wal_buffer w) - buffer_cursor w")
  case True
  then have "r = None" "w' = w\<lparr>need_flush := True\<rparr>" using assms(3) by (simp_all add: wal_append_def)
  moreover have "wal_inv S (w\<lparr>need_flush := True\<rparr>) es n = wal_inv S w es n" by (simp add: wal_inv_def)
  ultimately show ?thesis using assms(1) by simp
next
  case False
  obtain segs last old cur j where i: "wal_file w = concat segs @ last" "\<forall>s\<in>set segs. length s = S" "file_offset w = S * length segs"
    "concat_options (map (\<lambda>s. entry_iter s 0) segs) = Some (map logged_item old)"
    "last = [] \<and> j = 0 \<or> length last = S \<and> entry_iter last 0 = Some (map logged_item (take j cur))"
    "es = old @ cur" "j \<le> length cur" "n = length old + j" "length (wal_buffer w) = S" "buffer_cursor w \<le> S"
    "take (buffer_cursor w) (wal_buffer w) = concat (map logged_bytes cur)"
    "\<forall>e\<in>set es. snd (snd e) \<noteq> []" "map fst es = map of_nat [0..<length es]" "next_lsn w = of_nat (length es)" "flushed_lsn w = of_nat (n - 1)"
    using assms(1) unfolding wal_inv_def by (elim exE conjE) (rule that)
  define e where "e = (next_lsn w, off, p)"
  have w': "r = Some (next_lsn w)" "w' = w\<lparr>next_lsn := next_lsn w + 1, buffer_cursor := buffer_cursor w + (24 + length p),
      wal_buffer := write_at (buffer_cursor w) (logged_bytes e) (wal_buffer w)\<rparr>"
    using False assms(3) by (auto simp: wal_append_def Let_def e_def logged_bytes_def logged_header_def log_header_size_def)
  have room: "buffer_cursor w + length (logged_bytes e) \<le> S" using False i(9,10) by (simp add: log_header_size_def e_def)
  have filled: "length (concat (map logged_bytes cur)) = buffer_cursor w" using i(9,10) by (simp flip: i(11))
  have "take (buffer_cursor w + length (logged_bytes e)) (write_at (buffer_cursor w) (logged_bytes e) (wal_buffer w)) =
      concat (map logged_bytes (cur @ [e]))" by (simp add: write_at_def i(11) filled del: length_logged_bytes)
  moreover have "length (write_at (buffer_cursor w) (logged_bytes e) (wal_buffer w)) = S" using i(9) room by (simp add: write_at_def)
  ultimately have "wal_inv S w' (es @ [e]) n"
    unfolding wal_inv_def w'(2) using i room assms(2)
    by (intro exI [of _ segs] exI [of _ last] exI [of _ old] exI [of _ "cur @ [e]"] exI [of _ j]) (simp add: e_def)
  then show ?thesis using w'(1) i(14) by (simp add: e_def)
qed

lemma clear_next_header_log_end:
  assumes "buffer_cursor w \<le> length (wal_buffer w)"
  shows "\<exists>rest. wal_buffer (clear_next_header w) = take (buffer_cursor w) (wal_buffer w) @ rest \<and> log_end rest \<and>
    length (wal_buffer (clear_next_header w)) = length (wal_buffer w)"
proof (cases "buffer_cursor w + 8 \<le> length (wal_buffer w)")
  case True
  then show ?thesis by (auto simp: clear_next_header_def write_at_def log_end_def)
next
  case False
  then show ?thesis
    by (intro exI [of _ "drop (buffer_cursor w) (wal_buffer w)"]) (auto simp: clear_next_header_def log_end_def)
qed

text \<open>One flush: the segment at the file offset is the buffer, and it reads back as the buffer's entries.\<close>

lemma wal_flush_cases:
  assumes "buffer_cursor w \<noteq> 0"
  shows "wal_flush w = (clear_next_header w)\<lparr>
      wal_file := write_at (file_offset w) (wal_buffer (clear_next_header w)) (wal_file w),
      file_offset := (if should_inplace_flush w then file_offset w else file_offset w + length (wal_buffer w)),
      buffer_cursor := (if should_inplace_flush w then buffer_cursor w else 0),
      flushed_lsn := next_lsn w - 1, need_flush := False\<rparr>"
  using assms by (simp add: wal_flush_def Let_def clear_next_header_def should_inplace_flush_def write_at_def)

lemma logged_bytes_not_Nil [simp]: "logged_bytes e \<noteq> []"
  using length_logged_bytes [of e] by force

lemma wal_inv_flush:
  assumes "wal_inv S w es n" "S < 2 ^ 64"
  shows "wal_inv S (wal_flush w) es (length es)"
proof -
  obtain segs last old cur j where i: "wal_file w = concat segs @ last" "\<forall>s\<in>set segs. length s = S" "file_offset w = S * length segs"
    "concat_options (map (\<lambda>s. entry_iter s 0) segs) = Some (map logged_item old)"
    "last = [] \<and> j = 0 \<or> length last = S \<and> entry_iter last 0 = Some (map logged_item (take j cur))"
    "es = old @ cur" "j \<le> length cur" "n = length old + j" "length (wal_buffer w) = S" "buffer_cursor w \<le> S"
    "take (buffer_cursor w) (wal_buffer w) = concat (map logged_bytes cur)"
    "\<forall>e\<in>set es. snd (snd e) \<noteq> []" "map fst es = map of_nat [0..<length es]" "next_lsn w = of_nat (length es)" "flushed_lsn w = of_nat (n - 1)"
    using assms(1) unfolding wal_inv_def by (elim exE conjE) (rule that)
  show ?thesis
  proof (cases "buffer_cursor w = 0")
    case True
    then have "cur = []" using i(11) by (cases cur) simp_all
    then show ?thesis using assms(1) True i(6-8) by (simp add: wal_flush_def)
  next
    case False
    define buf where "buf = wal_buffer (clear_next_header w)"
    obtain rest where buf: "buf = concat (map logged_bytes cur) @ rest" "log_end rest" "length buf = S"
      using clear_next_header_log_end [of w] i(9-11) by (auto simp: buf_def)
    have "cur \<noteq> []" using False i(9-11) by auto
    then have lsn: "next_lsn w - 1 = of_nat (length es - 1)" using i(6,14) by (cases cur) simp_all
    have entries: "entry_iter buf 0 = Some (map logged_item cur)"
      using entry_iter_entries [OF buf(2), of cur "[]"] i(6,12) buf(1,3) assms(2) by simp
    have "length (concat (map logged_bytes cur)) = buffer_cursor w" using i(9,10) by (simp flip: i(11))
    then have taken: "take (buffer_cursor w) buf = concat (map logged_bytes cur)" by (simp add: buf(1))
    have "length (concat segs) = S * length segs" using i(2) by (induction segs) auto
    then have written: "write_at (file_offset w) buf (wal_file w) = concat segs @ buf"
      using i(1,3,5) buf(3) by (auto simp: write_at_def)
    note flush = wal_flush_cases [OF False, folded buf_def, unfolded written lsn]
    have keep: "next_lsn (clear_next_header w) = next_lsn w" by (simp add: clear_next_header_def)
    show ?thesis
    proof (cases "should_inplace_flush w")
      case True
      then show ?thesis unfolding wal_inv_def flush
        using i(2-4,6,10,12-14) buf(3) entries taken keep
        by (intro exI [of _ segs] exI [of _ buf] exI [of _ old] exI [of _ cur] exI [of _ "length cur"]) (simp add: buf_def)
    next
      case False
      then show ?thesis unfolding wal_inv_def flush
        using i(2-4,6,9,12-14) buf(3) entries keep
        by (intro exI [of _ "segs @ [buf]"] exI [of _ "[]"] exI [of _ es] exI [of _ "[] :: logged list"] exI [of _ 0])
          (simp add: buf_def concat_options_append)
    qed
  qed
qed

section \<open>Runs of the log\<close>

text \<open>
  The mutex serialises appenders and the background job; a run is a sequence of critical sections. The
  result is the log and what was accepted, in order.
\<close>

datatype 'e wal_cmd = Append_Cmd 'e u64 | Background_Cmd bool

fun wal_run :: "('e \<Rightarrow> nat option) \<Rightarrow> ('e \<Rightarrow> bytes \<Rightarrow> bytes option) \<Rightarrow> wal \<Rightarrow> 'e wal_cmd list \<Rightarrow> (wal \<times> (u64 \<times> u64 \<times> 'e) list) option" where
  "wal_run log_size write_to_buffer w [] = Some (w, [])"
| "wal_run log_size write_to_buffer w (Append_Cmd e off # cs) =
     do { (r, w) \<leftarrow> append_entry log_size write_to_buffer w e off;
          (w, accepted) \<leftarrow> wal_run log_size write_to_buffer w cs;
          Some (w, (case r of None \<Rightarrow> accepted | Some l \<Rightarrow> (l, off, e) # accepted)) }"
| "wal_run log_size write_to_buffer w (Background_Cmd elapsed # cs) =
     wal_run log_size write_to_buffer (background_flush_job elapsed w) cs"

fun wal_cmd_ok :: "('e \<Rightarrow> bool) \<Rightarrow> 'e wal_cmd \<Rightarrow> bool" where
  "wal_cmd_ok valid (Append_Cmd e off) = valid e"
| "wal_cmd_ok valid (Background_Cmd elapsed) = True"

text \<open>Reading the log file and decoding every entry.\<close>

definition replay :: "(bytes \<Rightarrow> 'e option) \<Rightarrow> nat \<Rightarrow> bytes \<Rightarrow> (u64 \<times> u64 \<times> 'e) list option" where
  "replay read_from_buffer seg_size contents =
     do { items \<leftarrow> read_log seg_size contents;
          those (map (\<lambda>(h, p). map_option (\<lambda>e. (lsn h, page_offset h, e)) (read_from_buffer p)) items) }"

context log_entry_impl
begin

definition logged_of :: "u64 \<times> u64 \<times> 'e \<Rightarrow> logged" where
  "logged_of = (\<lambda>(l, off, e). (l, off, encode e))"

lemma fst_logged_of [simp]: "fst (logged_of x) = fst x"
  by (simp add: logged_of_def split: prod.splits)

lemma those_decode:
  "\<forall>x\<in>set xs. valid (snd (snd x)) \<Longrightarrow>
   those (map ((\<lambda>(h, p). map_option (\<lambda>e. (lsn h, page_offset h, e)) (read_from_buffer p)) \<circ> logged_item \<circ> logged_of) xs) = Some xs"
proof (induction xs)
  case (Cons x xs)
  then show ?case using encode_props(3) [of "snd (snd x)"]
    by (cases x) (simp add: logged_of_def logged_item_def logged_header_def)
qed simp

lemma wal_inv_replay:
  assumes "wal_inv S w (map logged_of acc) n" "0 < S" "\<forall>x\<in>set acc. valid (snd (snd x))"
  shows "replay read_from_buffer S (wal_file w) = Some (take n acc)"
proof -
  have "\<forall>x\<in>set (take n acc). valid (snd (snd x))" using assms(3) by (auto dest: in_set_takeD)
  then show ?thesis using wal_inv_read [OF assms(1,2)] those_decode [of "take n acc"]
    by (simp add: replay_def take_map comp_assoc)
qed

lemma append_entry_encoded:
  assumes "valid e" "buffer_cursor w \<le> length (wal_buffer w)"
  shows "append_entry log_size write_to_buffer w e off = Some (wal_append w (encode e) off)"
proof -
  note enc = encode_props [OF assms(1)]
  show ?thesis
  proof (cases "log_header_size + length (encode e) > length (wal_buffer w) - buffer_cursor w")
    case True
    then show ?thesis by (simp add: append_entry_def enc(1) wal_append_def)
  next
    case False
    then have "length (read_at (buffer_cursor w + log_header_size) (length (encode e)) (wal_buffer w)) = length (encode e)"
      using assms(2) by (simp add: read_at_def)
    then show ?thesis using False enc(4) by (simp add: append_entry_def enc(1))
  qed
qed

lemma wal_run_inv:
  assumes "\<forall>c\<in>set cs. wal_cmd_ok valid c" "wal_inv S w (map logged_of acc) n" "\<forall>x\<in>set acc. valid (snd (snd x))" "S < 2 ^ 64"
  shows "\<exists>w' acc' n'. wal_run log_size write_to_buffer w cs = Some (w', acc') \<and> wal_inv S w' (map logged_of (acc @ acc')) n' \<and>
    (\<forall>x\<in>set (acc @ acc'). valid (snd (snd x)))"
  using assms(1-3)
proof (induction cs arbitrary: w acc n)
  case Nil
  then show ?case by auto
next
  case (Cons c cs)
  show ?case
  proof (cases c)
    case (Background_Cmd elapsed)
    then show ?thesis
      using Cons.IH [OF _ wal_inv_flush [OF Cons.prems(2) assms(4)]] Cons.IH [OF _ Cons.prems(2)] Cons.prems
      by (simp add: background_flush_job_def)
  next
    case (Append_Cmd e off)
    have ok: "valid e" using Cons.prems(1) Append_Cmd by simp
    obtain r w1 where a: "wal_append w (encode e) off = (r, w1)" by fastforce
    have app: "append_entry log_size write_to_buffer w e off = Some (r, w1)"
      using append_entry_encoded [OF ok] wal_inv_buffer [OF Cons.prems(2)] a by simp
    note inv = wal_inv_append [OF Cons.prems(2) encode_props(2) [OF ok] a]
    show ?thesis
    proof (cases r)
      case None
      then have "wal_inv S w1 (map logged_of acc) n" using inv by simp
      from Cons.IH [OF _ this Cons.prems(3)] show ?thesis using Cons.prems(1) None app Append_Cmd by auto
    next
      case (Some l)
      then have "wal_inv S w1 (map logged_of acc @ [(l, off, encode e)]) n" using inv by blast
      then have "wal_inv S w1 (map logged_of (acc @ [(l, off, e)])) n" by (simp add: logged_of_def)
      from Cons.IH [OF _ this] show ?thesis using Cons.prems(1,3) ok Some app Append_Cmd by auto
    qed
  qed
qed

lemma wal_run_new:
  assumes "\<forall>c\<in>set cs. wal_cmd_ok valid c" "length contents < 2 ^ 64"
  obtains w acc n where "wal_run log_size write_to_buffer (wal_new contents) cs = Some (w, acc)"
    "wal_inv (length contents) w (map logged_of acc) n" "\<forall>x\<in>set acc. valid (snd (snd x))"
  using wal_run_inv [where acc = "[]", OF assms(1), of "length contents" "wal_new contents" 0] assms(2) by (auto simp: wal_inv_new)

lemma run_replays:
  assumes "\<forall>c\<in>set cs. wal_cmd_ok valid c" "contents \<noteq> []" "length contents < 2 ^ 64"
  shows "\<exists>w acc. wal_run log_size write_to_buffer (wal_new contents) cs = Some (w, acc) \<and> map fst acc = map of_nat [0..<length acc] \<and>
    replay read_from_buffer (length contents) (wal_file (wal_flush w)) = Some acc"
proof -
  obtain w acc n where r: "wal_run log_size write_to_buffer (wal_new contents) cs = Some (w, acc)"
    "wal_inv (length contents) w (map logged_of acc) n"
    "\<forall>x\<in>set acc. valid (snd (snd x))" using wal_run_new [OF assms(1,3)] by blast
  have "replay read_from_buffer (length contents) (wal_file (wal_flush w)) = Some acc"
    using wal_inv_replay [OF wal_inv_flush [OF r(2) assms(3)] _ r(3)] assms(2) by simp
  moreover have "map fst acc = map of_nat [0..<length acc]"
    using wal_inv_lsn(4) [OF r(2)] by (intro nth_equalityI) simp_all
  ultimately show ?thesis using r(1) by blast
qed

lemma run_durable:
  assumes "\<forall>c\<in>set cs. wal_cmd_ok valid c" "contents \<noteq> []" "length contents < 2 ^ 64"
    "wal_run log_size write_to_buffer (wal_new contents) cs = Some (w, acc)" "length acc < 2 ^ 64" "i < length acc"
    "acc ! i = (l, off, e)" "0 < i" "append_returns w l"
  shows "\<exists>durable. replay read_from_buffer (length contents) (wal_file w) = Some durable \<and>
    durable = take (length durable) acc \<and> i < length durable"
proof -
  obtain n where r: "wal_inv (length contents) w (map logged_of acc) n" "\<forall>x\<in>set acc. valid (snd (snd x))"
    using wal_run_new [OF assms(1,3)] assms(4) by (metis option.inject prod.inject)
  have "l = of_nat i" using wal_inv_lsn(4) [OF r(1), of i] assms(6,7) by simp
  moreover have "n \<le> length acc" "flushed_lsn w = of_nat (n - 1)" using wal_inv_lsn(2,3) [OF r(1)] by simp_all
  ultimately have "\<not> n - 1 < i" using assms(5,6,9) word_of_nat_less_iff [where 'a = 64]
    by (simp add: append_returns_def unat_of_nat_nowrap word_less_nat_alt)
  then have "i < n" using assms(8) by simp
  then show ?thesis using wal_inv_replay [OF r(1) _ r(2)] \<open>n \<le> length acc\<close> assms(2) by auto
qed

end

section \<open>Properties\<close>


















end
