(* ===== verification/Mapping_Table.thy ===== *)
theory Mapping_Table
  imports Prelude
begin

text \<open>
  The mapping table (src/src/utils/mapping_table.rs): a table of batches of records, addressed by a
  consecutive identifier. \<open>None\<close> in the table is memory that was not initialised; reading it is undefined
  in the code and \<open>None\<close> in the model, as is the panic when all batches are used.
\<close>

section \<open>The table\<close>

definition max_batches :: nat where
  "max_batches = 128"

definition default_record_per_batch :: nat where
  "default_record_per_batch = 1024 * 1024"

type_synonym 'a record_batch = "'a option list"

definition record_batch_new :: "nat \<Rightarrow> 'a record_batch" where
  "record_batch_new record_per_batch = replicate record_per_batch None"

record 'a mapping_table =
  next_id :: nat
  current_initialized_batch :: nat
  batches :: "'a record_batch option list"
  record_per_batch :: nat

definition table_new :: "nat \<Rightarrow> 'a mapping_table" where
  "table_new n = \<lparr>next_id = 0, current_initialized_batch = 0,
     batches = Some (record_batch_new n) # replicate (max_batches - 1) None, record_per_batch = n\<rparr>"

definition get_batch_id :: "'a mapping_table \<Rightarrow> nat \<Rightarrow> nat" where
  "get_batch_id t i = i div record_per_batch t"

definition get_record_id :: "'a mapping_table \<Rightarrow> nat \<Rightarrow> nat" where
  "get_record_id t i = i mod record_per_batch t"

definition get_record :: "'a record_batch \<Rightarrow> nat \<Rightarrow> 'a option" where
  "get_record b i = (if i < length b then b ! i else None)"

definition get_batch :: "'a mapping_table \<Rightarrow> nat \<Rightarrow> 'a record_batch option" where
  "get_batch t i = (if i < length (batches t) then batches t ! i else None)"

definition table_get :: "'a mapping_table \<Rightarrow> nat \<Rightarrow> 'a option" where
  "table_get t i = do { b \<leftarrow> get_batch t (get_batch_id t i); get_record b (get_record_id t i) }"

definition table_set :: "'a mapping_table \<Rightarrow> nat \<Rightarrow> 'a \<Rightarrow> 'a mapping_table option" where
  "table_set t i v =
     (let batch_id = get_batch_id t i; record_id = get_record_id t i
      in do {
        t \<leftarrow> (if batch_id > current_initialized_batch t
              then if batch_id \<ge> max_batches then None
                   else Some (t\<lparr>batches := (batches t)[batch_id := Some (record_batch_new (record_per_batch t))],
                               current_initialized_batch := batch_id\<rparr>)
              else Some t);
        b \<leftarrow> get_batch t batch_id;
        if record_id < length b then Some (t\<lparr>batches := (batches t)[batch_id := Some (b[record_id := Some v])]\<rparr>)
        else None })"

definition peek_next_id :: "'a mapping_table \<Rightarrow> nat" where
  "peek_next_id t = next_id t"

definition table_insert :: "'a mapping_table \<Rightarrow> 'a \<Rightarrow> (nat \<times> 'a mapping_table) option" where
  "table_insert t v =
     (let page_id = next_id t; t = t\<lparr>next_id := next_id t + 1\<rparr>
      in do { t \<leftarrow> table_set t page_id v; _ \<leftarrow> table_get t page_id; Some (page_id, t) })"

fun set_all :: "'a mapping_table \<Rightarrow> (nat \<times> 'a) list \<Rightarrow> 'a mapping_table option" where
  "set_all t [] = Some t"
| "set_all t ((i, v) # xs) = do { t \<leftarrow> table_set (t\<lparr>next_id := i + 1\<rparr>) i v; set_all t xs }"

definition new_from_iter :: "(nat \<times> 'a) list \<Rightarrow> 'a mapping_table option" where
  "new_from_iter xs = set_all (table_new default_record_per_batch) xs"

section \<open>The records a table holds\<close>

text \<open>
  The table holds the list \<open>xs\<close>: every identifier below its length is mapped to its element, and a batch is
  initialised when it holds an identifier up to the last one.
\<close>

definition table_rep :: "nat \<Rightarrow> 'a mapping_table \<Rightarrow> 'a list \<Rightarrow> bool" where
  "table_rep n t xs \<longleftrightarrow>
     0 < n \<and> record_per_batch t = n \<and> next_id t = length xs \<and> length (batches t) = max_batches \<and>
     length xs \<le> max_batches * n \<and>
     current_initialized_batch t = (length xs - 1) div n \<and>
     (\<forall>k < max_batches. (case batches t ! k of
         None \<Rightarrow> (length xs - 1) div n < k
       | Some b \<Rightarrow> length b = n \<and> (\<forall>j < n. k * n + j < length xs \<longrightarrow> b ! j = Some (xs ! (k * n + j)))))"

lemma table_rep_new: "0 < n \<Longrightarrow> table_rep n (table_new n) []"
  by (auto simp: table_rep_def table_new_def max_batches_def record_batch_new_def nth_Cons split: nat.splits)

lemma table_rep_get:
  assumes "table_rep n t xs" "i < length xs"
  shows "table_get t i = Some (xs ! i)"
proof -
  have n: "0 < n" "record_per_batch t = n" "length (batches t) = max_batches" "length xs \<le> max_batches * n"
    and batch: "\<And>k. k < max_batches \<Longrightarrow> (case batches t ! k of None \<Rightarrow> (length xs - 1) div n < k
       | Some b \<Rightarrow> length b = n \<and> (\<forall>j < n. k * n + j < length xs \<longrightarrow> b ! j = Some (xs ! (k * n + j))))"
    using assms(1) by (simp_all add: table_rep_def)
  have k: "i div n < max_batches" using assms(2) n(1,4) by (intro less_mult_imp_div_less) simp
  have "i div n \<le> (length xs - 1) div n" using assms(2) by (intro div_le_mono) simp
  then obtain b where b: "batches t ! (i div n) = Some b" "length b = n"
    "\<forall>j < n. i div n * n + j < length xs \<longrightarrow> b ! j = Some (xs ! (i div n * n + j))"
    using batch [OF k] by (cases "batches t ! (i div n)") auto
  have "b ! (i mod n) = Some (xs ! i)" using b(3) n(1) assms(2) by (metis div_mult_mod_eq mod_less_divisor)
  then show ?thesis using b n k by (simp add: table_get_def get_batch_def get_batch_id_def get_record_def get_record_id_def)
qed

text \<open>The batch of the next identifier: the last initialised one, or the one after it at a batch boundary.\<close>

lemma next_batch:
  assumes "0 < (n :: nat)"
  shows "i div n \<le> Suc ((i - 1) div n)" "(i - 1) div n < i div n \<Longrightarrow> i mod n = 0"
proof -
  show "i div n \<le> Suc ((i - 1) div n)" using assms by (cases i) (auto simp: div_Suc)
  show "i mod n = 0" if "(i - 1) div n < i div n" using that by (cases i) (auto simp: div_Suc split: if_splits)
qed

lemma table_set_next:
  assumes "table_rep n t xs" "length xs < max_batches * n"
  shows "\<exists>b. length b = n \<and> (\<forall>j < n. length xs div n * n + j < length xs \<longrightarrow> b ! j = Some (xs ! (length xs div n * n + j))) \<and>
    table_set (t\<lparr>next_id := length xs + 1\<rparr>) (length xs) v =
      Some (t\<lparr>next_id := length xs + 1, current_initialized_batch := length xs div n,
        batches := (batches t)[length xs div n := Some (b[length xs mod n := Some v])]\<rparr>)"
proof -
  let ?k = "length xs div n"
  have n: "0 < n" "record_per_batch t = n" "length (batches t) = max_batches" "current_initialized_batch t = (length xs - 1) div n"
    and batch: "\<And>k. k < max_batches \<Longrightarrow> (case batches t ! k of None \<Rightarrow> (length xs - 1) div n < k
       | Some b \<Rightarrow> length b = n \<and> (\<forall>j < n. k * n + j < length xs \<longrightarrow> b ! j = Some (xs ! (k * n + j))))"
    using assms(1) by (simp_all add: table_rep_def)
  have k: "?k < max_batches" using assms(2) by (intro less_mult_imp_div_less)
  show ?thesis
  proof (cases "(length xs - 1) div n < ?k")
    case True
    then have "\<not> ?k * n + j < length xs" for j using next_batch(2) [OF n(1) True] by (metis div_mult_mod_eq add.right_neutral not_add_less1)
    then show ?thesis using True n k
      by (intro exI [of _ "record_batch_new n"])
        (simp add: table_set_def get_batch_id_def get_record_id_def get_batch_def record_batch_new_def Let_def)
  next
    case False
    have "(length xs - 1) div n \<le> ?k" by (intro div_le_mono) simp
    then have same: "(length xs - 1) div n = ?k" using False by simp
    obtain b where "batches t ! ?k = Some b" "length b = n" "\<forall>j < n. ?k * n + j < length xs \<longrightarrow> b ! j = Some (xs ! (?k * n + j))"
      using batch [OF k] same by (cases "batches t ! ?k") auto
    then show ?thesis using same n k
      by (intro exI [of _ b]) (simp add: table_set_def get_batch_id_def get_record_id_def get_batch_def Let_def)
  qed
qed

lemma table_rep_insert:
  assumes "table_rep n t xs" "length xs < max_batches * n"
  shows "\<exists>t'. table_insert t v = Some (length xs, t') \<and> table_rep n t' (xs @ [v])"
proof -
  let ?k = "length xs div n" and ?i = "length xs"
  obtain b where b: "length b = n" "\<forall>j < n. ?k * n + j < ?i \<longrightarrow> b ! j = Some (xs ! (?k * n + j))"
    "table_set (t\<lparr>next_id := ?i + 1\<rparr>) ?i v = Some (t\<lparr>next_id := ?i + 1, current_initialized_batch := ?k,
        batches := (batches t)[?k := Some (b[?i mod n := Some v])]\<rparr>)"
    using table_set_next [OF assms] by blast
  let ?t = "t\<lparr>next_id := ?i + 1, current_initialized_batch := ?k, batches := (batches t)[?k := Some (b[?i mod n := Some v])]\<rparr>"
  have n: "0 < n" "record_per_batch t = n" "length (batches t) = max_batches" "next_id t = ?i"
    and batch: "\<And>k. k < max_batches \<Longrightarrow> (case batches t ! k of None \<Rightarrow> (?i - 1) div n < k
       | Some b \<Rightarrow> length b = n \<and> (\<forall>j < n. k * n + j < ?i \<longrightarrow> b ! j = Some (xs ! (k * n + j))))"
    using assms(1) by (simp_all add: table_rep_def)
  have "case batches ?t ! k of None \<Rightarrow> ?k < k
      | Some b \<Rightarrow> length b = n \<and> (\<forall>j < n. k * n + j < Suc ?i \<longrightarrow> b ! j = Some ((xs @ [v]) ! (k * n + j)))" if k: "k < max_batches" for k
  proof (cases "k = ?k")
    case True
    have "b[?i mod n := Some v] ! j = Some ((xs @ [v]) ! (?k * n + j))" if j: "j < n" "?k * n + j < Suc ?i" for j
    proof (cases "j = ?i mod n")
      case True
      then show ?thesis using b(1) j(1) by simp
    next
      case False
      then have "?k * n + j < ?i" using j(2) by (metis div_mult_mod_eq add_left_cancel less_SucE)
      then show ?thesis using False b(2) j(1) by (simp add: nth_append)
    qed
    then show ?thesis using True k n(3) b(1) by simp
  next
    case False
    then have "\<not> (k * n + j = ?i \<and> j < n)" for j using n(1) by (metis div_mult_self3 div_less add.right_neutral not_less_zero)
    then have "k * n + j < Suc ?i \<longleftrightarrow> k * n + j < ?i" if "j < n" for j using that by (metis less_Suc_eq)
    moreover have "?k < k" if "(?i - 1) div n < k" using that False next_batch(1) [OF n(1), of ?i] by simp
    ultimately show ?thesis using batch [OF k] False by (auto simp: nth_append split: option.splits)
  qed
  then have "table_rep n ?t (xs @ [v])" using n assms(2) by (simp add: table_rep_def cong: option.case_cong)
  then show ?thesis using b(3) n(4) table_rep_get [of n ?t "xs @ [v]" ?i] by (simp add: table_insert_def Let_def)
qed

lemma table_insert_full:
  assumes "table_rep n t xs" "length xs = max_batches * n"
  shows "table_insert t v = None"
proof -
  have "0 < n" "record_per_batch t = n" "next_id t = length xs" "current_initialized_batch t = (length xs - 1) div n"
    using assms(1) by (simp_all add: table_rep_def)
  moreover from this(1) have "(length xs - 1) div n < max_batches" using assms(2) by (intro less_mult_imp_div_less) (simp add: max_batches_def)
  ultimately show ?thesis using assms(2) by (simp add: table_insert_def table_set_def get_batch_id_def Let_def)
qed

section \<open>The interface\<close>

text \<open>A table of bounded capacity that hands out consecutive identifiers and never moves a record.\<close>

locale id_table =
  fixes lookup :: "'t \<Rightarrow> nat \<Rightarrow> 'a option"
    and insert :: "'t \<Rightarrow> 'a \<Rightarrow> (nat \<times> 't) option"
    and holds :: "'t \<Rightarrow> 'a list \<Rightarrow> bool"
    and capacity :: nat
  assumes lookup_held: "holds t xs \<Longrightarrow> i < length xs \<Longrightarrow> lookup t i = Some (xs ! i)"
    and insert_held: "holds t xs \<Longrightarrow> length xs < capacity \<Longrightarrow> \<exists>t'. insert t v = Some (length xs, t') \<and> holds t' (xs @ [v])"
    and insert_at_capacity: "holds t xs \<Longrightarrow> length xs = capacity \<Longrightarrow> insert t v = None"

text \<open>Inserting a sequence of records, with the identifiers handed out.\<close>

fun insert_all :: "('t \<Rightarrow> 'a \<Rightarrow> (nat \<times> 't) option) \<Rightarrow> 't \<Rightarrow> 'a list \<Rightarrow> (nat list \<times> 't) option" where
  "insert_all ins t [] = Some ([], t)"
| "insert_all ins t (v # vs) = do { (i, t) \<leftarrow> ins t v; (is, t) \<leftarrow> insert_all ins t vs; Some (i # is, t) }"

context id_table
begin

lemma insert_all_held:
  assumes "holds t xs" "length xs + length vs \<le> capacity"
  shows "\<exists>t'. insert_all insert t vs = Some ([length xs..<length xs + length vs], t') \<and> holds t' (xs @ vs)"
  using assms
proof (induction vs arbitrary: t xs)
  case (Cons v vs)
  obtain t1 where t1: "insert t v = Some (length xs, t1)" "holds t1 (xs @ [v])"
    using insert_held [OF Cons.prems(1)] Cons.prems(2) by auto
  obtain t2 where "insert_all insert t1 vs = Some ([Suc (length xs)..<Suc (length xs + length vs)], t2)" "holds t2 (xs @ v # vs)"
    using Cons.IH [OF t1(2)] Cons.prems(2) by auto
  then show ?case using t1(1) by (simp add: upt_conv_Cons del: upt_Suc)
qed simp

lemma insert_all_over:
  assumes "holds t xs" "length xs \<le> capacity" "capacity < length xs + length vs"
  shows "insert_all insert t vs = None"
  using assms
proof (induction vs arbitrary: t xs)
  case (Cons v vs)
  show ?case
  proof (cases "length xs = capacity")
    case True
    then show ?thesis using insert_at_capacity [OF Cons.prems(1)] by simp
  next
    case False
    then obtain t1 where t1: "insert t v = Some (length xs, t1)" "holds t1 (xs @ [v])"
      using insert_held [OF Cons.prems(1)] Cons.prems(2) by fastforce
    then have "insert_all insert t1 vs = None" using Cons.IH [OF t1(2)] Cons.prems False by simp
    then show ?thesis using t1(1) by simp
  qed
qed simp

end

interpretation page_ids: id_table table_get table_insert "table_rep n" "max_batches * n" for n
proof
  show "table_get t i = Some (xs ! i)" if "table_rep n t xs" "i < length xs" for t :: "'a mapping_table" and xs i
    using table_rep_get [OF that] .
  show "\<exists>t'. table_insert t v = Some (length xs, t') \<and> table_rep n t' (xs @ [v])"
    if "table_rep n t xs" "length xs < max_batches * n" for t :: "'a mapping_table" and xs v using table_rep_insert [OF that] .
  show "table_insert t v = None" if "table_rep n t xs" "length xs = max_batches * n" for t :: "'a mapping_table" and xs v
    using table_insert_full [OF that] .
qed

text \<open>Restoring a table from consecutive identifiers is inserting the records.\<close>

lemma set_all_consecutive:
  assumes "table_rep n t xs" "length xs + length vs \<le> max_batches * n"
  shows "\<exists>t'. set_all t (zip [length xs..<length xs + length vs] vs) = Some t' \<and> table_rep n t' (xs @ vs)"
  using assms
proof (induction vs arbitrary: t xs)
  case (Cons v vs)
  obtain t1 where t1: "table_insert t v = Some (length xs, t1)" "table_rep n t1 (xs @ [v])"
    using table_rep_insert [OF Cons.prems(1)] Cons.prems(2) by auto
  moreover have "next_id t = length xs" using Cons.prems(1) by (simp add: table_rep_def)
  ultimately have "table_set (t\<lparr>next_id := length xs + 1\<rparr>) (length xs) v = Some t1"
    by (auto simp: table_insert_def Let_def split: bind_splits)
  moreover obtain t2 where "set_all t1 (zip [Suc (length xs)..<Suc (length xs + length vs)] vs) = Some t2" "table_rep n t2 (xs @ v # vs)"
    using Cons.IH [OF t1(2)] Cons.prems(2) by auto
  ultimately show ?case by (simp add: upt_conv_Cons del: upt_Suc)
qed simp

end
