(* ===== verification/Page_Table.thy ===== *)
theory Page_Table
  imports Mapping_Table
begin

text \<open>
  The page table (\<^verbatim>\<open>PageLocation\<close> and \<^verbatim>\<open>PageTable\<close> of src/src/storage.rs): where the leaf with a given number is,
  and how recovery rebuilds the table from the base pages of a snapshot (src/src/snapshot.rs). A page
  number stands for the identifier \<^verbatim>\<open>PageID::from_id\<close> of it.
\<close>

datatype page_location = MiniLoc nat | FullLoc nat | BaseLoc nat | NullLoc

type_synonym page_table = "page_location mapping_table"

definition page_table_new :: page_table where
  "page_table_new = table_new default_record_per_batch"

definition new_from_mapping :: "(nat \<times> page_location) list \<Rightarrow> page_table option" where
  "new_from_mapping m = new_from_iter m"

text \<open>A new entry for a base page whose disk space is at \<open>offset\<close>, and one for a mini-page.\<close>

definition alloc_base_page_mapping :: "page_table \<Rightarrow> nat \<Rightarrow> (nat \<times> page_table) option" where
  "alloc_base_page_mapping t offset = table_insert t (BaseLoc offset)"

definition insert_mini_page_mapping :: "page_table \<Rightarrow> page_location \<Rightarrow> (nat \<times> page_table) option" where
  "insert_mini_page_mapping t loc = (case loc of MiniLoc _ \<Rightarrow> table_insert t loc | _ \<Rightarrow> None)"

text \<open>\<^verbatim>\<open>PageTableIter\<close>: the entries below the next identifier, in order.\<close>

definition page_table_iter :: "page_table \<Rightarrow> (page_location \<times> nat) list option" where
  "page_table_iter t = those (map (\<lambda>i. map_option (\<lambda>l. (l, i)) (table_get t i)) [0..<peek_next_id t])"

section \<open>The page table of a recovered tree\<close>

text \<open>\<open>dense_from k m bs\<close>: locations for the \<open>m\<close> numbers from \<open>k\<close> on, from the sorted base pages \<open>bs\<close>.\<close>

fun dense_from :: "nat \<Rightarrow> nat \<Rightarrow> (nat \<times> nat) list \<Rightarrow> (nat \<times> page_location) list" where
  "dense_from k 0 bs = []"
| "dense_from k (Suc m) [] = (k, NullLoc) # dense_from (Suc k) m []"
| "dense_from k (Suc m) ((p, off) # bs) =
     (if p = k then (k, BaseLoc off) # dense_from (Suc k) m bs
      else (k, NullLoc) # dense_from (Suc k) m ((p, off) # bs))"

definition dense_base_page_loc_mapping :: "(nat \<times> nat) list \<Rightarrow> (nat \<times> page_location) list" where
  "dense_base_page_loc_mapping base_mapping =
     (let sorted = sort_key fst base_mapping
      in if sorted = [] then [] else dense_from 0 (fst (last sorted) + 1) sorted)"

text \<open>What the dense table should hold.\<close>

definition base_loc :: "(nat \<times> nat) list \<Rightarrow> nat \<Rightarrow> page_location" where
  "base_loc bs p = (case map_of bs p of None \<Rightarrow> NullLoc | Some off \<Rightarrow> BaseLoc off)"

lemma dense_from_locs:
  assumes "sorted (map fst bs)" "distinct (map fst bs)" "\<forall>p\<in>fst ` set bs. k \<le> p"
  shows "dense_from k m bs = zip [k..<k + m] (map (base_loc bs) [k..<k + m])"
  using assms
proof (induction k m bs rule: dense_from.induct)
  case (2 k m)
  then show ?case by (simp add: base_loc_def upt_conv_Cons del: upt_Suc)
next
  case (3 k m p off bs)
  show ?case
  proof (cases "p = k")
    case True
    have above: "\<forall>q\<in>fst ` set bs. Suc k \<le> q" using "3.prems" True by (force simp: Suc_le_eq less_le)
    have "map (base_loc bs) [Suc k..<Suc k + m] = map (base_loc ((p, off) # bs)) [Suc k..<Suc k + m]"
      using True by (intro map_cong) (auto simp: base_loc_def)
    moreover have "base_loc ((p, off) # bs) k = BaseLoc off" using True by (simp add: base_loc_def)
    ultimately show ?thesis using "3.IH"(1) [OF True] "3.prems" True above by (simp add: upt_conv_Cons del: upt_Suc map_eq_conv)
  next
    case False
    then have "\<forall>q\<in>fst ` set ((p, off) # bs). Suc k \<le> q" using "3.prems" by (force simp: Suc_le_eq less_le)
    moreover from this have "map_of ((p, off) # bs) k = None" by (force simp: map_of_eq_None_iff)
    ultimately show ?thesis using "3.IH"(2) [OF False] "3.prems" False by (simp add: upt_conv_Cons base_loc_def del: upt_Suc)
  qed
qed simp

lemma sorted_le_last:
  assumes "sorted (xs :: nat list)" "x \<in> set xs"
  shows "x \<le> last xs"
  using assms by (induction xs) auto

lemma dense_base_page_loc_mapping_locs:
  assumes "distinct (map fst base)" "base \<noteq> []"
  shows "dense_base_page_loc_mapping base = zip [0..<Max (fst ` set base) + 1] (map (base_loc base) [0..<Max (fst ` set base) + 1])"
proof -
  let ?s = "sort_key fst base"
  have s: "sorted (map fst ?s)" "distinct (map fst ?s)" "?s \<noteq> []"
    using assms by (simp_all add: distinct_map) (metis set_empty set_sort)
  have "last ?s \<in> set base" using last_in_set [OF s(3)] by simp
  then have "fst (last ?s) = Max (set (map fst ?s))"
    using s sorted_le_last [OF s(1)] by (intro Max_eqI [symmetric]) (auto simp: last_map)
  then have "fst (last ?s) = Max (fst ` set base)" by simp
  moreover have "map_of ?s = map_of base" using assms(1) s(2) by (intro map_of_eqI) (auto simp: map_of_eq_Some_iff)
  then have "base_loc ?s = base_loc base" by (simp add: base_loc_def fun_eq_iff)
  ultimately show ?thesis using s dense_from_locs [OF s(1,2), of 0 "fst (last ?s) + 1"] by (simp add: dense_base_page_loc_mapping_def)
qed

section \<open>Properties\<close>



text \<open>
  C24: The page table of a recovered tree. For base pages with distinct numbers below the capacity of the
  table, recovery succeeds; every captured page is found at its offset in the snapshot file, every number in
  a gap is a null page, and the next number to be handed out is one above the largest captured one.
\<close>

theorem recovered_table_dense:
  assumes "distinct (map fst base)" "base \<noteq> []" "\<forall>p\<in>fst ` set base. p < max_batches * default_record_per_batch"
  shows "\<exists>t. new_from_mapping (dense_base_page_loc_mapping base) = Some t \<and> peek_next_id t = Max (fst ` set base) + 1 \<and>
    (\<forall>(p, off)\<in>set base. table_get t p = Some (BaseLoc off)) \<and>
    (\<forall>p < peek_next_id t. p \<notin> fst ` set base \<longrightarrow> table_get t p = Some NullLoc)"
proof -
  let ?m = "Max (fst ` set base) + 1"
  have top: "?m \<le> max_batches * default_record_per_batch" using assms(2,3) by (metis Max_in finite_imageI finite_set image_is_empty set_empty Suc_eq_plus1 Suc_leI)
  have rep0: "table_rep default_record_per_batch (table_new default_record_per_batch :: page_table) []"
    by (intro table_rep_new) (simp add: default_record_per_batch_def)
  obtain t where t: "new_from_mapping (dense_base_page_loc_mapping base) = Some t"
    "table_rep default_record_per_batch t (map (base_loc base) [0..<?m])"
    using set_all_consecutive [OF rep0, of "map (base_loc base) [0..<?m]"] top dense_base_page_loc_mapping_locs [OF assms(1,2)]
    by (auto simp: new_from_mapping_def new_from_iter_def)
  have lookup: "table_get t p = Some (base_loc base p)" if "p < ?m" for p
    using page_ids.lookup_held [OF t(2), of p] that by (simp del: upt_Suc)
  have le: "p < ?m" if "p \<in> fst ` set base" for p using that by (simp add: less_Suc_eq_le)
  have "table_get t p = Some (BaseLoc off)" if "(p, off) \<in> set base" for p off
    using that lookup [OF le] assms(1) by (force simp: base_loc_def)
  moreover have "table_get t p = Some NullLoc" if "p < ?m" "p \<notin> fst ` set base" for p
    using lookup [OF that(1)] that(2) by (simp add: base_loc_def map_of_eq_None_iff [THEN iffD2])
  moreover have "peek_next_id t = ?m" using t(2) by (simp add: peek_next_id_def table_rep_def)
  ultimately show ?thesis using t(1) by auto
qed

theorem recovered_table_dense_witness:
  "\<exists>t. new_from_mapping (dense_base_page_loc_mapping [(3, 8192), (1, 4096)]) = Some t \<and> peek_next_id t = 4 \<and>
     table_get t 1 = Some (BaseLoc 4096) \<and> table_get t 2 = Some NullLoc"
  using recovered_table_dense [of "[(3, 8192), (1, 4096)]"] by (auto simp: max_batches_def default_record_per_batch_def)

end
