(* ===== verification/Version_Lock.thy ===== *)
theory Version_Lock
  imports Prelude
begin

text \<open>
  The version lock of inner nodes (src/src/utils/inner_lock.rs): optimistic readers remember the version and
  validate it, writers hold the lock by a version with bit 1 set. A thread's guard is its control state; every
  access to the shared version is one step. The node protected by the lock is any value; the model remembers
  in a read guard the node as it was when the guard was taken, to state what validation means.
\<close>

record 'n locked_node =
  version_lock :: u64
  node :: 'n

definition is_locked :: "u64 \<Rightarrow> bool" where
  "is_locked version \<longleftrightarrow> version AND 0b10 = 0b10"

definition try_read :: "'n locked_node \<Rightarrow> tree_error + u64" where
  "try_read l = (if is_locked (version_lock l) then Inl Locked else Inr (version_lock l))"

definition check_version :: "'n locked_node \<Rightarrow> u64 \<Rightarrow> tree_error + u64" where
  "check_version l v = (if version_lock l = v then Inr (version_lock l) else Inl Locked)"

text \<open>\<open>spurious\<close>: the weak compare-and-exchange fails although the version matches.\<close>

definition upgrade :: "bool \<Rightarrow> 'n locked_node \<Rightarrow> u64 \<Rightarrow> tree_error + 'n locked_node" where
  "upgrade spurious l v =
     (if version_lock l = v \<and> \<not> spurious then Inr (l\<lparr>version_lock := v + 0b10\<rparr>) else Inl Locked)"

definition write_guard_drop :: "'n locked_node \<Rightarrow> 'n locked_node" where
  "write_guard_drop l = l\<lparr>version_lock := version_lock l + 0b10\<rparr>"

definition downgrade :: "'n locked_node \<Rightarrow> u64 \<times> 'n locked_node" where
  "downgrade l = (version_lock l + 0b10, l\<lparr>version_lock := version_lock l + 0b10\<rparr>)"

text \<open>No code calls \<^verbatim>\<open>mark_obsolete\<close>; it is not a step of the threads below.\<close>

definition mark_obsolete :: "'n locked_node \<Rightarrow> 'n locked_node" where
  "mark_obsolete l = l\<lparr>version_lock := version_lock l + 0b01\<rparr>"

section \<open>Threads\<close>

datatype 'n guard = No_Guard | Read_Guard u64 'n | Write_Guard

type_synonym 'n lock_state = "'n locked_node \<times> (nat \<Rightarrow> 'n guard)"

text \<open>
  \<open>lock_run k s\<close>: the state \<open>s\<close> is reached from an unlocked node by any interleaving of the threads, with \<open>k\<close>
  acquisitions and releases of the lock.
\<close>

inductive lock_run :: "nat \<Rightarrow> 'n lock_state \<Rightarrow> bool" where
  start: "lock_run 0 (\<lparr>version_lock = 0, node = n\<rparr>, \<lambda>t. No_Guard)"
| try_read: "lock_run k (l, g) \<Longrightarrow> try_read l = Inr v \<Longrightarrow> lock_run k (l, g(t := Read_Guard v (node l)))"
| read_drop: "lock_run k (l, g) \<Longrightarrow> g t = Read_Guard v n \<Longrightarrow> lock_run k (l, g(t := No_Guard))"
| upgrade: "lock_run k (l, g) \<Longrightarrow> g t = Read_Guard v n \<Longrightarrow> upgrade spurious l v = Inr l' \<Longrightarrow>
    lock_run (Suc k) (l', g(t := Write_Guard))"
| write_node: "lock_run k (l, g) \<Longrightarrow> g t = Write_Guard \<Longrightarrow> lock_run k (l\<lparr>node := n\<rparr>, g)"
| write_drop: "lock_run k (l, g) \<Longrightarrow> g t = Write_Guard \<Longrightarrow> lock_run (Suc k) (write_guard_drop l, g(t := No_Guard))"
| downgrade: "lock_run k (l, g) \<Longrightarrow> g t = Write_Guard \<Longrightarrow> downgrade l = (v, l') \<Longrightarrow>
    lock_run (Suc k) (l', g(t := Read_Guard v (node l)))"

lemma is_locked_double: "is_locked (of_nat (2 * k)) = odd k"
proof -
  have "(w AND 2 = 2) = bit w 1" for w :: u64
  proof
    assume "w AND 2 = 2"
    then have "bit (w AND 2) 1" by simp
    then show "bit w 1" by (simp add: bit_and_iff)
  next
    assume "bit w 1"
    then show "w AND 2 = 2" by (intro bit_word_eqI) (auto simp: bit_and_iff bit_2_iff)
  qed
  moreover have "bit (of_nat (2 * k) :: u64) 1 = odd k"
    by (simp add: bit_of_nat_iff bit_double_iff bit_0)
  ultimately show ?thesis by (simp add: is_locked_def)
qed

section \<open>Invariant\<close>

text \<open>
  The version counts acquisitions and releases. The lock is held after an odd number of them, by exactly one
  thread; a read guard was taken after an even number of them, and if that was the last one, the node has not
  changed since.
\<close>

definition lock_inv :: "nat \<Rightarrow> 'n lock_state \<Rightarrow> bool" where
  "lock_inv k s \<longleftrightarrow>
     version_lock (fst s) = of_nat (2 * k) \<and>
     (odd k \<longleftrightarrow> (\<exists>t. snd s t = Write_Guard)) \<and> (\<forall>t u. snd s t = Write_Guard \<longrightarrow> snd s u = Write_Guard \<longrightarrow> t = u) \<and>
     (\<forall>t v n. snd s t = Read_Guard v n \<longrightarrow> (\<exists>j \<le> k. even j \<and> v = of_nat (2 * j) \<and> (j = k \<longrightarrow> n = node (fst s))))"

lemma double_inj:
  assumes "j < 2 ^ 63" "k < 2 ^ 63" "(of_nat (2 * j) :: u64) = of_nat (2 * k)"
  shows "j = k"
proof -
  have "unat (of_nat (2 * i) :: u64) = 2 * i" if "i < 2 ^ 63" for i using that by (intro unat_of_nat_nowrap) simp
  then show ?thesis using assms by (metis mult_left_cancel zero_neq_numeral)
qed

lemma lock_invD:
  assumes "lock_inv k (l, g)"
  shows "version_lock l = of_nat (2 * k)" "g t = Write_Guard \<Longrightarrow> odd k" "g t = Write_Guard \<Longrightarrow> g u = Write_Guard \<Longrightarrow> t = u"
    "g t = Read_Guard v n \<Longrightarrow> \<exists>j \<le> k. even j \<and> v = of_nat (2 * j) \<and> (j = k \<longrightarrow> n = node l)"
  using assms unfolding lock_inv_def by auto

text \<open>A read guard whose version is the current one was taken after the last release.\<close>

lemma current_guard:
  assumes "lock_inv k (l, g)" "k < 2 ^ 63" "g t = Read_Guard v n" "version_lock l = v"
  shows "even k" "n = node l"
proof -
  obtain j where "j \<le> k" "even j" "v = of_nat (2 * j)" "j = k \<longrightarrow> n = node l" using lock_invD(4) [OF assms(1,3)] by blast
  moreover from this have "j = k" using assms(2,4) lock_invD(1) [OF assms(1)] by (intro double_inj) auto
  ultimately show "even k" "n = node l" by simp_all
qed

lemma old_guards:
  assumes "lock_inv k (l, g)" "g t = Read_Guard v n"
  shows "\<exists>j \<le> Suc k. even j \<and> v = of_nat (2 * j) \<and> (j = Suc k \<longrightarrow> n = m)"
  using lock_invD(4) [OF assms] by (metis Suc_n_not_le_n le_SucI)

lemma lock_inv_run: "lock_run k s \<Longrightarrow> k < 2 ^ 63 \<Longrightarrow> lock_inv k s"
proof (induction rule: lock_run.induct)
  case (start n)
  then show ?case by (simp add: lock_inv_def)
next
  case (try_read k l g v t)
  then have inv: "lock_inv k (l, g)" by simp
  have "even k" "v = of_nat (2 * k)"
    using is_locked_double [of k] try_read.hyps(2) lock_invD(1) [OF inv] by (auto simp: try_read_def split: if_splits)
  then show ?case using inv by (auto simp: lock_inv_def)
next
  case (read_drop k l g t v n)
  then have inv: "lock_inv k (l, g)" by simp
  have "(\<exists>u. (g(t := No_Guard)) u = Write_Guard) = (\<exists>u. g u = Write_Guard)" using read_drop.hyps(2) by (metis fun_upd_apply guard.distinct(3,5))
  then show ?case using inv by (auto simp: lock_inv_def)
next
  case (upgrade k l g t v n spurious l')
  then have inv: "lock_inv k (l, g)" "k < 2 ^ 63" and l': "l' = l\<lparr>version_lock := of_nat (2 * Suc k)\<rparr>" "version_lock l = v"
    using lock_invD(1) [of k l g] by (auto simp: upgrade_def split: if_splits)
  have "even k" using current_guard(1) [OF inv upgrade.hyps(2) l'(2)] .
  then have "g u \<noteq> Write_Guard" for u using lock_invD(2) [OF inv(1)] by blast
  then show ?case using \<open>even k\<close> old_guards [OF inv(1)] by (auto simp: lock_inv_def l'(1))
next
  case (write_node k l g t n)
  then have inv: "lock_inv k (l, g)" "odd k" using lock_invD(2) by blast+
  have "\<exists>j \<le> k. even j \<and> v = of_nat (2 * j) \<and> (j = k \<longrightarrow> m = n)" if "g u = Read_Guard v m" for u v m
    using lock_invD(4) [OF inv(1) that] inv(2) by metis
  then show ?case using inv(1) by (simp add: lock_inv_def)
next
  case (write_drop k l g t)
  then have inv: "lock_inv k (l, g)" "odd k" using lock_invD(2) [of k l g t] by simp_all
  have "g u \<noteq> Write_Guard" if "u \<noteq> t" for u using that lock_invD(3) [OF inv(1)] write_drop.hyps(2) by blast
  then show ?case using inv old_guards [OF inv(1)] lock_invD(1) [OF inv(1)] by (auto simp: lock_inv_def write_guard_drop_def)
next
  case (downgrade k l g t v l')
  then have inv: "lock_inv k (l, g)" "odd k" using lock_invD(2) [of k l g t] by simp_all
  have "g u \<noteq> Write_Guard" if "u \<noteq> t" for u using that lock_invD(3) [OF inv(1)] downgrade.hyps(2) by blast
  moreover have "v = of_nat (2 * Suc k)" "l' = l\<lparr>version_lock := of_nat (2 * Suc k)\<rparr>"
    using downgrade.hyps(3) lock_invD(1) [OF inv(1)] by (auto simp: downgrade_def)
  ultimately show ?case using inv old_guards [OF inv(1)] by (auto simp: lock_inv_def)
qed

section \<open>Properties\<close>

text \<open>
  C11: Optimistic reading is sound. In every interleaving with fewer than \<open>2 ^ 63\<close> acquisitions and releases, at most
  one thread holds the lock; a reader whose version check succeeds has the node as it was when the guard was
  taken, with no writer active; and a reader whose upgrade succeeds becomes the only writer, on that same node.
\<close>

theorem version_lock_validates:
  assumes "lock_run k (l, g)" "k < 2 ^ 63"
  shows "(\<forall>t u. g t = Write_Guard \<and> g u = Write_Guard \<longrightarrow> t = u) \<and>
    (\<forall>t v n. g t = Read_Guard v n \<and> check_version l v = Inr v \<longrightarrow> node l = n \<and> (\<forall>u. g u \<noteq> Write_Guard)) \<and>
    (\<forall>t v n l'. g t = Read_Guard v n \<and> upgrade spurious l v = Inr l' \<longrightarrow>
       node l' = n \<and> is_locked (version_lock l') \<and> (\<forall>u. g u \<noteq> Write_Guard))"
proof -
  have inv: "lock_inv k (l, g)" using lock_inv_run [OF assms] .
  have current: "node l = n \<and> even k \<and> (\<forall>u. g u \<noteq> Write_Guard)" if "g t = Read_Guard v n" "version_lock l = v" for t v n
    using current_guard [OF inv assms(2) that] lock_invD(2) [OF inv] by blast
  have "is_locked (version_lock l + 2)" if "even k"
    using that is_locked_double [of "Suc k"] lock_invD(1) [OF inv] by (simp add: add.commute)
  then have "node l' = n \<and> is_locked (version_lock l') \<and> (\<forall>u. g u \<noteq> Write_Guard)"
    if "g t = Read_Guard v n" "upgrade spurious l v = Inr l'" for t v n l'
    using that current [OF that(1)] by (auto simp: upgrade_def split: if_splits)
  moreover have "node l = n \<and> (\<forall>u. g u \<noteq> Write_Guard)" if "g t = Read_Guard v n" "check_version l v = Inr v" for t v n
    using that current [OF that(1)] by (simp add: check_version_def split: if_splits)
  moreover have "t = u" if "g t = Write_Guard" "g u = Write_Guard" for t u using lock_invD(3) [OF inv that] .
  ultimately show ?thesis by blast
qed

theorem version_lock_validates_witness:
  "check_version \<lparr>version_lock = 4, node = 7 :: nat\<rparr> 4 = Inr 4 \<and>
   lock_run 2 (\<lparr>version_lock = 4, node = 7 :: nat\<rparr>, (\<lambda>t. No_Guard)(1 := Read_Guard 4 7)) \<and>
   (\<forall>u. ((\<lambda>t. No_Guard)(1 := Read_Guard 4 (7 :: nat))) u \<noteq> Write_Guard)"
proof -
  have "lock_run 0 (\<lparr>version_lock = 0, node = 5 :: nat\<rparr>, (\<lambda>t. No_Guard)(1 := Read_Guard 0 5))"
    using lock_run.try_read [OF lock_run.start [of 5], of 0 1] by (simp add: try_read_def is_locked_def)
  from lock_run.upgrade [OF this, of 1 0 5 False]
  have "lock_run 1 (\<lparr>version_lock = 2, node = 5 :: nat\<rparr>, (\<lambda>t. No_Guard)(1 := Write_Guard))" by (simp add: upgrade_def)
  from lock_run.write_node [OF this, of 1 7]
  have "lock_run 1 (\<lparr>version_lock = 2, node = 7 :: nat\<rparr>, (\<lambda>t. No_Guard)(1 := Write_Guard))" by simp
  from lock_run.downgrade [OF this, of 1]
  have r: "lock_run 2 (\<lparr>version_lock = 4, node = 7 :: nat\<rparr>, (\<lambda>t. No_Guard)(1 := Read_Guard 4 7))" by (simp add: downgrade_def numeral_2_eq_2)
  show ?thesis using version_lock_validates [OF r] r by (simp add: check_version_def)
qed

end
