(* ===== verification/Rw_Lock.thy ===== *)
theory Rw_Lock
  imports Prelude "HOL-Library.Multiset"
begin

text \<open>
  The upgradable reader-writer lock (src/src/utils/rw_lock.rs). Every atomic access to the lock word or the
  wake counter is one step of a thread; a thread's control state holds its local variables. A wait may return
  at any time, as \<^verbatim>\<open>atomic_wait::wait\<close> documents, and the weak compare-and-exchange may fail spuriously.
\<close>

record rw_lock =
  lock_val :: u32
  writer_wake_counter :: u32

definition rw_lock_new :: rw_lock where
  "rw_lock_new = \<lparr>lock_val = 0, writer_wake_counter = 0\<rparr>"

definition u32_max :: u32 where
  "u32_max = 0xFFFFFFFF"

datatype rw_pc =
    Idle
  | Read_Load | Read_Loop u32 | Read_Wait u32
  | Try_Read_Load | Try_Read_Cas u32
  | Reading | Read_Wake
  | Write_Load | Write_Loop u32 | Write_Counter | Write_Recheck u32 | Write_Wait u32
  | Try_Write_Load | Try_Write_Cas u32
  | Writing | Write_Wake

section \<open>Steps\<close>

text \<open>\<^verbatim>\<open>RwLock::read\<close>\<close>

fun read_step :: "bool \<Rightarrow> rw_lock \<Rightarrow> rw_pc \<Rightarrow> (rw_lock \<times> rw_pc) option" where
  "read_step spurious l Read_Load = Some (l, Read_Loop (lock_val l))"
| "read_step spurious l (Read_Loop v) =
     Some (if even v then
             if lock_val l = v \<and> \<not> spurious then (l\<lparr>lock_val := v + 2\<rparr>, Reading)
             else if odd (lock_val l) then (l, Read_Wait (lock_val l))
             else (l, Read_Loop (lock_val l))
           else (l, Read_Wait v))"
| "read_step spurious l (Read_Wait v) = Some (l, Read_Load)"
| "read_step spurious l _ = None"

text \<open>\<^verbatim>\<open>RwLock::try_read\<close>\<close>

fun try_read_step :: "bool \<Rightarrow> rw_lock \<Rightarrow> rw_pc \<Rightarrow> (rw_lock \<times> rw_pc) option" where
  "try_read_step spurious l Try_Read_Load =
     Some (l, if even (lock_val l) then Try_Read_Cas (lock_val l) else Idle)"
| "try_read_step spurious l (Try_Read_Cas v) =
     Some (if lock_val l = v \<and> \<not> spurious then (l\<lparr>lock_val := v + 2\<rparr>, Reading) else (l, Idle))"
| "try_read_step spurious l _ = None"

text \<open>\<^verbatim>\<open>RwLock::write\<close>; its compare-and-exchange is the strong one.\<close>

fun write_step :: "rw_lock \<Rightarrow> rw_pc \<Rightarrow> (rw_lock \<times> rw_pc) option" where
  "write_step l Write_Load = Some (l, Write_Loop (lock_val l))"
| "write_step l (Write_Loop s) =
     Some (if s \<le> 1 then
             if lock_val l = s then (l\<lparr>lock_val := u32_max\<rparr>, Writing) else (l, Write_Loop (lock_val l))
           else if even s then
             if lock_val l = s then (l\<lparr>lock_val := s + 1\<rparr>, Write_Counter) else (l, Write_Loop (lock_val l))
           else (l, Write_Counter))"
| "write_step l Write_Counter = Some (l, Write_Recheck (writer_wake_counter l))"
| "write_step l (Write_Recheck w) =
     Some (if lock_val l \<ge> 2 \<and> odd (lock_val l) then (l, Write_Wait w) else (l, Write_Loop (lock_val l)))"
| "write_step l (Write_Wait w) = Some (l, Write_Load)"
| "write_step l _ = None"

text \<open>\<^verbatim>\<open>RwLock::try_write\<close>\<close>

fun try_write_step :: "bool \<Rightarrow> rw_lock \<Rightarrow> rw_pc \<Rightarrow> (rw_lock \<times> rw_pc) option" where
  "try_write_step spurious l Try_Write_Load =
     Some (l, if lock_val l \<le> 1 then Try_Write_Cas (lock_val l) else Idle)"
| "try_write_step spurious l (Try_Write_Cas s) =
     Some (if lock_val l = s \<and> \<not> spurious then (l\<lparr>lock_val := u32_max\<rparr>, Writing) else (l, Idle))"
| "try_write_step spurious l _ = None"

text \<open>Dropping a read guard: the last reader before a waiting writer wakes it.\<close>

fun read_drop_step :: "rw_lock \<Rightarrow> rw_pc \<Rightarrow> (rw_lock \<times> rw_pc) option" where
  "read_drop_step l Reading = Some (l\<lparr>lock_val := lock_val l - 2\<rparr>, if lock_val l = 3 then Read_Wake else Idle)"
| "read_drop_step l Read_Wake = Some (l\<lparr>writer_wake_counter := writer_wake_counter l + 1\<rparr>, Idle)"
| "read_drop_step l _ = None"

fun try_upgrade_step :: "bool \<Rightarrow> rw_lock \<Rightarrow> rw_pc \<Rightarrow> (rw_lock \<times> rw_pc) option" where
  "try_upgrade_step spurious l Reading =
     Some (if lock_val l = 2 \<and> \<not> spurious then (l\<lparr>lock_val := u32_max\<rparr>, Writing) else (l, Reading))"
| "try_upgrade_step spurious l _ = None"

text \<open>Dropping a write guard.\<close>

fun write_drop_step :: "rw_lock \<Rightarrow> rw_pc \<Rightarrow> (rw_lock \<times> rw_pc) option" where
  "write_drop_step l Writing = Some (l\<lparr>lock_val := 0\<rparr>, Write_Wake)"
| "write_drop_step l Write_Wake = Some (l\<lparr>writer_wake_counter := writer_wake_counter l + 1\<rparr>, Idle)"
| "write_drop_step l _ = None"

text \<open>A thread without a guard enters one of the four methods.\<close>

definition enters :: "rw_pc \<Rightarrow> rw_pc \<Rightarrow> bool" where
  "enters pc pc' \<longleftrightarrow> pc = Idle \<and> pc' \<in> {Read_Load, Try_Read_Load, Write_Load, Try_Write_Load}"

definition thread_steps :: "rw_lock \<Rightarrow> rw_pc \<Rightarrow> rw_lock \<Rightarrow> rw_pc \<Rightarrow> bool" where
  "thread_steps l pc l' pc' \<longleftrightarrow>
     (l' = l \<and> enters pc pc') \<or>
     (\<exists>spurious. Some (l', pc') \<in> {read_step spurious l pc, try_read_step spurious l pc, write_step l pc,
        try_write_step spurious l pc, read_drop_step l pc, try_upgrade_step spurious l pc, write_drop_step l pc})"

inductive rw_run :: "nat \<Rightarrow> rw_lock \<Rightarrow> rw_pc list \<Rightarrow> bool" for n where
  start: "rw_run n rw_lock_new (replicate n Idle)"
| step: "rw_run n l pcs \<Longrightarrow> t < n \<Longrightarrow> thread_steps l (pcs ! t) l' pc' \<Longrightarrow> rw_run n l' (pcs[t := pc'])"

section \<open>Invariant\<close>

text \<open>
  The lock word is twice the number of readers, plus one when a writer waits; or it is the largest value, and
  then there is one writer and no reader.
\<close>

definition rw_inv :: "rw_lock \<Rightarrow> nat \<Rightarrow> nat \<Rightarrow> bool" where
  "rw_inv l r w \<longleftrightarrow>
     (w = 0 \<and> unat (lock_val l) div 2 = r) \<or> (w = 1 \<and> r = 0 \<and> lock_val l = u32_max)"

text \<open>A value kept for a compare-and-exchange passed the test before it.\<close>

fun pc_ok :: "rw_pc \<Rightarrow> bool" where
  "pc_ok (Try_Read_Cas v) = even v"
| "pc_ok (Try_Write_Cas s) = (s \<le> 1)"
| "pc_ok _ = True"

lemma even_unat: "even (unat (v :: u32)) = even v"
proof -
  have "bit (unat v) 0 = bit v 0" by (simp add: bit_unsigned_iff)
  then show ?thesis by (simp add: bit_0)
qed

lemma unat_u32_max: "unat u32_max = 2 ^ 32 - 1"
  by (simp add: u32_max_def)

lemma word_le_1: "(s :: u32) \<le> 1 \<longleftrightarrow> unat s div 2 = 0"
  by (auto simp: word_le_nat_alt)

text \<open>How one step of a thread changes the numbers of readers and writers.\<close>

definition readers_after :: "rw_pc \<Rightarrow> rw_pc \<Rightarrow> rw_pc \<Rightarrow> nat \<Rightarrow> nat" where
  "readers_after kind pc pc' r = (if pc = kind then r - 1 else r) + (if pc' = kind then 1 else 0)"

lemma rw_inv_add:
  assumes "rw_inv l r w" "r < 2 ^ 31 - 1" "even (lock_val l)"
  shows "w = 0" "rw_inv (l\<lparr>lock_val := lock_val l + 2\<rparr>) (Suc r) 0"
proof -
  have v: "w = 0 \<and> unat (lock_val l) = 2 * r"
    using assms(1,3) even_unat [of "lock_val l"] unat_u32_max by (auto simp: rw_inv_def even_two_times_div_two u32_max_def)
  then show "w = 0" by simp
  have "unat (lock_val l + 2) = 2 * r + 2" using v assms(2) by (subst unat_add_nowrap) auto
  then show "rw_inv (l\<lparr>lock_val := lock_val l + 2\<rparr>) (Suc r) 0" by (simp add: rw_inv_def)
qed

lemma rw_inv_flag:
  assumes "rw_inv l r w" "r < 2 ^ 31 - 1" "even (lock_val l)"
  shows "rw_inv (l\<lparr>lock_val := lock_val l + 1\<rparr>) r w"
proof -
  have v: "w = 0 \<and> unat (lock_val l) = 2 * r"
    using assms(1,3) even_unat [of "lock_val l"] unat_u32_max by (auto simp: rw_inv_def even_two_times_div_two u32_max_def)
  then have "unat (lock_val l + 1) = 2 * r + 1" using assms(2) by (subst unat_add_nowrap) auto
  then show ?thesis using v by (simp add: rw_inv_def)
qed

lemma rw_inv_acquire:
  assumes "rw_inv l r w" "r < 2 ^ 31 - 1" "lock_val l \<le> 1"
  shows "r = 0" "w = 0" "rw_inv (l\<lparr>lock_val := u32_max\<rparr>) 0 1"
  using assms by (auto simp: rw_inv_def word_le_1 unat_u32_max)

lemma rw_inv_drop_read:
  assumes "rw_inv l r w" "0 < r" "r < 2 ^ 31 - 1"
  shows "rw_inv (l\<lparr>lock_val := lock_val l - 2\<rparr>) (r - 1) w"
proof -
  have v: "w = 0" "unat (lock_val l) div 2 = r" using assms by (auto simp: rw_inv_def)
  have "unat (lock_val l - 2) = unat (lock_val l) - 2"
    using v(2) assms(2) by (subst unat_sub) (auto simp: word_le_nat_alt)
  then show ?thesis using v assms(2) by (auto simp: rw_inv_def)
qed

lemma rw_inv_upgrade:
  assumes "rw_inv l r w" "lock_val l = 2"
  shows "r = 1" "w = 0" "rw_inv (l\<lparr>lock_val := u32_max\<rparr>) 0 1"
  using assms by (auto simp: rw_inv_def u32_max_def)

lemma thread_step_inv:
  assumes "thread_steps l pc l' pc'" "pc_ok pc" "rw_inv l r w" "r < 2 ^ 31 - 1" "pc = Reading \<longrightarrow> 0 < r" "pc = Writing \<longrightarrow> 0 < w"
  shows "pc_ok pc' \<and> rw_inv l' (readers_after Reading pc pc' r) (readers_after Writing pc pc' w)"
proof (cases pc)
  case Reading
  then consider "l' = l\<lparr>lock_val := lock_val l - 2\<rparr>" "pc' \<in> {Read_Wake, Idle}" | "l' = l\<lparr>lock_val := u32_max\<rparr>" "pc' = Writing" "lock_val l = 2"
    | "l' = l" "pc' = Reading"
    using assms(1) by (auto simp: thread_steps_def enters_def split: if_splits)
  then show ?thesis
  proof cases
    case 1
    then show ?thesis using Reading rw_inv_drop_read [OF assms(3) _ assms(4)] assms(5) by (auto simp: readers_after_def)
  next
    case 2
    then show ?thesis using Reading rw_inv_upgrade [OF assms(3)] by (simp add: readers_after_def)
  next
    case 3
    then show ?thesis using Reading assms(3,5) by (simp add: readers_after_def)
  qed
next
  case (Read_Loop v)
  then show ?thesis using assms(1,3) rw_inv_add [OF assms(3,4)]
    by (auto simp: thread_steps_def enters_def readers_after_def split: if_splits)
next
  case (Try_Read_Cas v)
  then show ?thesis using assms(1-3) rw_inv_add [OF assms(3,4)]
    by (auto simp: thread_steps_def enters_def readers_after_def split: if_splits)
next
  case (Write_Loop s)
  then show ?thesis using assms(1,3) rw_inv_acquire [OF assms(3,4)] rw_inv_flag [OF assms(3,4)]
    by (auto simp: thread_steps_def enters_def readers_after_def split: if_splits)
next
  case (Try_Write_Cas s)
  then show ?thesis using assms(1-3) rw_inv_acquire [OF assms(3,4)]
    by (auto simp: thread_steps_def enters_def readers_after_def split: if_splits)
next
  case Writing
  then have "l' = l\<lparr>lock_val := 0\<rparr>" "pc' = Write_Wake" using assms(1) by (auto simp: thread_steps_def enters_def)
  then show ?thesis using Writing assms(3,6) by (auto simp: readers_after_def rw_inv_def)
qed (use assms(1,3) in \<open>auto simp: thread_steps_def enters_def readers_after_def rw_inv_def split: if_splits\<close>)

text \<open>The numbers of readers and writers of a list of threads.\<close>

lemma count_update:
  assumes "t < length pcs"
  shows "count (mset (pcs[t := pc'])) kind = readers_after kind (pcs ! t) pc' (count (mset pcs) kind)"
  using assms by (simp add: mset_update readers_after_def)

lemma rw_run_inv:
  assumes "rw_run n l pcs" "n < 2 ^ 31 - 1"
  shows "length pcs = n \<and> (\<forall>pc\<in>set pcs. pc_ok pc) \<and> rw_inv l (count (mset pcs) Reading) (count (mset pcs) Writing)"
  using assms(1)
proof induction
  case start
  then show ?case by (simp add: rw_lock_new_def rw_inv_def count_eq_zero_iff [THEN iffD2])
next
  case (step l pcs t l' pc')
  then have ih: "length pcs = n" "\<forall>pc\<in>set pcs. pc_ok pc" "rw_inv l (count (mset pcs) Reading) (count (mset pcs) Writing)" by simp_all
  have "count (mset pcs) Reading < 2 ^ 31 - 1" using assms(2) ih(1) count_le_size [of "mset pcs" Reading] by simp
  moreover have "0 < count (mset pcs) (pcs ! t)" using step.hyps(2) ih(1) by simp
  then have "pcs ! t = Reading \<longrightarrow> 0 < count (mset pcs) Reading" "pcs ! t = Writing \<longrightarrow> 0 < count (mset pcs) Writing" by metis+
  moreover have "pc_ok (pcs ! t)" using step.hyps(2) ih(1,2) by simp
  ultimately have "pc_ok pc' \<and> rw_inv l' (readers_after Reading (pcs ! t) pc' (count (mset pcs) Reading))
      (readers_after Writing (pcs ! t) pc' (count (mset pcs) Writing))"
    using thread_step_inv [OF step.hyps(3) _ ih(3)] by blast
  then show ?case using ih step.hyps(2) by (auto simp: count_update dest: set_update_subset_insert [THEN subsetD])
qed

section \<open>Properties\<close>

text \<open>
  C10: Mutual exclusion. In every interleaving of fewer than \<open>2 ^ 31 - 1\<close> threads, through blocking and
  non-blocking acquisition, upgrades and releases, a thread that holds the write guard is the only one that
  holds a guard.
\<close>

theorem rw_lock_exclusive:
  assumes "rw_run n l pcs" "n < 2 ^ 31 - 1"
  shows "\<forall>i < n. \<forall>j < n. pcs ! i = Writing \<and> pcs ! j \<in> {Reading, Writing} \<longrightarrow> i = j"
proof (intro allI impI, rule ccontr)
  fix i j assume ij: "i < n" "j < n" "pcs ! i = Writing \<and> pcs ! j \<in> {Reading, Writing}" and ne: "i \<noteq> j"
  note inv = rw_run_inv [OF assms]
  have "Writing \<in># mset pcs" using ij(1,3) inv by (metis nth_mem set_mset_mset)
  then have "count (mset pcs) Writing \<noteq> 0" by (simp add: count_eq_zero_iff)
  then have one: "count (mset pcs) Writing = 1" "count (mset pcs) Reading = 0" using inv by (auto simp: rw_inv_def)
  have "mset (pcs[i := Idle]) = add_mset Idle (mset pcs - {#Writing#})" using ij(1,3) inv by (simp add: mset_update)
  then have "count (mset (pcs[i := Idle])) Writing = 0" "count (mset (pcs[i := Idle])) Reading = 0" using one by simp_all
  moreover have "pcs[i := Idle] ! j = pcs ! j" "j < length (pcs[i := Idle])" using ne ij(2) inv by simp_all
  then have "pcs ! j \<in># mset (pcs[i := Idle])" by (metis nth_mem set_mset_mset)
  ultimately show False using ij(3) by (auto simp: count_eq_zero_iff)
qed

theorem rw_lock_exclusive_witness:
  "rw_run 2 \<lparr>lock_val = u32_max, writer_wake_counter = 0\<rparr> [Writing, Idle] \<and>
   [Writing, Idle] ! 1 \<noteq> Reading \<and> [Writing, Idle] ! 1 \<noteq> Writing"
proof -
  have step: "rw_run 2 l [pc', Idle]" if "rw_run 2 l0 [pc, Idle]" "thread_steps l0 pc l pc'" for l0 pc l pc'
    using rw_run.step [OF that(1), of 0] that(2) by simp
  have "rw_run 2 rw_lock_new [Idle, Idle]" using rw_run.start [of 2] by (simp add: numeral_2_eq_2)
  from step [OF this, of rw_lock_new Write_Load] have "rw_run 2 rw_lock_new [Write_Load, Idle]" by (simp add: thread_steps_def enters_def)
  from step [OF this, of rw_lock_new "Write_Loop 0"] have "rw_run 2 rw_lock_new [Write_Loop 0, Idle]"
    by (simp add: thread_steps_def rw_lock_new_def)
  from step [OF this, of "\<lparr>lock_val = u32_max, writer_wake_counter = 0\<rparr>" Writing]
  have r: "rw_run 2 \<lparr>lock_val = u32_max, writer_wake_counter = 0\<rparr> [Writing, Idle]" by (simp add: thread_steps_def rw_lock_new_def)
  have "[Writing, Idle] ! 1 \<notin> {Reading, Writing}"
    using rw_lock_exclusive [OF r, rule_format, of 0 1] by auto
  then show ?thesis using r by simp
qed

end
