(* ===== verification/Snapshot_Handshake.thy ===== *)
theory Snapshot_Handshake
  imports Page_Id
begin

text \<open>
  The snapshot manager's state word and the handshake between worker threads that reserve a slot and the
  manager that moves all of them to the next phase or freezes the tree (src/src/snapshot.rs). Every access to
  a shared variable is one step; the fences in the code make the accesses sequentially consistent where
  the protocol needs it, and the model is sequentially consistent.
\<close>

section \<open>The state word\<close>

definition invalid_snapshot_state :: u64 where
  "invalid_snapshot_state = 0xFFFFFFFFFFFFFFFF"

definition max_snapshot_thread_num :: nat where
  "max_snapshot_thread_num = 64"

definition phase_id_shift :: nat where
  "phase_id_shift = 61"

definition phase_id_mask :: u64 where
  "phase_id_mask = push_bit phase_id_shift 0b111"

definition version_mask :: u64 where
  "version_mask = push_bit phase_id_shift 1 - 1"

datatype phase_id = Rest | Prepare | InProgress | Sweep

text \<open>\<open>None\<close>: the panic for an invalid phase.\<close>

definition phase_from_raw :: "u64 \<Rightarrow> phase_id option" where
  "phase_from_raw v =
     (if v = 0 then Some Rest else if v = 1 then Some Prepare else if v = 2 then Some InProgress
      else if v = 3 then Some Sweep else None)"

fun phase_as_raw :: "phase_id \<Rightarrow> u64" where
  "phase_as_raw Rest = 0"
| "phase_as_raw Prepare = 1"
| "phase_as_raw InProgress = 2"
| "phase_as_raw Sweep = 3"

definition new_snapshot_state :: "u64 \<Rightarrow> u64 \<Rightarrow> u64 option" where
  "new_snapshot_state phase version =
     (if phase < 4 \<and> version < push_bit phase_id_shift 1 then Some (push_bit phase_id_shift phase OR version) else None)"

definition state_version :: "u64 \<Rightarrow> u64" where
  "state_version s = s AND version_mask"

definition state_phase :: "u64 \<Rightarrow> phase_id option" where
  "state_phase s = phase_from_raw (drop_bit phase_id_shift (s AND phase_id_mask))"

section \<open>The manager\<close>

record snapshot_mgr =
  global_state :: u64
  thread_slots :: "bool list"
  thread_local_states :: "u64 list"
  pause_snapshot :: bool
  phase_waiter :: u32

definition snapshot_mgr_new :: "u64 \<Rightarrow> snapshot_mgr option" where
  "snapshot_mgr_new version =
     map_option (\<lambda>s. \<lparr>global_state = s, thread_slots = replicate max_snapshot_thread_num False,
       thread_local_states = replicate max_snapshot_thread_num invalid_snapshot_state, pause_snapshot = False, phase_waiter = 0\<rparr>)
     (new_snapshot_state 0 version)"

definition set_local_state :: "snapshot_mgr \<Rightarrow> nat \<Rightarrow> u64 \<Rightarrow> snapshot_mgr" where
  "set_local_state m tid s =
     (if thread_local_states m ! tid = s then m
      else m\<lparr>thread_local_states := (thread_local_states m)[tid := s]\<rparr>)"

definition advance_global_state :: "snapshot_mgr \<Rightarrow> (u64 \<times> snapshot_mgr) option" where
  "advance_global_state m =
     do { phase \<leftarrow> state_phase (global_state m);
          let version = state_version (global_state m);
          new_state \<leftarrow> (case phase of
              Rest \<Rightarrow> new_snapshot_state (phase_as_raw Prepare) version
            | Prepare \<Rightarrow> new_snapshot_state (phase_as_raw InProgress) (version + 1)
            | InProgress \<Rightarrow> new_snapshot_state (phase_as_raw Sweep) version
            | Sweep \<Rightarrow> new_snapshot_state (phase_as_raw Rest) version);
          Some (new_state, m\<lparr>global_state := new_state\<rparr>) }"

section \<open>Workers\<close>

text \<open>
  Where a worker is in \<^verbatim>\<open>reserve_thread_slot\<close> and \<^verbatim>\<open>release_thread_slot\<close>, with its local variables. A worker
  at \<open>W_Holding\<close> has a guard for the slot and the state it was given.
\<close>

datatype worker_pc =
    W_Idle | W_Pause_Check | W_Claim nat | W_Load nat | W_Store nat u64 | W_Reload nat u64 | W_Compare nat u64 u64
  | W_Pause_Recheck nat u64 | W_Undo nat | W_Unclaim nat | W_Wake | W_Holding nat u64 | W_Release nat

text \<open>\<open>start\<close>: the random slot the search starts at. \<open>None\<close>: the assertion that the slot is still taken fails.\<close>

fun reserve_thread_slot :: "nat \<Rightarrow> snapshot_mgr \<Rightarrow> worker_pc \<Rightarrow> (snapshot_mgr \<times> worker_pc) option" where
  "reserve_thread_slot start m W_Pause_Check = Some (m, if pause_snapshot m then W_Idle else W_Claim start)"
| "reserve_thread_slot start m (W_Claim i) =
     Some (if i \<ge> 2 * max_snapshot_thread_num then (m, W_Idle)
           else let tid = i mod max_snapshot_thread_num
                in if \<not> thread_slots m ! tid then (m\<lparr>thread_slots := (thread_slots m)[tid := True]\<rparr>, W_Load tid)
                   else (m, W_Claim (i + 1)))"
| "reserve_thread_slot start m (W_Load tid) = Some (m, W_Store tid (global_state m))"
| "reserve_thread_slot start m (W_Store tid s) = Some (set_local_state m tid s, W_Reload tid s)"
| "reserve_thread_slot start m (W_Reload tid s) = Some (m, W_Compare tid s (global_state m))"
| "reserve_thread_slot start m (W_Compare tid s current) =
     Some (m, if thread_local_states m ! tid \<noteq> current then W_Undo tid else W_Pause_Recheck tid s)"
| "reserve_thread_slot start m (W_Pause_Recheck tid s) =
     Some (m, if pause_snapshot m then W_Undo tid else W_Holding tid s)"
| "reserve_thread_slot start m (W_Undo tid) = Some (set_local_state m tid invalid_snapshot_state, W_Unclaim tid)"
| "reserve_thread_slot start m (W_Unclaim tid) =
     (if thread_slots m ! tid then Some (m\<lparr>thread_slots := (thread_slots m)[tid := False]\<rparr>, W_Wake) else None)"
| "reserve_thread_slot start m W_Wake = Some (m\<lparr>phase_waiter := phase_waiter m + 1\<rparr>, W_Idle)"
| "reserve_thread_slot start m _ = None"

fun release_thread_slot :: "snapshot_mgr \<Rightarrow> worker_pc \<Rightarrow> (snapshot_mgr \<times> worker_pc) option" where
  "release_thread_slot m (W_Holding tid s) = Some (set_local_state m tid invalid_snapshot_state, W_Release tid)"
| "release_thread_slot m (W_Release tid) = Some (m\<lparr>thread_slots := (thread_slots m)[tid := False]\<rparr>, W_Wake)"
| "release_thread_slot m _ = None"

section \<open>The manager's scan\<close>

text \<open>
  \<open>M_Scan target k\<close>: the manager is inside \<^verbatim>\<open>check_if_phase_completed\<close> and has looked at the first \<open>k\<close> slots. A
  slot in another state makes it wait and start over.
\<close>

datatype manager_pc = M_Idle | M_Scan u64 nat | M_Complete u64

definition check_if_phase_completed :: "snapshot_mgr \<Rightarrow> u64 \<Rightarrow> nat \<Rightarrow> manager_pc" where
  "check_if_phase_completed m target k =
     (if k \<ge> max_snapshot_thread_num then M_Complete target
      else let local_state = thread_local_states m ! k
           in if local_state \<noteq> invalid_snapshot_state \<and> local_state \<noteq> target then M_Scan target 0
              else M_Scan target (k + 1))"

text \<open>
  Any interleaving of workers and the manager. The manager advances the phase, or, in the sweep, sets the
  pause flag, drains the slots, and later clears the flag again.
\<close>

inductive handshake :: "snapshot_mgr \<Rightarrow> manager_pc \<Rightarrow> (nat \<Rightarrow> worker_pc) \<Rightarrow> bool" where
  start: "snapshot_mgr_new version = Some m \<Longrightarrow> handshake m M_Idle (\<lambda>w. W_Idle)"
| enter: "handshake m mp ws \<Longrightarrow> ws w = W_Idle \<Longrightarrow> handshake m mp (ws(w := W_Pause_Check))"
| reserve: "handshake m mp ws \<Longrightarrow> reserve_thread_slot first m (ws w) = Some (m', pc') \<Longrightarrow>
    first < max_snapshot_thread_num \<Longrightarrow> handshake m' mp (ws(w := pc'))"
| release: "handshake m mp ws \<Longrightarrow> release_thread_slot m (ws w) = Some (m', pc') \<Longrightarrow> handshake m' mp (ws(w := pc'))"
| advance: "handshake m mp ws \<Longrightarrow> mp = M_Idle \<or> (\<exists>s. mp = M_Complete s \<and> s \<noteq> invalid_snapshot_state) \<Longrightarrow>
    advance_global_state m = Some (s', m') \<Longrightarrow> handshake m' (M_Scan s' 0) ws"
| freeze: "handshake m mp ws \<Longrightarrow> mp = M_Idle \<or> (\<exists>s. mp = M_Complete s \<and> s \<noteq> invalid_snapshot_state) \<Longrightarrow>
    handshake (m\<lparr>pause_snapshot := True\<rparr>) (M_Scan invalid_snapshot_state 0) ws"
| scan: "handshake m (M_Scan target k) ws \<Longrightarrow> handshake m (check_if_phase_completed m target k) ws"
| resume: "handshake m (M_Complete invalid_snapshot_state) ws \<Longrightarrow> handshake (m\<lparr>pause_snapshot := False\<rparr>) M_Idle ws"

section \<open>The state word holds phase and version\<close>

lemma version_mask_mask: "version_mask = mask 61"
  by (simp add: version_mask_def phase_id_shift_def mask_eq_decr_exp)

lemma phase_bits: "bit phase_id_mask n = (61 \<le> n \<and> n < 64)"
proof -
  have seven: "(0b111 :: u64) = mask 3" by (simp add: mask_eq_decr_exp)
  show ?thesis unfolding phase_id_mask_def phase_id_shift_def seven by (auto simp: bit_push_bit_iff bit_mask_iff)
qed

lemma new_snapshot_state_fields:
  assumes "new_snapshot_state p v = Some s"
  shows "state_version s = v" "drop_bit phase_id_shift (s AND phase_id_mask) = p" "s \<noteq> invalid_snapshot_state" "v < push_bit 61 1" "p < 4"
proof -
  have s: "s = push_bit 61 p OR v" "p < 4" "v < push_bit 61 1"
    using assms by (auto simp: new_snapshot_state_def phase_id_shift_def split: if_splits)
  have small: "n < 61" if "bit v n" for n
    using that s(3) no_high_bit [of v 61 n] by (intro not_le_imp_less) (auto simp: word_less_nat_alt push_bit_eq_mult)
  have p: "n < 2" if "bit p n" for n
    using that s(2) no_high_bit [of p 2 n] by (intro not_le_imp_less) (auto simp: word_less_nat_alt)
  show "v < push_bit 61 1" "p < 4" using s(2,3) by simp_all
  show "state_version s = v"
    unfolding state_version_def version_mask_mask s(1)
    by (intro bit_word_eqI) (auto simp: bit_simps dest: small)
  show "drop_bit phase_id_shift (s AND phase_id_mask) = p"
    unfolding s(1) phase_id_shift_def
    by (intro bit_word_eqI) (auto simp: bit_simps phase_bits dest: small p)
  have "\<not> bit s 63" unfolding s(1) by (auto simp: bit_simps dest: small p)
  moreover have "bit invalid_snapshot_state 63" by code_simp
  ultimately show "s \<noteq> invalid_snapshot_state" by metis
qed

lemma advance_global_state_fields:
  assumes "advance_global_state m = Some (s, m')"
  shows "m' = m\<lparr>global_state := s\<rparr>" "s \<noteq> invalid_snapshot_state"
  using assms by (auto simp: advance_global_state_def Let_def split: bind_splits phase_id.splits dest!: new_snapshot_state_fields(3))

section \<open>Invariant\<close>

text \<open>The slot a worker has claimed; the state it stored there; the state it found to be the global one.\<close>

fun claimed :: "worker_pc \<Rightarrow> nat option" where
  "claimed (W_Load tid) = Some tid"
| "claimed (W_Store tid s) = Some tid"
| "claimed (W_Reload tid s) = Some tid"
| "claimed (W_Compare tid s current) = Some tid"
| "claimed (W_Pause_Recheck tid s) = Some tid"
| "claimed (W_Undo tid) = Some tid"
| "claimed (W_Unclaim tid) = Some tid"
| "claimed (W_Holding tid s) = Some tid"
| "claimed (W_Release tid) = Some tid"
| "claimed _ = None"

fun stored :: "worker_pc \<Rightarrow> u64 option" where
  "stored (W_Reload tid s) = Some s"
| "stored (W_Compare tid s current) = Some s"
| "stored (W_Pause_Recheck tid s) = Some s"
| "stored (W_Holding tid s) = Some s"
| "stored _ = None"

fun validated :: "worker_pc \<Rightarrow> u64 option" where
  "validated (W_Compare tid s current) = (if current = s then Some s else None)"
| "validated (W_Pause_Recheck tid s) = Some s"
| "validated (W_Holding tid s) = Some s"
| "validated _ = None"

text \<open>What holds of a worker and its slot.\<close>

definition worker_ok :: "snapshot_mgr \<Rightarrow> worker_pc \<Rightarrow> bool" where
  "worker_ok m pc \<longleftrightarrow>
     (\<forall>tid. claimed pc = Some tid \<longrightarrow> tid < max_snapshot_thread_num \<and> thread_slots m ! tid) \<and>
     (\<forall>tid s. claimed pc = Some tid \<longrightarrow> stored pc = Some s \<longrightarrow> thread_local_states m ! tid = s \<and> s \<noteq> invalid_snapshot_state) \<and>
     (\<forall>tid s. pc = W_Store tid s \<longrightarrow> s \<noteq> invalid_snapshot_state)"

text \<open>What the scan has established of a worker whose slot is among the first \<open>k\<close>.\<close>

definition scanned_ok :: "u64 \<Rightarrow> nat \<Rightarrow> worker_pc \<Rightarrow> bool" where
  "scanned_ok target k pc \<longleftrightarrow> (\<forall>tid. claimed pc = Some tid \<longrightarrow> tid < k \<longrightarrow>
     (if target = invalid_snapshot_state then \<forall>s. pc \<noteq> W_Holding tid s else \<forall>s. validated pc = Some s \<longrightarrow> s = target))"

fun manager_ok :: "snapshot_mgr \<Rightarrow> manager_pc \<Rightarrow> (nat \<Rightarrow> worker_pc) \<Rightarrow> bool" where
  "manager_ok m M_Idle ws = True"
| "manager_ok m (M_Scan target k) ws \<longleftrightarrow>
     (if target = invalid_snapshot_state then pause_snapshot m else global_state m = target) \<and> (\<forall>w. scanned_ok target k (ws w))"
| "manager_ok m (M_Complete target) ws \<longleftrightarrow>
     (if target = invalid_snapshot_state then pause_snapshot m else global_state m = target) \<and>
     (\<forall>w. scanned_ok target max_snapshot_thread_num (ws w))"

definition handshake_inv :: "snapshot_mgr \<Rightarrow> manager_pc \<Rightarrow> (nat \<Rightarrow> worker_pc) \<Rightarrow> bool" where
  "handshake_inv m mp ws \<longleftrightarrow>
     length (thread_slots m) = max_snapshot_thread_num \<and> length (thread_local_states m) = max_snapshot_thread_num \<and>
     global_state m \<noteq> invalid_snapshot_state \<and> (\<forall>w. worker_ok m (ws w)) \<and>
     (\<forall>w v tid. claimed (ws w) = Some tid \<longrightarrow> claimed (ws v) = Some tid \<longrightarrow> w = v) \<and>
     manager_ok m mp ws"

text \<open>
  One step of a worker: it touches only its own slot, keeps \<^const>\<open>worker_ok\<close> and what the scan established,
  and claims a slot only when it is free.
\<close>

definition worker_step_ok :: "snapshot_mgr \<Rightarrow> worker_pc \<Rightarrow> snapshot_mgr \<Rightarrow> worker_pc \<Rightarrow> bool" where
  "worker_step_ok m pc m' pc' \<longleftrightarrow>
     global_state m' = global_state m \<and> pause_snapshot m' = pause_snapshot m \<and>
     length (thread_slots m') = length (thread_slots m) \<and> length (thread_local_states m') = length (thread_local_states m) \<and>
     worker_ok m' pc' \<and>
     (\<forall>tid. claimed pc' = Some tid \<longrightarrow> claimed pc = Some tid \<or> \<not> thread_slots m ! tid) \<and>
     (\<forall>k. claimed pc \<noteq> Some k \<and> claimed pc' \<noteq> Some k \<longrightarrow>
        thread_slots m' ! k = thread_slots m ! k \<and> thread_local_states m' ! k = thread_local_states m ! k) \<and>
     (\<forall>target k. scanned_ok target k pc \<longrightarrow> (if target = invalid_snapshot_state then pause_snapshot m else global_state m = target) \<longrightarrow>
        scanned_ok target k pc')"

lemma reserve_step_ok:
  assumes "reserve_thread_slot first m pc = Some (m', pc')" "worker_ok m pc" "global_state m \<noteq> invalid_snapshot_state"
    "length (thread_slots m) = max_snapshot_thread_num" "length (thread_local_states m) = max_snapshot_thread_num"
  shows "worker_step_ok m pc m' pc'"
proof (cases pc)
  case W_Pause_Check
  then show ?thesis using assms
    by (auto simp: worker_step_ok_def worker_ok_def scanned_ok_def set_local_state_def Let_def nth_list_update split: if_splits)
next
  case (W_Claim i)
  then show ?thesis using assms
    by (auto simp: worker_step_ok_def worker_ok_def scanned_ok_def set_local_state_def Let_def nth_list_update split: if_splits)
next
  case (W_Load tid)
  then show ?thesis using assms
    by (auto simp: worker_step_ok_def worker_ok_def scanned_ok_def set_local_state_def Let_def nth_list_update split: if_splits)
next
  case (W_Store tid s)
  then show ?thesis using assms
    by (auto simp: worker_step_ok_def worker_ok_def scanned_ok_def set_local_state_def Let_def nth_list_update split: if_splits)
next
  case (W_Reload tid s)
  then show ?thesis using assms
    by (auto simp: worker_step_ok_def worker_ok_def scanned_ok_def set_local_state_def Let_def nth_list_update split: if_splits)
next
  case (W_Compare tid s current)
  then show ?thesis using assms
    by (auto simp: worker_step_ok_def worker_ok_def scanned_ok_def set_local_state_def Let_def nth_list_update split: if_splits)
next
  case (W_Pause_Recheck tid s)
  then show ?thesis using assms
    by (auto simp: worker_step_ok_def worker_ok_def scanned_ok_def set_local_state_def Let_def nth_list_update split: if_splits)
next
  case (W_Undo tid)
  then show ?thesis using assms
    by (auto simp: worker_step_ok_def worker_ok_def scanned_ok_def set_local_state_def Let_def nth_list_update split: if_splits)
next
  case (W_Unclaim tid)
  then show ?thesis using assms
    by (auto simp: worker_step_ok_def worker_ok_def scanned_ok_def set_local_state_def Let_def nth_list_update split: if_splits)
next
  case W_Wake
  then show ?thesis using assms
    by (auto simp: worker_step_ok_def worker_ok_def scanned_ok_def set_local_state_def Let_def nth_list_update split: if_splits)
qed (use assms in simp_all)

lemma release_step_ok:
  assumes "release_thread_slot m pc = Some (m', pc')" "worker_ok m pc"
    "length (thread_slots m) = max_snapshot_thread_num" "length (thread_local_states m) = max_snapshot_thread_num"
  shows "worker_step_ok m pc m' pc'"
  using assms
  by (cases pc)
    (auto simp: worker_step_ok_def worker_ok_def scanned_ok_def set_local_state_def nth_list_update split: if_splits)

lemma worker_ok_frame:
  assumes "worker_ok m pc" "\<forall>tid. claimed pc = Some tid \<longrightarrow>
    thread_slots m' ! tid = thread_slots m ! tid \<and> thread_local_states m' ! tid = thread_local_states m ! tid"
  shows "worker_ok m' pc"
  using assms by (simp add: worker_ok_def)

lemma handshake_inv_worker:
  assumes inv: "handshake_inv m mp ws" and step: "worker_step_ok m (ws w) m' pc'"
  shows "handshake_inv m' mp (ws(w := pc'))"
proof -
  have own: "claimed (ws u) = Some tid \<Longrightarrow> claimed (ws v) = Some tid \<Longrightarrow> u = v" for u v tid using inv by (simp add: handshake_inv_def)
  have busy: "thread_slots m ! tid" if "claimed (ws u) = Some tid" for u tid using inv that by (simp add: handshake_inv_def worker_ok_def)
  have new: "claimed (ws w) = Some tid \<or> \<not> thread_slots m ! tid" if "claimed pc' = Some tid" for tid
    using step that by (simp add: worker_step_ok_def)
  have other: "claimed pc' \<noteq> Some tid \<and> claimed (ws w) \<noteq> Some tid" if "claimed (ws u) = Some tid" "u \<noteq> w" for u tid
    using that own busy new by metis
  have "worker_ok m' ((ws(w := pc')) u)" for u
  proof (cases "u = w")
    case True
    then show ?thesis using step by (simp add: worker_step_ok_def)
  next
    case False
    have "worker_ok m (ws u)" using inv by (simp add: handshake_inv_def)
    then have "worker_ok m' (ws u)"
      by (rule worker_ok_frame) (use step other False in \<open>auto simp: worker_step_ok_def\<close>)
    then show ?thesis using False by simp
  qed
  moreover have "u = v" if "claimed ((ws(w := pc')) u) = Some tid" "claimed ((ws(w := pc')) v) = Some tid" for u v tid
    using that own other by (metis fun_upd_apply)
  moreover have "manager_ok m' mp (ws(w := pc'))"
  proof (cases mp)
    case (M_Scan target k)
    then show ?thesis using inv step by (auto simp: handshake_inv_def worker_step_ok_def)
  next
    case (M_Complete target)
    then show ?thesis using inv step by (auto simp: handshake_inv_def worker_step_ok_def)
  qed simp
  moreover have "length (thread_slots m') = max_snapshot_thread_num" "length (thread_local_states m') = max_snapshot_thread_num"
    "global_state m' \<noteq> invalid_snapshot_state" using inv step by (simp_all add: handshake_inv_def worker_step_ok_def)
  ultimately show ?thesis unfolding handshake_inv_def by blast
qed

lemma validated_stored: "validated pc = Some s \<Longrightarrow> stored pc = Some s"
  by (cases pc) (auto split: if_splits)

lemma handshake_inv_scan:
  assumes "handshake_inv m (M_Scan target k) ws"
  shows "handshake_inv m (check_if_phase_completed m target k) ws"
proof -
  have base: "manager_ok m (M_Scan target k) ws" "\<And>w. worker_ok m (ws w)" using assms by (simp_all add: handshake_inv_def)
  have "scanned_ok target (Suc k) (ws w)" if slot: "thread_local_states m ! k = invalid_snapshot_state \<or> thread_local_states m ! k = target" for w
  proof (cases "claimed (ws w) = Some k")
    case True
    have "s = target \<and> target \<noteq> invalid_snapshot_state" if "stored (ws w) = Some s" for s
      using base(2) [of w] True that slot by (auto simp: worker_ok_def)
    then show ?thesis using True validated_stored [of "ws w"] by (auto simp: scanned_ok_def)
  next
    case False
    then have "claimed (ws w) = Some tid \<Longrightarrow> tid < Suc k \<longleftrightarrow> tid < k" for tid by (auto simp: less_Suc_eq)
    moreover have "scanned_ok target k (ws w)" using base(1) by simp
    ultimately show ?thesis unfolding scanned_ok_def by metis
  qed
  moreover have "scanned_ok target 0 (ws w)" for w by (simp add: scanned_ok_def)
  moreover have "scanned_ok target max_snapshot_thread_num (ws w)" if "max_snapshot_thread_num \<le> k" for w
    using that base(1) by (auto simp: scanned_ok_def)
  ultimately have "manager_ok m (check_if_phase_completed m target k) ws"
    using base(1) by (auto simp: check_if_phase_completed_def Let_def)
  then show ?thesis using assms by (simp add: handshake_inv_def)
qed

lemma handshake_inv_run: "handshake m mp ws \<Longrightarrow> handshake_inv m mp ws"
proof (induction rule: handshake.induct)
  case (start version m)
  then show ?case
    using new_snapshot_state_fields(3) by (auto simp: snapshot_mgr_new_def handshake_inv_def worker_ok_def)
next
  case (enter m mp ws w)
  have "worker_step_ok m (ws w) m W_Pause_Check" using enter.hyps(2) by (simp add: worker_step_ok_def worker_ok_def scanned_ok_def)
  then show ?case by (rule handshake_inv_worker [OF enter.IH])
next
  case (reserve m mp ws first w m' pc')
  then have "worker_step_ok m (ws w) m' pc'" by (intro reserve_step_ok) (auto simp: handshake_inv_def)
  then show ?case by (rule handshake_inv_worker [OF reserve.IH])
next
  case (release m mp ws w m' pc')
  then have "worker_step_ok m (ws w) m' pc'" by (intro release_step_ok) (auto simp: handshake_inv_def)
  then show ?case by (rule handshake_inv_worker [OF release.IH])
next
  case (advance m mp ws s' m')
  then show ?case using advance_global_state_fields [OF advance.hyps(3)]
    by (auto simp: handshake_inv_def worker_ok_def scanned_ok_def)
next
  case (freeze m mp ws)
  then show ?case by (auto simp: handshake_inv_def worker_ok_def scanned_ok_def)
next
  case (scan m target k ws)
  then show ?case using handshake_inv_scan by blast
next
  case (resume m ws)
  then show ?case by (auto simp: handshake_inv_def worker_ok_def)
qed

section \<open>Properties\<close>

text \<open>
  C4: The handshake keeps its promise in every interleaving. No two workers hold the same slot. When the
  manager has advanced the global state and its scan is complete, every worker that holds a guard, now or
  before the next advance, has the new state; when it has set the pause flag and its scan is complete, no
  worker holds a guard. The assertion on giving back a slot never fails.
\<close>

theorem snapshot_handshake_safe:
  assumes "handshake m mp ws"
  shows "(\<forall>w v tid s u. ws w = W_Holding tid s \<and> ws v = W_Holding tid u \<longrightarrow> w = v) \<and>
    (\<forall>target. mp = M_Complete target \<and> target \<noteq> invalid_snapshot_state \<longrightarrow>
       global_state m = target \<and> (\<forall>w tid s. ws w = W_Holding tid s \<longrightarrow> s = target)) \<and>
    (mp = M_Complete invalid_snapshot_state \<longrightarrow> (\<forall>w tid s. ws w \<noteq> W_Holding tid s)) \<and>
    (\<forall>w tid. ws w = W_Unclaim tid \<longrightarrow> reserve_thread_slot 0 m (ws w) \<noteq> None)"
proof -
  have inv: "handshake_inv m mp ws" using handshake_inv_run [OF assms] .
  have ok: "worker_ok m (ws w)" for w using inv by (simp add: handshake_inv_def)
  have slot: "tid < max_snapshot_thread_num" if "claimed (ws w) = Some tid" for w tid using ok [of w] that by (simp add: worker_ok_def)
  have "w = v" if "ws w = W_Holding tid s" "ws v = W_Holding tid u" for w v tid s u
    using inv that by (auto simp: handshake_inv_def)
  moreover have "global_state m = target \<and> (\<forall>w tid s. ws w = W_Holding tid s \<longrightarrow> s = target)"
    if "mp = M_Complete target" "target \<noteq> invalid_snapshot_state" for target
  proof -
    have "s = target" if "ws w = W_Holding tid s" for w tid s
      using inv \<open>mp = M_Complete target\<close> \<open>target \<noteq> invalid_snapshot_state\<close> slot [of w tid] that by (auto simp: handshake_inv_def scanned_ok_def dest: spec [of _ w])
    then show ?thesis using inv that by (simp add: handshake_inv_def)
  qed
  moreover have "ws w \<noteq> W_Holding tid s" if "mp = M_Complete invalid_snapshot_state" for w tid s
  proof
    assume h: "ws w = W_Holding tid s"
    have "scanned_ok invalid_snapshot_state max_snapshot_thread_num (ws w)" using inv that by (simp add: handshake_inv_def)
    then show False using h slot [of w tid] by (simp add: scanned_ok_def)
  qed
  moreover have "reserve_thread_slot 0 m (ws w) \<noteq> None" if "ws w = W_Unclaim tid" for w tid
    using ok [of w] that by (simp add: worker_ok_def)
  ultimately show ?thesis by blast
qed

text \<open>The states of an example: a worker holds slot 5 in the first phase.\<close>

definition example_mgr :: snapshot_mgr where
  "example_mgr = \<lparr>global_state = 7, thread_slots = (replicate 64 False)[5 := True],
     thread_local_states = (replicate 64 invalid_snapshot_state)[5 := 7], pause_snapshot = False, phase_waiter = 0\<rparr>"

lemma example_holding: "handshake example_mgr M_Idle ((\<lambda>w. W_Idle)(0 := W_Holding 5 7))"
proof -
  let ?m = "\<lparr>global_state = 7, thread_slots = replicate 64 False, thread_local_states = replicate 64 invalid_snapshot_state,
    pause_snapshot = False, phase_waiter = 0\<rparr>"
  let ?c = "?m\<lparr>thread_slots := (replicate 64 False)[5 := True]\<rparr>"
  have step: "handshake m' mp (ws(0 := pc'))" if "handshake m mp (ws(0 := pc))" "reserve_thread_slot 5 m pc = Some (m', pc')" for m mp ws pc m' pc'
    using handshake.reserve [OF that(1), of 5 0 m' pc'] that(2) by (simp add: max_snapshot_thread_num_def)
  have "snapshot_mgr_new 7 = Some ?m" by code_simp
  from handshake.enter [OF handshake.start [OF this], of 0]
  have "handshake ?m M_Idle ((\<lambda>w. W_Idle)(0 := W_Pause_Check))" by simp
  from step [OF this, of ?m "W_Claim 5"] have "handshake ?m M_Idle ((\<lambda>w. W_Idle)(0 := W_Claim 5))" by simp
  from step [OF this, of ?c "W_Load 5"] have "handshake ?c M_Idle ((\<lambda>w. W_Idle)(0 := W_Load 5))" by (simp add: max_snapshot_thread_num_def)
  from step [OF this, of ?c "W_Store 5 7"] have "handshake ?c M_Idle ((\<lambda>w. W_Idle)(0 := W_Store 5 7))" by simp
  from step [OF this, of example_mgr "W_Reload 5 7"] have "handshake example_mgr M_Idle ((\<lambda>w. W_Idle)(0 := W_Reload 5 7))"
    by (simp add: set_local_state_def example_mgr_def invalid_snapshot_state_def)
  from step [OF this, of example_mgr "W_Compare 5 7 7"] have "handshake example_mgr M_Idle ((\<lambda>w. W_Idle)(0 := W_Compare 5 7 7))"
    by (simp add: example_mgr_def)
  from step [OF this, of example_mgr "W_Pause_Recheck 5 7"] have "handshake example_mgr M_Idle ((\<lambda>w. W_Idle)(0 := W_Pause_Recheck 5 7))"
    by (simp add: example_mgr_def)
  from step [OF this, of example_mgr "W_Holding 5 7"] show ?thesis by (simp add: example_mgr_def)
qed

theorem snapshot_handshake_safe_witness:
  "handshake example_mgr M_Idle ((\<lambda>w. W_Idle)(0 := W_Holding 5 7)) \<and>
   ((\<lambda>w :: nat. W_Idle)(0 := W_Holding 5 7)) 1 \<noteq> W_Holding 5 7"
proof (intro conjI notI)
  show "handshake example_mgr M_Idle ((\<lambda>w. W_Idle)(0 := W_Holding 5 7))" by (rule example_holding)
  assume "((\<lambda>w :: nat. W_Idle)(0 := W_Holding 5 7)) 1 = W_Holding 5 7"
  then have "(0 :: nat) = 1"
    using snapshot_handshake_safe [OF example_holding, THEN conjunct1, rule_format, of 0 5 7 1 7] by (simp only: fun_upd_same simp_thms)
  then show False by simp
qed

text \<open>
  C40: The state word. Composing and decomposing it are inverse, and advancing the manager's state four times
  goes through the phases in order, raises the version by one on entering the third phase, and ends where it began
  with the next version.
\<close>

theorem snapshot_phase_cycle:
  assumes "new_snapshot_state (phase_as_raw Rest) v = Some (global_state m)" "v + 1 < push_bit phase_id_shift 1"
  shows "\<exists>s1 s2 s3 s4 m1 m2 m3 m4. advance_global_state m = Some (s1, m1) \<and> advance_global_state m1 = Some (s2, m2) \<and>
    advance_global_state m2 = Some (s3, m3) \<and> advance_global_state m3 = Some (s4, m4) \<and>
    (state_phase s1, state_version s1) = (Some Prepare, v) \<and> (state_phase s2, state_version s2) = (Some InProgress, v + 1) \<and>
    (state_phase s3, state_version s3) = (Some Sweep, v + 1) \<and> (state_phase s4, state_version s4) = (Some Rest, v + 1) \<and>
    m4 = m\<lparr>global_state := s4\<rparr>"
proof -
  have v: "v < push_bit phase_id_shift 1"
    using new_snapshot_state_fields(4) [OF assms(1)] by (simp add: phase_id_shift_def)
  define w where "w p u = push_bit phase_id_shift (phase_as_raw p) OR u" for p u
  have new: "new_snapshot_state (phase_as_raw p) u = Some (w p u)" if "u < push_bit phase_id_shift 1" for p u
    using that by (cases p) (simp_all add: new_snapshot_state_def w_def)
  have ph: "phase_from_raw (phase_as_raw p) = Some p" for p by (cases p) (simp_all add: phase_from_raw_def)
  have f: "state_phase (w p u) = Some p" "state_version (w p u) = u" if "u < push_bit phase_id_shift 1" for p u
    using new_snapshot_state_fields(1,2) [OF new [OF that]] ph by (simp_all add: state_phase_def)
  have start: "global_state m = w Rest v" using assms(1) new [OF v, of Rest] by simp
  have "advance_global_state m = Some (w Prepare v, m\<lparr>global_state := w Prepare v\<rparr>)"
    using f [OF v, of Rest] new [OF v, of Prepare] by (simp add: advance_global_state_def start)
  moreover have "advance_global_state (m\<lparr>global_state := w Prepare v\<rparr>) = Some (w InProgress (v + 1), m\<lparr>global_state := w InProgress (v + 1)\<rparr>)"
    using f [OF v, of Prepare] new [OF assms(2), of InProgress] by (simp add: advance_global_state_def)
  moreover have "advance_global_state (m\<lparr>global_state := w InProgress (v + 1)\<rparr>) = Some (w Sweep (v + 1), m\<lparr>global_state := w Sweep (v + 1)\<rparr>)"
    using f [OF assms(2), of InProgress] new [OF assms(2), of Sweep] by (simp add: advance_global_state_def)
  moreover have "advance_global_state (m\<lparr>global_state := w Sweep (v + 1)\<rparr>) = Some (w Rest (v + 1), m\<lparr>global_state := w Rest (v + 1)\<rparr>)"
    using f [OF assms(2), of Sweep] new [OF assms(2), of Rest] by (simp add: advance_global_state_def)
  ultimately show ?thesis using f [OF v] f [OF assms(2)] by simp
qed

theorem snapshot_phase_cycle_witness:
  "\<exists>s1 s2 s3 s4 m1 m2 m3 m4. advance_global_state example_mgr = Some (s1, m1) \<and> advance_global_state m1 = Some (s2, m2) \<and>
    advance_global_state m2 = Some (s3, m3) \<and> advance_global_state m3 = Some (s4, m4) \<and>
    (state_phase s1, state_version s1) = (Some Prepare, 7) \<and> (state_phase s2, state_version s2) = (Some InProgress, 8) \<and>
    (state_phase s3, state_version s3) = (Some Sweep, 8) \<and> (state_phase s4, state_version s4) = (Some Rest, 8) \<and>
    m4 = example_mgr\<lparr>global_state := s4\<rparr>"
proof -
  have "new_snapshot_state (phase_as_raw Rest) 7 = Some (global_state example_mgr)" "(7 :: u64) + 1 < push_bit phase_id_shift 1" by code_simp+
  then show ?thesis using snapshot_phase_cycle [of 7 example_mgr] by simp
qed

end
