(* ===== verification/Vfs.thy ===== *)
theory Vfs
  imports Node_Meta
begin

text \<open>
  The disk: the page allocator (\<^verbatim>\<open>OffsetAlloc\<close> of src/src/fs/mod.rs), a file with reads and writes at offsets
  (\<^verbatim>\<open>StdVfs\<close>, src/src/fs/std_vfs.rs), and the vectors a snapshot stores in it (src/src/snapshot.rs). A file is
  the list of its bytes. A read past the end of the file leaves the rest of the buffer as it was; a write past
  the end fills the gap with zeros; reads and writes are not cut short otherwise.
\<close>

definition SECTOR_SIZE :: nat where
  "SECTOR_SIZE = 512"

section \<open>The page allocator\<close>

record std_vfs =
  vfs_file :: bytes
  next_available_offset :: nat

definition offset_alloc_new_with :: "nat \<Rightarrow> nat" where
  "offset_alloc_new_with offset = (if offset < DISK_PAGE_SIZE then DISK_PAGE_SIZE else offset)"



definition dealloc_offset :: "nat \<Rightarrow> std_vfs \<Rightarrow> std_vfs" where
  "dealloc_offset offset v = v"

definition vfs_reset :: "std_vfs \<Rightarrow> std_vfs" where
  "vfs_reset v = v\<lparr>vfs_file := [], next_available_offset := offset_alloc_new_with 0\<rparr>"

section \<open>Reads and writes\<close>


definition vfs_write :: "nat \<Rightarrow> bytes \<Rightarrow> std_vfs \<Rightarrow> std_vfs" where
  "vfs_write offset buf v =
     (let f = vfs_file v @ replicate (offset - length (vfs_file v)) 0
      in v\<lparr>vfs_file := take offset f @ buf @ drop (offset + length buf) f\<rparr>)"

section \<open>Vectors on disk\<close>





definition align_to_sector_size :: "u64 \<Rightarrow> u64" where
  "align_to_sector_size n = (n + of_nat SECTOR_SIZE - 1) AND NOT (of_nat SECTOR_SIZE - 1)"







section \<open>What a file holds\<close>





lemma next_offset_write [simp]: "next_available_offset (vfs_write offset bs v) = next_available_offset v"
  by (simp add: vfs_write_def Let_def)









lemma align_to_sector_size_le:
  assumes "n + 511 < 2 ^ 64"
  shows "n \<le> unat (align_to_sector_size (of_nat n))"
proof -
  have m: "of_nat SECTOR_SIZE - 1 = (mask 9 :: u64)" by (simp add: SECTOR_SIZE_def mask_eq_decr_exp)
  have x: "align_to_sector_size (of_nat n) = of_nat (n + 511) AND NOT (mask 9)"
    unfolding align_to_sector_size_def m by (simp add: SECTOR_SIZE_def add.commute)
  have "of_nat (n + 511) AND NOT (mask 9) = push_bit 9 (drop_bit 9 (of_nat (n + 511) :: u64))"
    by (intro bit_word_eqI) (auto simp: bit_simps)
  then have "unat (align_to_sector_size (of_nat n)) = take_bit 64 (push_bit 9 (drop_bit 9 (unat (of_nat (n + 511) :: u64))))"
    unfolding x using take_bit_nat_eq_self [OF unsigned_less, of "of_nat (n + 511) :: u64"]
    by (simp add: unsigned_push_bit_eq unsigned_drop_bit_eq)
  also have "\<dots> = take_bit 64 ((n + 511) div 512 * 512)"
    using assms by (subst unat_of_nat_nowrap) (simp_all add: push_bit_eq_mult drop_bit_eq_div)
  also have "\<dots> = (n + 511) div 512 * 512"
    using assms by (intro take_bit_nat_eq_self) (meson div_times_less_eq_dividend le_less_trans)
  finally have "unat (align_to_sector_size (of_nat n)) = (n + 511) div 512 * 512" .
  moreover have "(n + 511) mod 512 < 512" by simp
  ultimately show ?thesis using div_mult_mod_eq [of "n + 511" 512] by linarith
qed




section \<open>Properties\<close>



end
