(* ===== verification/Spec2Isabelle.thy ===== *)
theory Spec2Isabelle
  imports Inner_Node Leaf_Size Tree_Setup Wal_Log Page_Table Version_Lock Rw_Lock Snapshot_Handshake Vfs
begin

text \<open>
  Verification of bf-tree, a concurrent B-tree for data larger than memory (src/src).

  \<^bold>\<open>The program.\<close> Inner nodes are pinned in memory and protected by optimistic version locks. A leaf is
  reached through a page table: its location is a base page on disk, a ``mini-page'' of variable size in a
  circular buffer that holds recent writes and cached records of a base page, a full copy of the page in the
  buffer, or nothing. The buffer evicts from its head; evicting a dirty mini-page merges it into its base
  page, and a base page that overflows is split. Writes may be logged to a write-ahead log; a snapshot
  is taken while operations go on, by moving all threads through four phases.

  \<^bold>\<open>Conventions.\<close> A function of the code is a function of the same name, with a prefix where several types
  have one. Nodes are records of their header fields and their data bytes, read and written at byte offsets as
  the code does. Sixteen, 32 and 64-bit fields are machine words that wrap. A panic, a failed assertion or an
  \<^verbatim>\<open>unwrap\<close> of nothing is \<open>None\<close>; an error the code returns is a value. Concurrency is an inductive relation
  whose steps are the atomic sections of the code: everything under the buffer's mutex is one step, and in
  the lock-free parts every atomic access is one step.

  \<^bold>\<open>Foundations.\<close>
  \<^descr> \<^bold>\<open>Prelude\<close> machine integers, byte slices and their little-endian encodings, lexicographic comparison,
    binary search, the error type (src/src/error.rs).
  \<^descr> \<^bold>\<open>Assoc\<close> sorted association lists: what the contents of a page are.
  \<^descr> \<^bold>\<open>Slotted_Page\<close> the layout the node types share, slots growing up and records growing down, as a
    locale over the slot encoding, interpreted for both kinds of nodes.

  \<^bold>\<open>Nodes\<close> (src/src/nodes).
  \<^descr> \<^bold>\<open>Node_Meta\<close>, \<^bold>\<open>Page_Id\<close> the packed header and the tagged page identifier (node_meta.rs, page_id.rs).
  \<^descr> \<^bold>\<open>Inner_Node\<close> inner nodes (inner_node.rs): insertion upserts a separator, lookup agrees with a
    left-to-right routing, and a split sends every key to the child it went to before.
  \<^descr> \<^bold>\<open>Leaf_Meta\<close>, \<^bold>\<open>Leaf_Node\<close>, \<^bold>\<open>Leaf_Insert\<close>, \<^bold>\<open>Leaf_Init\<close> leaf pages (leaf_node.rs): the slot, the page,
    its invariant and contents; insertion is an update of the contents on every branch, reads return what the
    contents hold, both searches agree, fences are read back.
  \<^descr> \<^bold>\<open>Leaf_Ops\<close>, \<^bold>\<open>Leaf_Rebuild\<close>, \<^bold>\<open>Leaf_Merge\<close>, \<^bold>\<open>Leaf_Split\<close> the operations that rebuild a page:
    consolidation keeps the live records, a merge overlays the base page with the dirty records, a copy to a
    larger page loses at most cold clean records, a split partitions the live records at its key.
  \<^descr> \<^bold>\<open>Leaf_Split_Key\<close>, \<^bold>\<open>Leaf_Size\<close> the separators and page sizes the code picks: a separator lies strictly
    inside the records, and a page of the chosen size has room for the record it was chosen for.

  \<^bold>\<open>Circular buffer\<close> (src/src/circular_buffer).
  \<^descr> \<^bold>\<open>Free_List\<close> segregated free lists (freelist.rs), as an implementation of a pool of blocks.
  \<^descr> \<^bold>\<open>Circular_Buffer\<close> allocation, deallocation, eviction and iteration (mod.rs, metrics.rs). The head
    search of an allocation and the drain loop may not end, and are partial functions.
  \<^descr> \<^bold>\<open>Buffer_Geometry\<close>, \<^bold>\<open>Buffer_Protocol\<close>, \<^bold>\<open>Buffer_Safety\<close>, \<^bold>\<open>Buffer_Theorems\<close> the interleavings of any number
    of threads that allocate, lock, deallocate and evict; the invariant that blocks tile the window between
    head and tail; no reachable state panics, live blocks are disjoint and inside the memory, an allocation
    returns and gives a block nobody owns.
  \<^descr> \<^bold>\<open>Buffer_Drain\<close> draining an idle buffer returns and evicts every block in order.
  \<^descr> \<^bold>\<open>Config\<close>, \<^bold>\<open>Tree_Setup\<close> validation (config.rs), the mini-page size classes (tree.rs) and the buffer a
    tree is set up with: a valid configuration meets the assumptions of the theorems above, with two
    exceptions that are exhibited.

  \<^bold>\<open>Storage.\<close>
  \<^descr> \<^bold>\<open>Mapping_Table\<close>, \<^bold>\<open>Page_Table\<close> the batched table of page locations (utils/mapping_table.rs, storage.rs)
    refines a list, and the table recovery builds is dense.
  \<^descr> \<^bold>\<open>Vfs\<close> the file (fs/mod.rs, fs/std_vfs.rs) and the vectors of a snapshot file (snapshot.rs), which are
    read back as they were written.
  \<^descr> \<^bold>\<open>Wal\<close>, \<^bold>\<open>Wal_Log\<close> the write-ahead log (wal/mod.rs, wal/operations.rs): a flushed log replays exactly
    what was appended; a write that was acknowledged is on disk, except the first one; what happens to an
    append that does not fit; recovery (snapshot.rs) does not read the encoding the tree writes.

  \<^bold>\<open>Concurrency control.\<close>
  \<^descr> \<^bold>\<open>Version_Lock\<close> optimistic locks of inner nodes (utils/inner_lock.rs): a validated read saw an unchanged
    node. The version word has 63 usable bits, so the theorem is for fewer than \<open>2 ^ 63\<close> acquisitions and
    releases.
  \<^descr> \<^bold>\<open>Rw_Lock\<close> the reader-writer lock of leaves (utils/rw_lock.rs): mutual exclusion for fewer than
    \<open>2 ^ 31 - 1\<close> threads, the capacity of the lock word.
  \<^descr> \<^bold>\<open>Snapshot_Handshake\<close> the phases of a snapshot (snapshot.rs): when the manager's scan is complete no thread
    is left in the old phase, and none at all after a pause.

  \<^bold>\<open>Not modelled.\<close> The operations on a locked leaf entry (mini_page_op.rs), traversal and structure modification
  (tree.rs), range scans (range_scan.rs) and the sweep of a snapshot follow raw pointers through the live tree
  and retry on conflicts; the node operations, buffers, tables and locks they are built from are modelled
  above, their composition is not. The other file backends are pure input and output. Backoff, random
  numbers, futex calls, statistics and metrics have no effect on what the tree holds. Memory is sequentially
  consistent.
\<close>

end
